(* ===== verification/Prelude.thy ===== *)
theory Prelude
  imports Complex_Main "HOL-Library.Word" "HOL-Library.Code_Target_Numeral"
begin

text \<open>
  Vocabulary shared by every component: the machine types of the C code, the ways a C call can
  end other than by returning a value, counting loops, and the list lemmas that the array
  proofs need.

  \<^item> \<open>byte\<close> is \<open>unsigned char\<close>, \<open>i32\<close> is \<open>int32_t\<close> and \<open>int\<close> (read with \<open>sint\<close>; \<open>+\<close> wraps, as
    the add instruction the compiler emits does), \<open>u32\<close> and \<open>u64\<close> are the unsigned types.
  \<^item> A call that can end the process or leave an array is a value of \<open>'a res\<close>.
  \<^item> A loop \<open>for (i = 0; i < n; i++) s = body(i, s)\<close> is \<open>for_upto n body s\<close>.
\<close>

named_theorems ring_simps \<open>index arithmetic of the circular buffer\<close>
named_theorems shape_simps \<open>lengths and sizes that the operations keep\<close>
named_theorems dbl_simps \<open>evaluation of the floating-point operations\<close>

unbundle bit_operations_syntax

type_synonym byte = "8 word"
type_synonym u16 = "16 word"
type_synonym u32 = "32 word"
type_synonym i32 = "32 word"
type_synonym u64 = "64 word"

section \<open>Results of calls\<close>

text \<open>
  \<open>ExitError\<close> is a message on standard error followed by \<open>exit\<close>; \<open>OutOfBounds\<close> is what C leaves
  undefined: an access outside the object the pointer points into, the overflow of an index
  computation, an integer division by zero.
\<close>

datatype c_error = ExitError | OutOfBounds

type_synonym 'a res = "c_error + 'a"

definition rbind :: "'a res \<Rightarrow> ('a \<Rightarrow> 'b res) \<Rightarrow> 'b res" where
  "rbind m f = (case m of Inl e \<Rightarrow> Inl e | Inr x \<Rightarrow> f x)"

lemma rbind_simps [simp]: "rbind (Inl e) f = Inl e" "rbind (Inr x) f = f x"
  by (simp_all add: rbind_def)

lemma rbind_Inr_iff: "rbind m f = Inr y \<longleftrightarrow> (\<exists>x. m = Inr x \<and> f x = Inr y)"
  by (cases m) auto

lemma rbind_InrE [elim!]:
  assumes "rbind m f = Inr y"
  obtains x where "m = Inr x" "f x = Inr y"
  using assms by (auto simp: rbind_Inr_iff)

text \<open>Checked reads and writes of an array.\<close>

definition arr_get :: "'a list \<Rightarrow> nat \<Rightarrow> 'a res" where
  "arr_get xs i = (if i < length xs then Inr (xs ! i) else Inl OutOfBounds)"

definition arr_set :: "'a list \<Rightarrow> nat \<Rightarrow> 'a \<Rightarrow> 'a list res" where
  "arr_set xs i v = (if i < length xs then Inr (xs[i := v]) else Inl OutOfBounds)"

lemma arr_get_in [simp]: "i < length xs \<Longrightarrow> arr_get xs i = Inr (xs ! i)"
  by (simp add: arr_get_def)

lemma arr_set_in [simp]: "i < length xs \<Longrightarrow> arr_set xs i v = Inr (xs[i := v])"
  by (simp add: arr_set_def)

section \<open>Counting loops\<close>

definition for_upto :: "nat \<Rightarrow> (nat \<Rightarrow> 's \<Rightarrow> 's) \<Rightarrow> 's \<Rightarrow> 's" where
  "for_upto n body s = fold body [0..<n] s"

lemma for_upto_0 [simp]: "for_upto 0 body s = s"
  by (simp add: for_upto_def)

lemma for_upto_Suc [simp]: "for_upto (Suc n) body s = body n (for_upto n body s)"
  by (simp add: for_upto_def)

text \<open>The loop rule: an invariant indexed by the number of finished iterations.\<close>

lemma for_upto_rule:
  assumes "I 0 s" and "\<And>i s. i < n \<Longrightarrow> I i s \<Longrightarrow> I (Suc i) (body i s)"
  shows "I n (for_upto n body s)"
proof -
  have "m \<le> n \<Longrightarrow> I m (for_upto m body s)" for m
    by (induction m) (use assms in auto)
  then show ?thesis by simp
qed

lemma for_upto_cong:
  assumes "n = m" "s = t" and "\<And>i u. i < m \<Longrightarrow> f i u = g i u"
  shows "for_upto n f s = for_upto m g t"
proof -
  have "k \<le> m \<Longrightarrow> for_upto k f s = for_upto k g s" for k
    by (induction k) (use assms(3) in auto)
  with assms(1,2) show ?thesis by simp
qed

text \<open>A loop whose body can end the process; later iterations do not run.\<close>

primrec for_res :: "nat \<Rightarrow> (nat \<Rightarrow> 's \<Rightarrow> 's res) \<Rightarrow> 's \<Rightarrow> 's res" where
  "for_res 0 body s = Inr s"
| "for_res (Suc n) body s = rbind (for_res n body s) (body n)"

lemma for_res_rule:
  assumes "for_res n body s = Inr t" and "I 0 s"
    and "\<And>i s t. i < n \<Longrightarrow> I i s \<Longrightarrow> body i s = Inr t \<Longrightarrow> I (Suc i) t"
  shows "I n t"
proof -
  have "m \<le> n \<Longrightarrow> for_res m body s = Inr t \<Longrightarrow> I m t" for m t
    by (induction m arbitrary: t) (use assms in auto)
  then show ?thesis using assms(1) by simp
qed

lemma for_res_total:
  assumes "I 0 s"
    and "\<And>i s. i < n \<Longrightarrow> I i s \<Longrightarrow> \<exists>t. body i s = Inr t \<and> I (Suc i) t"
  shows "\<exists>t. for_res n body s = Inr t \<and> I n t"
proof -
  have "m \<le> n \<Longrightarrow> \<exists>t. for_res m body s = Inr t \<and> I m t" for m
    by (induction m) (use assms in fastforce)+
  then show ?thesis by simp
qed

text \<open>A loop that writes cell \<open>i\<close> in iteration \<open>i\<close> computes a map.\<close>

lemma for_upto_list_update:
  assumes "n \<le> length xs"
  shows "for_upto n (\<lambda>i ys. ys[i := f i (ys ! i)]) xs =
    map (\<lambda>i. f i (xs ! i)) [0..<n] @ drop n xs"
  using assms
proof (induction n)
  case (Suc n)
  then have "drop n xs = xs ! n # drop (Suc n) xs"
    by (simp add: Cons_nth_drop_Suc)
  with Suc show ?case by (simp add: nth_append list_update_append)
qed simp

lemma for_upto_list_update_all:
  "for_upto (length xs) (\<lambda>i ys. ys[i := f i (ys ! i)]) xs =
    map (\<lambda>i. f i (xs ! i)) [0..<length xs]"
  by (simp add: for_upto_list_update)

text \<open>
  The same for a list inside a state (\<open>c\<close> puts it there), for loops that may fail and for loops
  that cannot: iteration \<open>i\<close> replaces cell \<open>i\<close>, which still has its first value, by \<open>h i\<close>.
\<close>

lemma for_res_writes:
  assumes "n \<le> length xs"
    and "\<And>i ys. i < n \<Longrightarrow> length ys = length xs \<Longrightarrow> ys ! i = xs ! i \<Longrightarrow>
      body i (c ys) = Inr (c (ys[i := h i]))"
  shows "for_res n body (c xs) = Inr (c (map h [0..<n] @ drop n xs))"
  using assms
proof (induction n)
  case (Suc n)
  let ?ys = "map h [0..<n] @ drop n xs"
  have d: "drop n xs = xs ! n # drop (Suc n) xs" using Suc.prems(1) by (simp add: Cons_nth_drop_Suc)
  have "body n (c ?ys) = Inr (c (?ys[n := h n]))"
    using Suc.prems(1) by (intro Suc.prems(2)) (simp_all add: nth_append)
  with Suc show ?case by (simp add: d list_update_append)
qed simp

lemma for_upto_writes:
  assumes "n \<le> length xs"
    and "\<And>i ys. i < n \<Longrightarrow> length ys = length xs \<Longrightarrow> ys ! i = xs ! i \<Longrightarrow>
      body i (c ys) = c (ys[i := h i])"
  shows "for_upto n body (c xs) = c (map h [0..<n] @ drop n xs)"
  using assms
proof (induction n)
  case (Suc n)
  let ?ys = "map h [0..<n] @ drop n xs"
  have d: "drop n xs = xs ! n # drop (Suc n) xs" using Suc.prems(1) by (simp add: Cons_nth_drop_Suc)
  have "body n (c ?ys) = c (?ys[n := h n])"
    using Suc.prems(1) by (intro Suc.prems(2)) (simp_all add: nth_append)
  with Suc show ?case by (simp add: d list_update_append)
qed simp

section \<open>Lists and sums\<close>

lemma list_eq_upt_map: "length xs = n \<Longrightarrow> map ((!) xs) [0..<n] = xs"
  using map_nth by blast

lemma sum_list_map_if: "sum_list (map (\<lambda>x. if P x then f x else 0) xs) = sum_list (map f (filter P xs))"
  for f :: "'a \<Rightarrow> 'b::comm_monoid_add"
  by (induction xs) auto

lemma sum_list_partition:
  "sum_list (map f (filter P xs)) + sum_list (map f (filter (\<lambda>x. \<not> P x) xs)) = sum_list (map f xs)"
  for f :: "'a \<Rightarrow> 'b::comm_monoid_add"
  by (induction xs) (auto simp: ac_simps)

section \<open>Words\<close>

lemma sint_i32_range: "- (2 ^ 31) \<le> sint (x :: i32)" "sint (x :: i32) < 2 ^ 31"
  using sint_range_size [of x] by (auto simp: word_size)

lemma sint_of_int_i32:
  assumes "- (2 ^ 31) \<le> k" "k < 2 ^ 31"
  shows "sint (word_of_int k :: i32) = k"
proof -
  have "signed_take_bit 31 k = k"
    using assms by (simp add: signed_take_bit_int_eq_self)
  then show ?thesis by (simp add: sint_sbintrunc')
qed

text \<open>An odd number has an inverse modulo a power of two, so multiplication by it is injective.\<close>

lemma odd_mult_dvd_pow2:
  fixes d s :: int
  assumes "odd s" "2 ^ n dvd d * s"
  shows "2 ^ n dvd d"
proof -
  have "coprime (2 ^ n) s"
    using assms(1) by simp
  with assms(2) show ?thesis
    by (simp add: coprime_dvd_mult_left_iff)
qed

end
