(* ===== verification/Ring_Buffer.thy ===== *)
theory Ring_Buffer
  imports Prelude
begin

text \<open>
  \<^verbatim>\<open>ringbuffer.c\<close> and \<^verbatim>\<open>ringbuffer.h\<close>: the single-producer single-consumer ring that carries
  packet records from the reader of the trace to a worker thread. The shared memory region is a
  record: the index fields of \<open>struct RBMeta\<close> and the data area, one list element per slot of
  \<open>tuple_size\<close> bytes (every caller passes \<open>size = sizeof(tuple_t) = tuple_size\<close>). Opening,
  mapping and unlinking the region are system calls and are not modelled; the state that
  \<open>create_ringbuffer_shm\<close> writes into the region is.

  Producer and consumer publish their index only every \<open>RB_BATCH\<close> operations and keep a stale
  copy of the other's; the invariant \<open>rb_rep\<close> relates the eight fields to six counters that
  never wrap, and the locale \<open>fifo_channel\<close> states what clients rely on.
\<close>

section \<open>State and operations\<close>

definition RB_SIZE :: int where
  "RB_SIZE = 2000"

definition RB_BATCH :: int where
  "RB_BATCH = 50"

record 'a ringbuffer =
  readIndex :: int
  writeIndex :: int
  localWriteIndex :: int
  nextReadIndex :: int
  rBatchCount :: int
  localReadIndex :: int
  nextWriteIndex :: int
  wBatchCount :: int
  data :: "'a list"

definition nextVal :: "int \<Rightarrow> int" where
  "nextVal x = (if x + 1 \<ge> RB_SIZE then 0 else x + 1)"

text \<open>\<open>zero\<close> is the slot of zero bytes that \<open>memset\<close> leaves.\<close>

definition create_ringbuffer :: "'a \<Rightarrow> 'a ringbuffer" where
  "create_ringbuffer zero =
     \<lparr>readIndex = 0, writeIndex = 0, localWriteIndex = 0, nextReadIndex = 0, rBatchCount = 0,
      localReadIndex = 0, nextWriteIndex = 0, wBatchCount = 0,
      data = replicate (nat RB_SIZE) zero\<rparr>"

definition flush_ringbuffer :: "'a ringbuffer \<Rightarrow> 'a ringbuffer" where
  "flush_ringbuffer rb =
     rb\<lparr>writeIndex := nextWriteIndex rb, readIndex := nextReadIndex rb\<rparr>"

definition read_complete_ringbuffer :: "'a ringbuffer \<Rightarrow> 'a ringbuffer" where
  "read_complete_ringbuffer rb =
     rb\<lparr>readIndex := nextReadIndex rb, localReadIndex := nextReadIndex rb\<rparr>"

definition ringbuffer_size :: "'a ringbuffer \<Rightarrow> int" where
  "ringbuffer_size rb =
     (if nextWriteIndex rb < localReadIndex rb
      then nextWriteIndex rb - localReadIndex rb + RB_SIZE
      else nextWriteIndex rb - localReadIndex rb)"

text \<open>The status is the C return value: \<open>0\<close> for success, \<open>-1\<close> for a full or empty ring.\<close>

definition write_ringbuffer :: "'a ringbuffer \<Rightarrow> 'a \<Rightarrow> int \<times> 'a ringbuffer" where
  "write_ringbuffer rb d =
     (let afterNextWriteIndex = nextVal (nextWriteIndex rb) in
      if afterNextWriteIndex = localReadIndex rb \<and> afterNextWriteIndex = readIndex rb
      then (- 1, rb)
      else
        let rb = (if afterNextWriteIndex = localReadIndex rb
                  then rb\<lparr>localReadIndex := readIndex rb\<rparr> else rb);
            rb = rb\<lparr>data := (data rb)[nat (nextWriteIndex rb) := d]\<rparr>;
            rb = rb\<lparr>nextWriteIndex := afterNextWriteIndex\<rparr>;
            rb = rb\<lparr>wBatchCount := wBatchCount rb + 1\<rparr>
        in if wBatchCount rb \<ge> RB_BATCH
           then (0, rb\<lparr>writeIndex := nextWriteIndex rb, wBatchCount := 0\<rparr>)
           else (0, rb))"

text \<open>The "blocking" variant has the same body, and does not block.\<close>

definition write_ringbuffer_block :: "'a ringbuffer \<Rightarrow> 'a \<Rightarrow> int \<times> 'a ringbuffer" where
  "write_ringbuffer_block rb d =
     (let afterNextWriteIndex = nextVal (nextWriteIndex rb) in
      if afterNextWriteIndex = localReadIndex rb \<and> afterNextWriteIndex = readIndex rb
      then (- 1, rb)
      else
        let rb = (if afterNextWriteIndex = localReadIndex rb
                  then rb\<lparr>localReadIndex := readIndex rb\<rparr> else rb);
            rb = rb\<lparr>data := (data rb)[nat (nextWriteIndex rb) := d]\<rparr>;
            rb = rb\<lparr>nextWriteIndex := afterNextWriteIndex\<rparr>;
            rb = rb\<lparr>wBatchCount := wBatchCount rb + 1\<rparr>
        in if wBatchCount rb \<ge> RB_BATCH
           then (0, rb\<lparr>writeIndex := nextWriteIndex rb, wBatchCount := 0\<rparr>)
           else (0, rb))"

text \<open>\<open>buf\<close> is what the caller's buffer holds before the call; the result holds it after.\<close>

definition read_ringbuffer :: "'a ringbuffer \<Rightarrow> 'a \<Rightarrow> int \<times> 'a \<times> 'a ringbuffer" where
  "read_ringbuffer rb buf =
     (if nextReadIndex rb = localWriteIndex rb \<and> nextReadIndex rb = writeIndex rb
      then (- 1, buf, rb)
      else
        let rb = (if nextReadIndex rb = localWriteIndex rb
                  then rb\<lparr>localWriteIndex := writeIndex rb\<rparr> else rb);
            d = data rb ! nat (nextReadIndex rb);
            rb = rb\<lparr>nextReadIndex := nextVal (nextReadIndex rb)\<rparr>;
            rb = rb\<lparr>rBatchCount := rBatchCount rb + 1\<rparr>
        in if rBatchCount rb \<ge> RB_BATCH
           then (0, d, rb\<lparr>readIndex := nextReadIndex rb, rBatchCount := 0\<rparr>)
           else (0, d, rb))"

section \<open>The contract of a channel\<close>

text \<open>
  \<open>contents\<close> is what has been accepted and not yet delivered, oldest first; \<open>visible\<close> is how many
  of these a receiver can get before the sender publishes again.
\<close>

locale fifo_channel =
  fixes inv :: "'s \<Rightarrow> bool"
    and contents :: "'s \<Rightarrow> 'a list"
    and visible :: "'s \<Rightarrow> nat"
    and send :: "'s \<Rightarrow> 'a \<Rightarrow> int \<times> 's"
    and recv :: "'s \<Rightarrow> 'a \<Rightarrow> int \<times> 'a \<times> 's"
    and flush :: "'s \<Rightarrow> 's"
  assumes send_ok: "inv s \<Longrightarrow> send s x = (0, t) \<Longrightarrow>
      inv t \<and> contents t = contents s @ [x] \<and> visible s \<le> visible t"
    and send_status: "inv s \<Longrightarrow> send s x = (r, t) \<Longrightarrow> r = 0 \<or> r = - 1 \<and> t = s"
    and recv_ok: "inv s \<Longrightarrow> recv s b = (0, y, t) \<Longrightarrow>
      inv t \<and> contents s = y # contents t \<and> visible s = Suc (visible t)"
    and recv_status: "inv s \<Longrightarrow> recv s b = (r, y, t) \<Longrightarrow>
      (r = 0 \<longleftrightarrow> 0 < visible s) \<and> (r = 0 \<or> r = - 1 \<and> y = b \<and> t = s)"
    and flush_ok: "inv s \<Longrightarrow> inv (flush s) \<and> contents (flush s) = contents s \<and>
      visible (flush s) = length (contents s)"
    and visible_le: "inv s \<Longrightarrow> visible s \<le> length (contents s)"
    and no_deadlock: "inv s \<Longrightarrow> send s x = (- 1, t) \<Longrightarrow> 0 < visible s"

datatype 'a chan_op = Send 'a | Recv | Flush

text \<open>
  A run of operations of both ends in some order: the state, the accepted and the delivered
  elements. \<open>b\<close> is the receiver's buffer.
\<close>

fun chan_step ::
  "('s \<Rightarrow> 'a \<Rightarrow> int \<times> 's) \<Rightarrow> ('s \<Rightarrow> 'a \<Rightarrow> int \<times> 'a \<times> 's) \<Rightarrow> ('s \<Rightarrow> 's) \<Rightarrow> 'a chan_op \<Rightarrow>
   's \<times> 'a list \<times> 'a list \<Rightarrow> 'a \<Rightarrow> 's \<times> 'a list \<times> 'a list" where
  "chan_step send recv flush (Send x) (s, acc, del) b =
     (case send s x of (r, t) \<Rightarrow> if r = 0 then (t, acc @ [x], del) else (t, acc, del))"
| "chan_step send recv flush Recv (s, acc, del) b =
     (case recv s b of (r, y, t) \<Rightarrow> if r = 0 then (t, acc, del @ [y]) else (t, acc, del))"
| "chan_step send recv flush Flush (s, acc, del) b = (flush s, acc, del)"

fun chan_run ::
  "('s \<Rightarrow> 'a \<Rightarrow> int \<times> 's) \<Rightarrow> ('s \<Rightarrow> 'a \<Rightarrow> int \<times> 'a \<times> 's) \<Rightarrow> ('s \<Rightarrow> 's) \<Rightarrow> 'a \<Rightarrow>
   'a chan_op list \<Rightarrow> 's \<times> 'a list \<times> 'a list \<Rightarrow> 's \<times> 'a list \<times> 'a list" where
  "chan_run send recv flush b [] c = c"
| "chan_run send recv flush b (p # ps) c =
     chan_run send recv flush b ps (chan_step send recv flush p c b)"

context fifo_channel
begin

lemma step_fifo:
  assumes "inv s" and "acc = del @ contents s"
    and "chan_step send recv flush p (s, acc, del) b = (t, acc', del')"
  shows "inv t \<and> acc' = del' @ contents t"
proof (cases p)
  case (Send x)
  then show ?thesis
    using assms send_ok [OF assms(1), of x] send_status [OF assms(1), of x]
    by (auto split: prod.splits if_splits)
next
  case Recv
  then show ?thesis
    using assms recv_ok [OF assms(1), of b] recv_status [OF assms(1), of b]
    by (auto split: prod.splits if_splits)
next
  case Flush
  then show ?thesis using assms flush_ok [OF assms(1)] by auto
qed

lemma run_fifo:
  assumes "inv s" and "acc = del @ contents s"
    and "chan_run send recv flush b ps (s, acc, del) = (t, acc', del')"
  shows "inv t \<and> acc' = del' @ contents t"
  using assms
proof (induction ps arbitrary: s acc del)
  case (Cons p ps)
  obtain u acc1 del1 where u: "chan_step send recv flush p (s, acc, del) b = (u, acc1, del1)"
    using prod_cases3 by blast
  from step_fifo [OF Cons.prems(1,2) u] have "inv u" "acc1 = del1 @ contents u" by auto
  moreover have "chan_run send recv flush b ps (u, acc1, del1) = (t, acc', del')"
    using Cons.prems(3) u by simp
  ultimately show ?case by (rule Cons.IH)
qed simp

text \<open>Receiving \<open>n\<close> times delivers the \<open>n\<close> oldest elements when that many are visible.\<close>

lemma recv_all:
  assumes "inv s" "n \<le> visible s"
  shows "\<exists>t. chan_run send recv flush b (replicate n Recv) (s, acc, del) =
      (t, acc, del @ take n (contents s)) \<and> inv t \<and> contents t = drop n (contents s)"
  using assms
proof (induction n arbitrary: s del)
  case (Suc n)
  obtain r y t where rt: "recv s b = (r, y, t)" using prod_cases3 by blast
  with recv_status [OF Suc.prems(1) rt] Suc.prems(2) have r: "r = 0" by auto
  with rt recv_ok [OF Suc.prems(1)] have t: "inv t" "contents s = y # contents t"
    "visible s = Suc (visible t)" by auto
  with Suc.prems have "n \<le> visible t" by simp
  from Suc.IH [OF t(1) this, of "del @ [y]"] show ?case using rt r t by auto
qed simp

text \<open>After a flush everything accepted so far can be received.\<close>

lemma flush_drains:
  assumes "inv s"
  shows "\<exists>t. chan_run send recv flush b (Flush # replicate (length (contents s)) Recv) (s, acc, del) =
      (t, acc, del @ contents s) \<and> inv t \<and> contents t = []"
  using recv_all [of "flush s" "length (contents s)" b acc del] flush_ok [OF assms] by auto

lemma progress:
  assumes "inv s"
  shows "fst (send s x) = 0 \<or> fst (recv s b) = 0"
proof (cases "send s x")
  case (Pair r t)
  show ?thesis
  proof (cases "r = 0")
    case False
    with Pair send_status [OF assms] have "send s x = (- 1, t)" by auto
    then have "0 < visible s" by (rule no_deadlock [OF assms])
    then show ?thesis
      using recv_status [OF assms] by (metis fst_conv prod.collapse)
  qed (simp add: Pair)
qed

end

section \<open>The ring buffer is a channel\<close>

text \<open>
  \<open>lR \<le> pR \<le> R \<le> lW \<le> pW \<le> W\<close> count the reads the writer knows of, the published reads, the
  reads, the writes the reader knows of, the published writes and the writes since the start.
\<close>

definition rb_order :: "int \<Rightarrow> int \<Rightarrow> int \<Rightarrow> int \<Rightarrow> int \<Rightarrow> int \<Rightarrow> int \<Rightarrow> int \<Rightarrow> bool" where
  "rb_order lR pR R lW pW W wB rB \<longleftrightarrow>
     0 \<le> lR \<and> lR \<le> pR \<and> pR \<le> R \<and> R \<le> lW \<and> lW \<le> pW \<and> pW \<le> W \<and> W < lR + 2000 \<and>
     W - pW \<le> wB \<and> wB < 50 \<and> R - pR \<le> rB \<and> rB < 50"

definition rb_rep :: "'a ringbuffer \<Rightarrow> int \<Rightarrow> int \<Rightarrow> int \<Rightarrow> int \<Rightarrow> int \<Rightarrow> int \<Rightarrow> bool" where
  "rb_rep rb lR pR R lW pW W \<longleftrightarrow>
     localReadIndex rb = lR mod 2000 \<and> readIndex rb = pR mod 2000 \<and>
     nextReadIndex rb = R mod 2000 \<and> localWriteIndex rb = lW mod 2000 \<and>
     writeIndex rb = pW mod 2000 \<and> nextWriteIndex rb = W mod 2000 \<and>
     length (data rb) = 2000 \<and>
     rb_order lR pR R lW pW W (wBatchCount rb) (rBatchCount rb)"

lemma rb_rep_order:
  "rb_rep rb lR pR R lW pW W \<Longrightarrow> rb_order lR pR R lW pW W (wBatchCount rb) (rBatchCount rb)"
  unfolding rb_rep_def by blast

definition rb_inv :: "'a ringbuffer \<Rightarrow> bool" where
  "rb_inv rb \<longleftrightarrow> (\<exists>lR pR R lW pW W. rb_rep rb lR pR R lW pW W)"

lemma rb_invI: "rb_rep rb lR pR R lW pW W \<Longrightarrow> rb_inv rb"
  unfolding rb_inv_def by blast

definition rb_contents :: "'a ringbuffer \<Rightarrow> 'a list" where
  "rb_contents rb =
     map (\<lambda>k. data rb ! nat ((nextReadIndex rb + int k) mod 2000))
       [0..<nat ((nextWriteIndex rb - nextReadIndex rb) mod 2000)]"

definition rb_visible :: "'a ringbuffer \<Rightarrow> nat" where
  "rb_visible rb = nat ((writeIndex rb - nextReadIndex rb) mod 2000)"

lemma nextVal_mod [ring_simps]: "nextVal (n mod 2000) = (n + 1) mod 2000"
proof -
  define r where "r = n mod 2000"
  have r: "0 \<le> r" "r < 2000" by (simp_all add: r_def)
  have "(n + 1) mod 2000 = (r + 1) mod 2000" by (simp add: r_def mod_add_left_eq)
  also have "\<dots> = nextVal r"
  proof (cases "r = 1999")
    case False
    with r show ?thesis by (simp add: nextVal_def RB_SIZE_def)
  qed (simp add: nextVal_def RB_SIZE_def)
  finally show ?thesis by (simp add: r_def)
qed

lemma mod_eq_near [ring_simps]:
  assumes "a \<le> b" "b < a + 2000"
  shows "a mod 2000 = b mod 2000 \<longleftrightarrow> a = (b :: int)"
proof -
  have "b mod 2000 = a mod 2000 \<longleftrightarrow> 2000 dvd b - a" by (rule mod_eq_dvd_iff)
  then show ?thesis using assms zdvd_imp_le [of 2000 "b - a"] by (cases "a = b") auto
qed

lemma mod_full [ring_simps]:
  assumes "a \<le> b" "b < a + 2000"
  shows "(b + 1) mod 2000 = a mod 2000 \<longleftrightarrow> b + 1 = a + (2000 :: int)"
proof -
  have "(b + 1) mod 2000 = a mod 2000 \<longleftrightarrow> 2000 dvd b + 1 - a" by (rule mod_eq_dvd_iff)
  also have "\<dots> \<longleftrightarrow> b + 1 - a = 2000"
  proof
    assume "2000 dvd b + 1 - a"
    then have "2000 \<le> b + 1 - a" using assms(1) by (intro zdvd_imp_le) auto
    with assms(2) show "b + 1 - a = 2000" by linarith
  next
    assume eq: "b + 1 - a = 2000"
    show "2000 dvd b + 1 - a" by (simp only: eq dvd_refl)
  qed
  finally show ?thesis by linarith
qed

lemma mod_diff_near [ring_simps]:
  assumes "a \<le> b" "b < a + 2000"
  shows "(b mod 2000 - a mod 2000) mod 2000 = b - (a :: int)"
proof -
  have "(b mod 2000 - a mod 2000) mod 2000 = (b - a) mod 2000" by (rule mod_diff_eq)
  then show ?thesis using assms by simp
qed

text \<open>The queue in terms of the counters: slots \<open>R, ..., W - 1\<close>, modulo the size.\<close>

lemma rb_contents_rep:
  assumes "rb_rep rb lR pR R lW pW W"
  shows "rb_contents rb = map (\<lambda>k. data rb ! nat ((R + int k) mod 2000)) [0..<nat (W - R)]"
proof -
  have "R \<le> W" "W < R + 2000" using rb_rep_order [OF assms] unfolding rb_order_def by linarith+
  moreover have "nextReadIndex rb = R mod 2000" "nextWriteIndex rb = W mod 2000"
    using assms unfolding rb_rep_def by blast+
  ultimately show ?thesis by (simp only: rb_contents_def mod_diff_near mod_add_left_eq)
qed

lemma rb_visible_rep: "rb_rep rb lR pR R lW pW W \<Longrightarrow> rb_visible rb = nat (pW - R)"
proof -
  assume rep: "rb_rep rb lR pR R lW pW W"
  then have "R \<le> pW" "pW < R + 2000"
    using rb_rep_order [OF rep] unfolding rb_order_def by linarith+
  moreover have "nextReadIndex rb = R mod 2000" "writeIndex rb = pW mod 2000"
    using rep unfolding rb_rep_def by blast+
  ultimately show ?thesis by (simp only: rb_visible_def mod_diff_near)
qed

lemma slots_update_other:
  assumes "R \<le> W" "W < R + 2000" "length d = 2000"
  shows "map (\<lambda>k. d[nat (W mod 2000) := x] ! nat ((R + int k) mod 2000)) [0..<nat (W - R)] =
    map (\<lambda>k. d ! nat ((R + int k) mod 2000)) [0..<nat (W - R)]"
proof (rule map_cong [OF refl])
  fix k assume "k \<in> set [0..<nat (W - R)]"
  then have "R + int k \<le> W" "W < R + int k + 2000" "R + int k \<noteq> W" using assms by auto
  then have "nat (W mod 2000) \<noteq> nat ((R + int k) mod 2000)"
    using mod_eq_near [of "R + int k" W] by (simp add: nat_eq_iff2)
  then show "d[nat (W mod 2000) := x] ! nat ((R + int k) mod 2000) = d ! nat ((R + int k) mod 2000)"
    by simp
qed

lemma slots_append:
  assumes "R \<le> W" "W < R + 2000" "length d = 2000"
  shows "map (\<lambda>k. d[nat (W mod 2000) := x] ! nat ((R + int k) mod 2000)) [0..<nat (W + 1 - R)] =
    map (\<lambda>k. d ! nat ((R + int k) mod 2000)) [0..<nat (W - R)] @ [x]"
proof -
  have "nat (W + 1 - R) = Suc (nat (W - R))" "R + int (nat (W - R)) = W" using assms(1) by auto
  then show ?thesis
    using slots_update_other [OF assms] assms(3) by (simp add: nat_less_iff)
qed

lemma slots_Cons:
  assumes "R < W"
  shows "map (\<lambda>k. d ! nat ((R + int k) mod 2000)) [0..<nat (W - R)] =
    d ! nat (R mod 2000) # map (\<lambda>k. d ! nat ((R + 1 + int k) mod 2000)) [0..<nat (W - (R + 1))]"
proof -
  have "nat (W - R) = Suc (nat (W - (R + 1)))" using assms by simp
  then show ?thesis
    by (simp add: upt_conv_Cons map_Suc_upt [symmetric] add.assoc del: upt_Suc)
qed

lemma rb_rep_write_tests:
  assumes "rb_rep rb lR pR R lW pW W"
  shows "nextVal (nextWriteIndex rb) = (W + 1) mod 2000"
    and "(W + 1) mod 2000 = localReadIndex rb \<longleftrightarrow> W + 1 = lR + 2000"
    and "(W + 1) mod 2000 = readIndex rb \<longleftrightarrow> W + 1 = pR + 2000"
    and "nextWriteIndex rb = W mod 2000"
proof -
  have o: "lR \<le> W" "W < lR + 2000" "pR \<le> W" "W < pR + 2000"
    using rb_rep_order [OF assms] unfolding rb_order_def by linarith+
  have i: "nextWriteIndex rb = W mod 2000" "localReadIndex rb = lR mod 2000" "readIndex rb = pR mod 2000"
    using assms unfolding rb_rep_def by blast+
  show "nextVal (nextWriteIndex rb) = (W + 1) mod 2000" "nextWriteIndex rb = W mod 2000"
    by (simp_all only: i nextVal_mod)
  show "(W + 1) mod 2000 = localReadIndex rb \<longleftrightarrow> W + 1 = lR + 2000"
    "(W + 1) mod 2000 = readIndex rb \<longleftrightarrow> W + 1 = pR + 2000"
    by (simp_all only: i mod_full o)
qed

lemma rb_rep_read_tests:
  assumes "rb_rep rb lR pR R lW pW W"
  shows "R mod 2000 = localWriteIndex rb \<longleftrightarrow> R = lW"
    and "R mod 2000 = writeIndex rb \<longleftrightarrow> R = pW"
    and "nextReadIndex rb = R mod 2000"
proof -
  have o: "R \<le> lW" "lW < R + 2000" "R \<le> pW" "pW < R + 2000"
    using rb_rep_order [OF assms] unfolding rb_order_def by linarith+
  have i: "nextReadIndex rb = R mod 2000" "localWriteIndex rb = lW mod 2000" "writeIndex rb = pW mod 2000"
    using assms unfolding rb_rep_def by blast+
  show "R mod 2000 = localWriteIndex rb \<longleftrightarrow> R = lW" "R mod 2000 = writeIndex rb \<longleftrightarrow> R = pW"
    "nextReadIndex rb = R mod 2000"
    by (simp_all only: i mod_eq_near o)
qed

lemma rb_write_rep:
  assumes rep: "rb_rep rb lR pR R lW pW W"
  shows "if W + 1 = pR + 2000 then write_ringbuffer rb x = (- 1, rb)
    else \<exists>rb' lR' pW'. write_ringbuffer rb x = (0, rb') \<and> rb_rep rb' lR' pR R lW pW' (W + 1) \<and>
      pW \<le> pW' \<and> data rb' = (data rb)[nat (W mod 2000) := x]"
proof (cases "W + 1 = pR + 2000")
  case True
  moreover from this rb_rep_order [OF rep] have "W + 1 = lR + 2000" unfolding rb_order_def by linarith
  ultimately have "nextVal (nextWriteIndex rb) = localReadIndex rb"
    "nextVal (nextWriteIndex rb) = readIndex rb"
    using rb_rep_write_tests [OF rep] by metis+
  with True show ?thesis by (simp add: write_ringbuffer_def)
next
  case False
  define lR' where "lR' = (if W + 1 = lR + 2000 then pR else lR)"
  define pW' where "pW' = (if wBatchCount rb + 1 \<ge> 50 then W + 1 else pW)"
  define rb' where "rb' = rb\<lparr>localReadIndex := (if W + 1 = lR + 2000 then readIndex rb else localReadIndex rb),
    data := (data rb)[nat (nextWriteIndex rb) := x], nextWriteIndex := (W + 1) mod 2000,
    writeIndex := (if wBatchCount rb + 1 \<ge> 50 then (W + 1) mod 2000 else writeIndex rb),
    wBatchCount := (if wBatchCount rb + 1 \<ge> 50 then 0 else wBatchCount rb + 1)\<rparr>"
  define a where "a = nextVal (nextWriteIndex rb)"
  have t: "a = (W + 1) mod 2000" "a = localReadIndex rb \<longleftrightarrow> W + 1 = lR + 2000"
    "a = readIndex rb \<longleftrightarrow> False" "nat (nextWriteIndex rb) = nat (W mod 2000)"
    using rb_rep_write_tests [OF rep] False by (simp_all only: a_def)
  have "write_ringbuffer rb x = (0, rb')"
    unfolding write_ringbuffer_def Let_def RB_BATCH_def rb'_def a_def [symmetric] t(2,3) t(1) [symmetric]
    by (cases "W + 1 = lR + 2000"; cases "wBatchCount rb + 1 \<ge> 50") simp_all
  moreover have "rb_order lR' pR R lW pW' (W + 1) (wBatchCount rb') (rBatchCount rb')"
    using rb_rep_order [OF rep] False by (auto simp: rb_order_def rb'_def lR'_def pW'_def)
  then have "rb_rep rb' lR' pR R lW pW' (W + 1)"
    using rep by (simp add: rb_rep_def rb'_def lR'_def pW'_def)
  moreover have "data rb' = (data rb)[nat (W mod 2000) := x]"
    by (simp add: rb'_def t(4))
  moreover have "pW \<le> W" using rb_rep_order [OF rep] unfolding rb_order_def by linarith
  then have "pW \<le> pW'" by (simp add: pW'_def)
  ultimately show ?thesis using False by metis
qed

lemma rb_read_rep:
  assumes rep: "rb_rep rb lR pR R lW pW W"
  shows "if R = pW then read_ringbuffer rb b = (- 1, b, rb)
    else \<exists>rb' pR' lW'. read_ringbuffer rb b = (0, data rb ! nat (R mod 2000), rb') \<and>
      rb_rep rb' lR pR' (R + 1) lW' pW W \<and> data rb' = data rb"
proof (cases "R = pW")
  case True
  moreover from this rb_rep_order [OF rep] have "R = lW" unfolding rb_order_def by linarith
  ultimately have "nextReadIndex rb = localWriteIndex rb" "nextReadIndex rb = writeIndex rb"
    using rb_rep_read_tests [OF rep] by metis+
  with True show ?thesis by (simp add: read_ringbuffer_def)
next
  case False
  define lW' where "lW' = (if R = lW then pW else lW)"
  define pR' where "pR' = (if rBatchCount rb + 1 \<ge> 50 then R + 1 else pR)"
  define rb' where "rb' = rb\<lparr>localWriteIndex := (if R = lW then writeIndex rb else localWriteIndex rb),
    nextReadIndex := (R + 1) mod 2000,
    rBatchCount := (if rBatchCount rb + 1 \<ge> 50 then 0 else rBatchCount rb + 1),
    readIndex := (if rBatchCount rb + 1 \<ge> 50 then (R + 1) mod 2000 else readIndex rb)\<rparr>"
  have "read_ringbuffer rb b = (0, data rb ! nat (R mod 2000), rb')"
    using False
    by (simp add: read_ringbuffer_def Let_def rb_rep_read_tests [OF rep] nextVal_mod RB_BATCH_def rb'_def)
  moreover have "rb_order lR pR' (R + 1) lW' pW W (wBatchCount rb') (rBatchCount rb')"
    using rb_rep_order [OF rep] False by (auto simp: rb_order_def rb'_def lW'_def pR'_def)
  then have "rb_rep rb' lR pR' (R + 1) lW' pW W"
    using rep by (simp add: rb_rep_def rb'_def lW'_def pR'_def)
  moreover have "data rb' = data rb" by (simp add: rb'_def)
  ultimately show ?thesis using False by metis
qed

lemma rb_flush_rep:
  "rb_rep rb lR pR R lW pW W \<Longrightarrow>
    rb_rep (flush_ringbuffer rb) lR R R lW W W \<and> data (flush_ringbuffer rb) = data rb"
  by (auto simp: rb_rep_def rb_order_def flush_ringbuffer_def)

lemma rb_read_complete_rep:
  "rb_rep rb lR pR R lW pW W \<Longrightarrow>
    rb_rep (read_complete_ringbuffer rb) R R R lW pW W \<and> data (read_complete_ringbuffer rb) = data rb"
  by (auto simp: rb_rep_def rb_order_def read_complete_ringbuffer_def)

lemma rb_inv_create: "rb_inv (create_ringbuffer z)"
proof -
  have "rb_rep (create_ringbuffer z) 0 0 0 0 0 0"
    by (simp add: rb_rep_def rb_order_def create_ringbuffer_def RB_SIZE_def)
  then show ?thesis unfolding rb_inv_def by blast
qed

lemma rb_contents_create [simp]: "rb_contents (create_ringbuffer z) = []"
  by (simp add: rb_contents_def create_ringbuffer_def)

lemma rb_write_contents:
  assumes "rb_rep rb lR pR R lW pW W" "rb_rep rb' lR' pR R lW pW' (W + 1)"
    and "data rb' = (data rb)[nat (W mod 2000) := x]"
  shows "rb_contents rb' = rb_contents rb @ [x]"
proof -
  have o: "R \<le> W" "W < R + 2000"
    using rb_rep_order [OF assms(1)] unfolding rb_order_def by linarith+
  have l: "length (data rb) = 2000" using assms(1) unfolding rb_rep_def by blast
  show ?thesis
    unfolding rb_contents_rep [OF assms(1)] rb_contents_rep [OF assms(2)] assms(3)
    by (rule slots_append [OF o l])
qed

lemma rb_read_contents:
  assumes "rb_rep rb lR pR R lW pW W" "rb_rep rb' lR pR' (R + 1) lW' pW W"
    and "data rb' = data rb" "R \<noteq> pW"
  shows "rb_contents rb = data rb ! nat (R mod 2000) # rb_contents rb'"
proof -
  have "R < W" using rb_rep_order [OF assms(1)] assms(4) unfolding rb_order_def by linarith
  then show ?thesis
    unfolding rb_contents_rep [OF assms(1)] rb_contents_rep [OF assms(2)] assms(3)
    by (rule slots_Cons)
qed

lemma rb_visible_le:
  assumes "rb_inv rb"
  shows "rb_visible rb \<le> length (rb_contents rb)"
proof -
  from assms obtain lR pR R lW pW W where rep: "rb_rep rb lR pR R lW pW W"
    unfolding rb_inv_def by blast
  then have "pW \<le> W" unfolding rb_rep_def rb_order_def by blast
  then show ?thesis by (simp add: rb_contents_rep [OF rep] rb_visible_rep [OF rep])
qed

lemma rb_capacity:
  assumes "rb_inv rb"
  shows "length (rb_contents rb) \<le> 1999"
proof -
  from assms obtain lR pR R lW pW W where rep: "rb_rep rb lR pR R lW pW W"
    unfolding rb_inv_def by blast
  from rb_rep_order [OF rep] have "W - R \<le> 1999" unfolding rb_order_def by linarith
  then show ?thesis by (simp add: rb_contents_rep [OF rep])
qed

lemma rb_send_ok:
  assumes "rb_inv rb" "write_ringbuffer rb x = (0, rb')"
  shows "rb_inv rb' \<and> rb_contents rb' = rb_contents rb @ [x] \<and> rb_visible rb \<le> rb_visible rb'"
proof -
  from assms(1) obtain lR pR R lW pW W where rep: "rb_rep rb lR pR R lW pW W"
    unfolding rb_inv_def by blast
  with rb_write_rep [OF rep, of x] assms(2) obtain lR' pW' where
    w: "rb_rep rb' lR' pR R lW pW' (W + 1)" "pW \<le> pW'" "data rb' = (data rb)[nat (W mod 2000) := x]"
    by (auto split: if_splits)
  from rb_write_contents [OF rep w(1,3)] w(2) show ?thesis
    by (simp add: rb_invI [OF w(1)] rb_visible_rep [OF rep] rb_visible_rep [OF w(1)])
qed

lemma rb_send_status:
  "rb_inv rb \<Longrightarrow> write_ringbuffer rb x = (r, rb') \<Longrightarrow> r = 0 \<or> r = - 1 \<and> rb' = rb"
  by (auto simp: write_ringbuffer_def Let_def split: if_splits)

lemma rb_recv_ok:
  assumes "rb_inv rb" "read_ringbuffer rb b = (0, y, rb')"
  shows "rb_inv rb' \<and> rb_contents rb = y # rb_contents rb' \<and> rb_visible rb = Suc (rb_visible rb')"
proof -
  from assms(1) obtain lR pR R lW pW W where rep: "rb_rep rb lR pR R lW pW W"
    unfolding rb_inv_def by blast
  with rb_read_rep [OF rep, of b] assms(2) obtain pR' lW' where
    r: "R \<noteq> pW" "y = data rb ! nat (R mod 2000)" "rb_rep rb' lR pR' (R + 1) lW' pW W" "data rb' = data rb"
    by (auto split: if_splits)
  have "R < pW" using r(1) rb_rep_order [OF rep] unfolding rb_order_def by linarith
  with rb_read_contents [OF rep r(3,4,1)] r(2) show ?thesis
    by (simp add: rb_invI [OF r(3)] rb_visible_rep [OF rep] rb_visible_rep [OF r(3)])
qed

lemma rb_recv_status:
  assumes "rb_inv rb" "read_ringbuffer rb b = (r, y, rb')"
  shows "(r = 0 \<longleftrightarrow> 0 < rb_visible rb) \<and> (r = 0 \<or> r = - 1 \<and> y = b \<and> rb' = rb)"
proof -
  from assms(1) obtain lR pR R lW pW W where rep: "rb_rep rb lR pR R lW pW W"
    unfolding rb_inv_def by blast
  from rb_rep_order [OF rep] have "R \<le> pW" unfolding rb_order_def by linarith
  with rb_read_rep [OF rep, of b] assms(2) show ?thesis
    by (auto simp: rb_visible_rep [OF rep] split: if_splits)
qed

lemma rb_flush_ok:
  assumes "rb_inv rb"
  shows "rb_inv (flush_ringbuffer rb) \<and> rb_contents (flush_ringbuffer rb) = rb_contents rb \<and>
    rb_visible (flush_ringbuffer rb) = length (rb_contents rb)"
proof -
  from assms obtain lR pR R lW pW W where rep: "rb_rep rb lR pR R lW pW W"
    unfolding rb_inv_def by blast
  from rb_flush_rep [OF rep] have f: "rb_rep (flush_ringbuffer rb) lR R R lW W W"
    "data (flush_ringbuffer rb) = data rb" by auto
  then show ?thesis
    by (simp add: rb_invI [OF f(1)] rb_contents_rep [OF rep] rb_contents_rep [OF f(1)]
        rb_visible_rep [OF f(1)])
qed

lemma rb_no_deadlock:
  assumes "rb_inv rb" "write_ringbuffer rb x = (- 1, rb')"
  shows "0 < rb_visible rb"
proof -
  from assms(1) obtain lR pR R lW pW W where rep: "rb_rep rb lR pR R lW pW W"
    unfolding rb_inv_def by blast
  with rb_write_rep [OF rep, of x] assms(2) have "W + 1 = pR + 2000" by (auto split: if_splits)
  with rb_rep_order [OF rep] have "R < pW" unfolding rb_order_def by linarith
  then show ?thesis by (simp add: rb_visible_rep [OF rep])
qed

interpretation ring: fifo_channel rb_inv rb_contents rb_visible write_ringbuffer read_ringbuffer
  flush_ringbuffer
  by unfold_locales
    (fact rb_send_ok rb_send_status rb_recv_ok rb_recv_status rb_flush_ok rb_visible_le rb_no_deadlock)+

section \<open>Properties\<close>

text \<open>
  C13: the ring is a FIFO queue. Whatever sequence of writes, reads and flushes the two ends
  perform from the created state on, the elements accepted by successful writes are, in order,
  those delivered by successful reads followed by those still in the ring, of which there are
  never more than 1999.
\<close>

theorem ring_fifo:
  assumes "chan_run write_ringbuffer read_ringbuffer flush_ringbuffer b ops
      (create_ringbuffer z, [], []) = (rb, accepted, delivered)"
  shows "accepted = delivered @ rb_contents rb \<and> length (rb_contents rb) \<le> 1999"
proof -
  have "rb_inv rb \<and> accepted = delivered @ rb_contents rb"
    by (rule ring.run_fifo [OF rb_inv_create _ assms]) simp
  then show ?thesis using rb_capacity by blast
qed

theorem ring_fifo_witness:
  "\<exists>rb. chan_run write_ringbuffer read_ringbuffer flush_ringbuffer (0 :: nat)
      [Send 5, Recv, Send 6, Flush, Recv, Send 7] (create_ringbuffer 0, [], []) = (rb, [5, 6, 7], [5]) \<and>
    [5, 6, 7] = [5] @ rb_contents rb"
proof -
  obtain rb where run: "chan_run write_ringbuffer read_ringbuffer flush_ringbuffer (0 :: nat)
      [Send 5, Recv, Send 6, Flush, Recv, Send 7] (create_ringbuffer 0, [], []) = (rb, [5, 6, 7], [5])"
    by (simp add: write_ringbuffer_def read_ringbuffer_def flush_ringbuffer_def create_ringbuffer_def
        nextVal_def RB_SIZE_def RB_BATCH_def Let_def)
  with ring_fifo [OF run] show ?thesis by blast
qed

text \<open>
  C18: the two ends cannot both be stuck. In every state that satisfies the invariant a write
  succeeds or a read succeeds, although both ends work with indices that are up to 49
  operations old.
\<close>

theorem ring_progress:
  assumes "rb_inv rb"
  shows "fst (write_ringbuffer rb x) = 0 \<or> fst (read_ringbuffer rb b) = 0"
  using assms by (rule ring.progress)

theorem ring_progress_witness:
  "fst (write_ringbuffer (create_ringbuffer 0) (1 :: nat)) = 0 \<or>
   fst (read_ringbuffer (create_ringbuffer 0) (1 :: nat)) = 0"
  using ring_progress [OF rb_inv_create, of 0 1 1] .

text \<open>after a flush the reader gets everything that was written. In a state that satisfies the
  invariant, a flush and as many reads as there are elements all succeed, deliver exactly these
  elements in order and leave the ring empty.
\<close>

theorem ring_flush_drains:
  assumes "rb_inv rb"
  shows "\<exists>rb'. chan_run write_ringbuffer read_ringbuffer flush_ringbuffer b
      (Flush # replicate (length (rb_contents rb)) Recv) (rb, acc, del) =
      (rb', acc, del @ rb_contents rb) \<and> rb_inv rb' \<and> rb_contents rb' = []"
  using assms by (rule ring.flush_drains)

theorem ring_flush_drains_witness:
  "\<exists>rb'. chan_run write_ringbuffer read_ringbuffer flush_ringbuffer (0 :: nat) [Flush]
      (create_ringbuffer 0, [], []) = (rb', [], []) \<and> rb_contents rb' = []"
  using ring_flush_drains [OF rb_inv_create, of 0 0 "[]" "[]"] by auto

lemma write_ringbuffer_block_same: "write_ringbuffer_block = write_ringbuffer"
  by (intro ext) (simp add: write_ringbuffer_def write_ringbuffer_block_def)

text \<open>\<open>ringbuffer_size\<close> is a number between 0 and 1999 and never less than the number of elements
  in the ring; it is exact when the writer's copy of the read index is up to date.
\<close>

theorem ringbuffer_size_bounds:
  assumes "rb_inv rb"
  shows "int (length (rb_contents rb)) \<le> ringbuffer_size rb \<and> ringbuffer_size rb \<le> 1999 \<and>
    (localReadIndex rb = nextReadIndex rb \<longrightarrow> ringbuffer_size rb = int (length (rb_contents rb)))"
proof -
  from assms obtain lR pR R lW pW W where rep: "rb_rep rb lR pR R lW pW W"
    unfolding rb_inv_def by blast
  from rb_rep_order [OF rep] have o: "lR \<le> R" "R \<le> W" "W < lR + 2000"
    unfolding rb_order_def by linarith+
  have i: "nextWriteIndex rb = W mod 2000" "localReadIndex rb = lR mod 2000"
    "nextReadIndex rb = R mod 2000" using rep unfolding rb_rep_def by blast+
  have "ringbuffer_size rb = (W mod 2000 - lR mod 2000) mod 2000"
  proof (cases "W mod 2000 < lR mod 2000")
    case True
    then have "(W mod 2000 - lR mod 2000) mod 2000 = W mod 2000 - lR mod 2000 + 2000"
      by (intro int_mod_pos_eq [where q = "- 1"]) auto
    with True show ?thesis by (simp add: ringbuffer_size_def RB_SIZE_def i)
  qed (simp add: ringbuffer_size_def RB_SIZE_def i)
  then have "ringbuffer_size rb = W - lR" using o mod_diff_near [of lR W] by simp
  moreover have "localReadIndex rb = nextReadIndex rb \<longleftrightarrow> lR = R"
    using o by (simp only: i) (rule mod_eq_near; linarith)
  ultimately show ?thesis using o by (simp add: rb_contents_rep [OF rep])
qed

theorem ringbuffer_size_bounds_witness:
  "int (length (rb_contents (create_ringbuffer (0 :: nat)))) \<le> ringbuffer_size (create_ringbuffer (0 :: nat))"
  using ringbuffer_size_bounds [OF rb_inv_create, of "0 :: nat"] by blast

end
