(* ===== verification/Pipeline.thy ===== *)
theory Pipeline
  imports Ring_Buffer
begin

text \<open>
  The two threads of the data-plane programs. The main thread performs a list of actions (write a
  record, flush the ring, wait on the semaphore of the worker); the worker reads records and
  handles them one after the other, posting the semaphore as it goes. A busy-wait loop such as
  \<open>while (write_ringbuffer(..) < 0) {}\<close> is a step that is enabled when the call succeeds: a call
  that fails changes nothing. The relation interleaves the two threads in every possible way.

  The locale \<open>pipeline\<close> extends the channel contract with a handler. Its lemmas say that the worker
  computes what it would compute on the sequence of written records, whatever the interleaving,
  and that a run can neither block nor go on forever when the actions feed the worker properly.
\<close>

section \<open>State and steps\<close>

datatype 'a pact = PWrite 'a | PFlush | PWait

text \<open>What handling a record does: go on after some posts, leave the loop, or end the process.\<close>

datatype 'w outcome = Go 'w nat | Stop 'w | Crash c_error

datatype 'w wstat = Running 'w | Finished 'w | Failed c_error

record ('s, 'a, 'w) sys =
  todo :: "'a pact list"
  chan :: 's
  rbuf :: 'a
  sem :: nat
  wk :: "'w wstat"

fun alive :: "'w wstat \<Rightarrow> bool" where
  "alive (Failed e) = False"
| "alive _ = True"

fun apply_outcome :: "'w outcome \<Rightarrow> ('s, 'a, 'w) sys \<Rightarrow> ('s, 'a, 'w) sys" where
  "apply_outcome (Go w n) s = s\<lparr>wk := Running w, sem := sem s + n\<rparr>"
| "apply_outcome (Stop w) s = s\<lparr>wk := Finished w\<rparr>"
| "apply_outcome (Crash e) s = s\<lparr>wk := Failed e\<rparr>"

inductive sys_step :: "('s \<Rightarrow> 'a \<Rightarrow> int \<times> 's) \<Rightarrow> ('s \<Rightarrow> 'a \<Rightarrow> int \<times> 'a \<times> 's) \<Rightarrow> ('s \<Rightarrow> 's) \<Rightarrow>
    ('w \<Rightarrow> 'a \<Rightarrow> 'w outcome) \<Rightarrow> ('s, 'a, 'w) sys \<Rightarrow> ('s, 'a, 'w) sys \<Rightarrow> bool"
  for send recv flush handle where
  step_write: "alive (wk s) \<Longrightarrow> todo s = PWrite x # as \<Longrightarrow> send (chan s) x = (0, c) \<Longrightarrow>
    sys_step send recv flush handle s (s\<lparr>todo := as, chan := c\<rparr>)"
| step_flush: "alive (wk s) \<Longrightarrow> todo s = PFlush # as \<Longrightarrow>
    sys_step send recv flush handle s (s\<lparr>todo := as, chan := flush (chan s)\<rparr>)"
| step_wait: "alive (wk s) \<Longrightarrow> todo s = PWait # as \<Longrightarrow> sem s = Suc n \<Longrightarrow>
    sys_step send recv flush handle s (s\<lparr>todo := as, sem := n\<rparr>)"
| step_read: "wk s = Running w \<Longrightarrow> recv (chan s) (rbuf s) = (0, y, c) \<Longrightarrow>
    sys_step send recv flush handle s (apply_outcome (handle w y) (s\<lparr>chan := c, rbuf := y\<rparr>))"

inductive_cases sys_stepE: "sys_step send recv flush handle s t"

text \<open>The records written by a list of actions, and the number of waits in it.\<close>

fun writes :: "'a pact list \<Rightarrow> 'a list" where
  "writes [] = []"
| "writes (PWrite x # as) = x # writes as"
| "writes (a # as) = writes as"

fun waits :: "'a pact list \<Rightarrow> nat" where
  "waits [] = 0"
| "waits (PWait # as) = Suc (waits as)"
| "waits (a # as) = waits as"

lemma writes_append [simp]: "writes (as @ bs) = writes as @ writes bs"
  by (induction as rule: writes.induct) auto

lemma waits_append [simp]: "waits (as @ bs) = waits as + waits bs"
  by (induction as rule: waits.induct) auto

text \<open>The worker on a sequence of records, one after the other, and the number of its posts.\<close>

fun run_worker :: "('w \<Rightarrow> 'a \<Rightarrow> 'w outcome) \<Rightarrow> 'w wstat \<Rightarrow> 'a list \<Rightarrow> 'w wstat \<times> nat" where
  "run_worker handle (Running w) (x # xs) =
     (case handle w x of
        Go w' n \<Rightarrow> (let (r, m) = run_worker handle (Running w') xs in (r, n + m))
      | Stop w' \<Rightarrow> (Finished w', 0)
      | Crash e \<Rightarrow> (Failed e, 0))"
| "run_worker handle r xs = (r, 0)"

lemma run_worker_done:
  "run_worker handle (Finished w) xs = (Finished w, 0)" "run_worker handle (Failed e) xs = (Failed e, 0)"
  by (cases xs; simp)+

lemma run_worker_append:
  "run_worker handle r (xs @ ys) =
    (let (r1, n) = run_worker handle r xs; (r2, m) = run_worker handle r1 ys in (r2, n + m))"
  by (induction handle r xs rule: run_worker.induct)
    (auto simp: run_worker_done Let_def split: outcome.splits prod.splits)

lemma run_worker_settled:
  assumes "run_worker handle r xs = (r1, n)" "r1 = Finished w \<or> r1 = Failed e"
  shows "run_worker handle r (xs @ ys) = (r1, n)"
  using assms by (auto simp: run_worker_append run_worker_done)

text \<open>
  Actions that feed the worker: every wait comes right after a flush, and the records written
  before it make the worker post often enough (or end the process); the records stop the worker,
  but no proper prefix of them does; and the last action is a flush.
\<close>

definition fed_waits :: "('w \<Rightarrow> 'a \<Rightarrow> 'w outcome) \<Rightarrow> 'w wstat \<Rightarrow> 'a pact list \<Rightarrow> bool" where
  "fed_waits handle r as \<longleftrightarrow>
     (\<forall>a b. as = a @ PWait # b \<longrightarrow> (\<exists>a'. a = a' @ [PFlush]) \<and>
        (\<not> alive (fst (run_worker handle r (writes a))) \<or> waits a < snd (run_worker handle r (writes a))))"

definition runs_on :: "('w \<Rightarrow> 'a \<Rightarrow> 'w outcome) \<Rightarrow> 'w wstat \<Rightarrow> 'a list \<Rightarrow> bool" where
  "runs_on handle r ys \<longleftrightarrow> (\<forall>xs x zs. ys = xs @ x # zs \<longrightarrow> (\<forall>w. fst (run_worker handle r xs) \<noteq> Finished w))"

definition feeds :: "('w \<Rightarrow> 'a \<Rightarrow> 'w outcome) \<Rightarrow> 'w wstat \<Rightarrow> 'a pact list \<Rightarrow> bool" where
  "feeds handle r as \<longleftrightarrow> fed_waits handle r as \<and> (\<exists>a'. as = a' @ [PFlush]) \<and>
     (\<forall>w. fst (run_worker handle r (writes as)) \<noteq> Running w) \<and> runs_on handle r (writes as)"

lemma fed_waits_prefix: "fed_waits handle r (as @ bs) \<Longrightarrow> fed_waits handle r as"
  unfolding fed_waits_def by auto

lemma runs_on_prefix: "runs_on handle r (xs @ ys) \<Longrightarrow> runs_on handle r xs"
  unfolding runs_on_def by auto

definition init_sys :: "'s \<Rightarrow> 'a \<Rightarrow> 'w \<Rightarrow> 'a pact list \<Rightarrow> ('s, 'a, 'w) sys" where
  "init_sys c b w as = \<lparr>todo = as, chan = c, rbuf = b, sem = 0, wk = Running w\<rparr>"

definition at_end :: "('s, 'a, 'w) sys \<Rightarrow> bool" where
  "at_end s \<longleftrightarrow> (\<exists>e. wk s = Failed e) \<or> todo s = [] \<and> (\<exists>w. wk s = Finished w)"

section \<open>The contract\<close>

locale pipeline = fifo_channel inv contents visible send recv flush
  for inv :: "'s \<Rightarrow> bool" and contents :: "'s \<Rightarrow> 'a list" and visible :: "'s \<Rightarrow> nat"
    and send :: "'s \<Rightarrow> 'a \<Rightarrow> int \<times> 's" and recv :: "'s \<Rightarrow> 'a \<Rightarrow> int \<times> 'a \<times> 's" and flush :: "'s \<Rightarrow> 's" +
  fixes handle :: "'w \<Rightarrow> 'a \<Rightarrow> 'w outcome"
begin

text \<open>
  The invariant: the actions done and still to do make up the program; the records written are
  those delivered and those in the channel; the worker is where the delivered records put it;
  the semaphore counts its posts less the waits done.
\<close>

definition sim :: "'a pact list \<Rightarrow> 'w \<Rightarrow> 'a pact list \<Rightarrow> 'a list \<Rightarrow> ('s, 'a, 'w) sys \<Rightarrow> bool" where
  "sim as w0 dn del s \<longleftrightarrow> inv (chan s) \<and> as = dn @ todo s \<and> writes dn = del @ contents (chan s) \<and>
     run_worker handle (Running w0) del = (wk s, sem s + waits dn)"

lemma sim_init: "inv c \<Longrightarrow> contents c = [] \<Longrightarrow> sim as w [] [] (init_sys c b w as)"
  by (simp add: sim_def init_sys_def)

text \<open>A step keeps it, and only moves records forward.\<close>

lemma sim_step:
  assumes "sim as w0 dn del s" "sys_step send recv flush handle s t"
  shows "(\<exists>a. dn @ [a] @ todo t = as \<and> sim as w0 (dn @ [a]) del t \<and>
      (a = PFlush \<and> visible (chan t) = length (contents (chan t)) \<or> a = PWait \<and> chan t = chan s \<or> (\<exists>x. a = PWrite x)) \<and>
      2 * length (todo t) + length (contents (chan t)) < 2 * length (todo s) + length (contents (chan s))) \<or>
    (\<exists>y. sim as w0 dn (del @ [y]) t \<and> contents (chan s) = y # contents (chan t) \<and>
      visible (chan s) = Suc (visible (chan t)) \<and> todo t = todo s)"
  using assms(2)
proof cases
  case (step_write x as' c)
  then show ?thesis using assms(1) send_ok [of "chan s" x c] by (auto simp: sim_def)
next
  case (step_flush as')
  then show ?thesis using assms(1) flush_ok [of "chan s"] by (auto simp: sim_def)
next
  case (step_wait as' n)
  then show ?thesis using assms(1) by (auto simp: sim_def)
next
  case (step_read w y c)
  have i: "inv (chan s)" and r: "run_worker handle (Running w0) del = (Running w, sem s + waits dn)"
    using assms(1) step_read(2) by (auto simp: sim_def)
  have c: "inv c" "contents (chan s) = y # contents c" "visible (chan s) = Suc (visible c)"
    using recv_ok [OF i step_read(3)] by auto
  have "run_worker handle (Running w0) (del @ [y]) = (wk t, sem t + waits dn)"
    using step_read(1,2) by (cases "handle w y") (simp_all add: run_worker_append r)
  moreover have "chan t = c" "todo t = todo s" using step_read(1) by (cases "handle w y"; simp)+
  ultimately show ?thesis using assms(1) c by (auto simp: sim_def)
qed

lemma sim_steps:
  assumes "(sys_step send recv flush handle ^^ n) (init_sys c b w0 as) s" "inv c" "contents c = []"
  shows "\<exists>dn del. sim as w0 dn del s \<and> n + 2 * length (todo s) + length (contents (chan s)) \<le> 2 * length as"
  using assms(1)
proof (induction n arbitrary: s)
  case 0
  then have "s = init_sys c b w0 as" by simp
  then show ?case using sim_init [OF assms(2,3)] assms(3) by (fastforce simp: init_sys_def)
next
  case (Suc n)
  then obtain u where u: "(sys_step send recv flush handle ^^ n) (init_sys c b w0 as) u"
    "sys_step send recv flush handle u s" by auto
  from Suc.IH [OF u(1)] obtain dn del where s: "sim as w0 dn del u"
    "n + 2 * length (todo u) + length (contents (chan u)) \<le> 2 * length as" by blast
  from sim_step [OF s(1) u(2)] s(2) show ?case by fastforce
qed

text \<open>The worker's final state does not depend on the interleaving.\<close>

lemma worker_result:
  assumes "(sys_step send recv flush handle)\<^sup>*\<^sup>* (init_sys c b w0 as) s" "inv c" "contents c = []"
    and "wk s = Finished w \<or> wk s = Failed e"
  shows "fst (run_worker handle (Running w0) (writes as)) = wk s"
proof -
  obtain n where "(sys_step send recv flush handle ^^ n) (init_sys c b w0 as) s"
    using assms(1) by (metis rtranclp_imp_relpowp)
  from sim_steps [OF this assms(2,3)] obtain dn del where d: "sim as w0 dn del s" by blast
  then have "writes as = del @ (contents (chan s) @ writes (todo s))" by (auto simp: sim_def)
  moreover have "run_worker handle (Running w0) del = (wk s, sem s + waits dn)" using d by (simp add: sim_def)
  ultimately show ?thesis using run_worker_settled [OF _ assms(4)] by (metis fst_conv)
qed

text \<open>
  While the actions done end with a flush (or the wait after it), everything in the channel is
  visible to the worker.
\<close>

definition all_seen :: "'a pact list \<Rightarrow> ('s, 'a, 'w) sys \<Rightarrow> bool" where
  "all_seen dn s \<longleftrightarrow> ((\<exists>d. dn = d @ [PFlush] \<or> dn = d @ [PWait]) \<longrightarrow> visible (chan s) = length (contents (chan s)))"

lemma seen_steps:
  assumes "(sys_step send recv flush handle ^^ n) (init_sys c b w0 as) s" "inv c" "contents c = []"
    and f: "fed_waits handle (Running w0) as"
  shows "\<exists>dn del. sim as w0 dn del s \<and> all_seen dn s"
  using assms(1)
proof (induction n arbitrary: s)
  case 0
  then have "s = init_sys c b w0 as" by simp
  then show ?case using sim_init [OF assms(2,3)] by (fastforce simp: all_seen_def)
next
  case (Suc n)
  then obtain u where u: "(sys_step send recv flush handle ^^ n) (init_sys c b w0 as) u"
    "sys_step send recv flush handle u s" by auto
  from Suc.IH [OF u(1)] obtain dn del where d: "sim as w0 dn del u" "all_seen dn u" by blast
  from sim_step [OF d(1) u(2)] show ?case
  proof (elim disjE exE conjE)
    fix a assume a: "dn @ [a] @ todo s = as" "sim as w0 (dn @ [a]) del s" "a = PWait" "chan s = chan u"
    then obtain d' where "dn = d' @ [PFlush]" using f by (fastforce simp: fed_waits_def)
    then show ?thesis using a d(2) by (auto simp: all_seen_def)
  next
    fix y assume "sim as w0 dn (del @ [y]) s" "contents (chan u) = y # contents (chan s)"
      "visible (chan u) = Suc (visible (chan s))"
    then show ?thesis using d(2) by (auto simp: all_seen_def)
  qed (auto simp: all_seen_def)
qed

lemma can_read:
  assumes "inv (chan s)" "0 < visible (chan s)" "wk s = Running w"
  shows "\<exists>t. sys_step send recv flush handle s t"
proof -
  obtain r y c where r: "recv (chan s) (rbuf s) = (r, y, c)" using prod_cases3 by blast
  then have "r = 0" using recv_status [OF assms(1) r] assms(2) by auto
  then show ?thesis using step_read [OF assms(3)] r by blast
qed

lemma read_next:
  assumes f: "runs_on handle (Running w0) (writes as)" and d: "sim as w0 dn del s" and al: "alive (wk s)"
    and v: "0 < visible (chan s)"
  shows "\<exists>t. sys_step send recv flush handle s t"
proof -
  have i: "inv (chan s)" and wr: "writes as = del @ contents (chan s) @ writes (todo s)"
    and run: "run_worker handle (Running w0) del = (wk s, sem s + waits dn)"
    using d by (auto simp: sim_def)
  have "contents (chan s) \<noteq> []" using visible_le [OF i] v by auto
  then obtain x ys where "writes as = del @ x # ys" using wr by (cases "contents (chan s)") auto
  then have "fst (run_worker handle (Running w0) del) \<noteq> Finished w" for w
    using f unfolding runs_on_def by blast
  then obtain w where "wk s = Running w" using run al by (cases "wk s") auto
  then show ?thesis using can_read [OF i v] by blast
qed

text \<open>After a flush, either the worker can read or everything written has been delivered.\<close>

lemma read_flushed:
  assumes "runs_on handle (Running w0) (writes as)" "sim as w0 dn del s" "alive (wk s)"
    and "all_seen dn s" "dn = a @ [PFlush]"
  shows "(\<exists>t. sys_step send recv flush handle s t) \<or>
    run_worker handle (Running w0) (writes dn) = (wk s, sem s + waits dn)"
proof (cases "contents (chan s) = []")
  case True
  then show ?thesis using assms(2) by (simp add: sim_def)
next
  case False
  then have "0 < visible (chan s)" using assms(4,5) by (auto simp: all_seen_def)
  then show ?thesis using read_next [OF assms(1-3)] by blast
qed

lemma next_step:
  assumes f: "fed_waits handle (Running w0) as" and ro: "runs_on handle (Running w0) (writes as)"
    and d: "sim as w0 dn del s" "all_seen dn s" and al: "alive (wk s)" and todo: "todo s \<noteq> []"
  shows "\<exists>t. sys_step send recv flush handle s t"
proof -
  have i: "inv (chan s)" and as: "as = dn @ todo s" using d(1) by (auto simp: sim_def)
  consider x ts where "todo s = PWrite x # ts" | ts where "todo s = PFlush # ts" | ts where "todo s = PWait # ts"
    using todo by (cases "todo s"; cases "hd (todo s)") auto
  then show ?thesis
  proof cases
    case (1 x)
    obtain r c where r: "send (chan s) x = (r, c)" by fastforce
    show ?thesis
    proof (cases "r = 0")
      case False
      then have "send (chan s) x = (- 1, c)" using send_status [OF i r] r by simp
      from no_deadlock [OF i this] show ?thesis by (rule read_next [OF ro d(1) al])
    qed (use step_write [OF al] 1 r in blast)
  next
    case 2
    then show ?thesis using step_flush [OF al] by blast
  next
    case (3 ts)
    then have "as = dn @ PWait # ts" using as by simp
    with f obtain a where a: "dn = a @ [PFlush]"
      and p: "\<not> alive (fst (run_worker handle (Running w0) (writes dn))) \<or>
        waits dn < snd (run_worker handle (Running w0) (writes dn))"
      unfolding fed_waits_def by blast
    have "\<exists>n. sem s = Suc n" if "run_worker handle (Running w0) (writes dn) = (wk s, sem s + waits dn)"
      using p that al by (cases "sem s") simp_all
    then show ?thesis using read_flushed [OF ro d(1) al d(2) a] step_wait [OF al 3] by blast
  qed
qed

lemma no_block:
  assumes f: "feeds handle (Running w0) as" and d: "sim as w0 dn del s" "all_seen dn s" and "\<not> at_end s"
  shows "\<exists>t. sys_step send recv flush handle s t"
proof -
  have fs: "fed_waits handle (Running w0) as" "runs_on handle (Running w0) (writes as)"
    using f by (auto simp: feeds_def)
  have as: "as = dn @ todo s" using d(1) by (auto simp: sim_def)
  have al: "alive (wk s)" using assms(4) by (cases "wk s") (auto simp: at_end_def)
  show ?thesis
  proof (cases "todo s = []")
    case True
    then obtain a where a: "dn = a @ [PFlush]" using f as by (auto simp: feeds_def)
    have "wk s \<noteq> Running w" if "run_worker handle (Running w0) (writes as) = (wk s, n)" for w n
      using f that by (auto simp: feeds_def)
    then show ?thesis using read_flushed [OF fs(2) d(1) al d(2) a] as True assms(4) al
      by (cases "wk s") (auto simp: at_end_def)
  qed (rule next_step [OF fs d al])
qed

text \<open>Total correctness: a run has at most \<open>2 * length as\<close> steps, and one that cannot go on is at its end.\<close>

lemma completes:
  assumes "(sys_step send recv flush handle ^^ n) (init_sys c b w0 as) s" "inv c" "contents c = []"
    and "feeds handle (Running w0) as"
  shows "n \<le> 2 * length as \<and> (at_end s \<or> (\<exists>t. sys_step send recv flush handle s t))"
proof -
  have "fed_waits handle (Running w0) as" using assms(4) by (simp add: feeds_def)
  from seen_steps [OF assms(1-3) this] no_block [OF assms(4)] sim_steps [OF assms(1-3)] show ?thesis by fastforce
qed

end

end
