(* ===== verification/Text.thy ===== *)
theory Text
  imports Prelude
begin

text \<open>
  The parts of \<^verbatim>\<open>stdio.h\<close> the program keeps its files with: \<open>fprintf\<close> and \<open>sscanf\<close> for the
  directives \<open>%u\<close>, \<open>%d\<close> (with any \<open>l\<close> or \<open>h\<close> modifiers) and \<open>%s\<close>, and \<open>fgets\<close>. A file is the
  list of its characters. The main result is the round trip \<open>sscanf_printf\<close>: a line printed with
  a format whose numbers are separated by other characters is read back by the same format.
\<close>

section \<open>Formats\<close>

text \<open>A format is literal characters, unsigned and signed decimal numbers, and strings.\<close>

datatype fitem = Ch char | UNum | DNum | St

lemma length_dropWhile_less [termination_simp]: "length (dropWhile P cs) < Suc (length cs)"
  by (simp add: length_dropWhile_le le_imp_less_Suc)

fun parse_fmt :: "string \<Rightarrow> fitem list" where
  "parse_fmt [] = []"
| "parse_fmt (c # cs) =
     (if c = CHR ''%'' then
        (case dropWhile (\<lambda>x. x \<in> {CHR ''l'', CHR ''h''}) cs of
           [] \<Rightarrow> []
         | d # ds \<Rightarrow>
             (if d = CHR ''u'' then UNum else if d = CHR ''d'' then DNum else St) #
             (if length ds < length cs then parse_fmt ds else []))
      else Ch c # parse_fmt cs)"

text \<open>Whitespace in the sense of \<open>isspace\<close>, digits, and decimal numerals.\<close>

definition is_space :: "char \<Rightarrow> bool" where
  "is_space c \<longleftrightarrow> (of_char c :: nat) \<in> {9, 10, 11, 12, 13, 32}"

definition is_digit :: "char \<Rightarrow> bool" where
  "is_digit c \<longleftrightarrow> 48 \<le> (of_char c :: nat) \<and> (of_char c :: nat) \<le> 57"

definition digit_char :: "nat \<Rightarrow> char" where
  "digit_char d = char_of (48 + d)"

fun show_nat :: "nat \<Rightarrow> string" where
  "show_nat n = (if n < 10 then [digit_char n] else show_nat (n div 10) @ [digit_char (n mod 10)])"

declare show_nat.simps [simp del]

definition show_int :: "int \<Rightarrow> string" where
  "show_int k = (if k < 0 then CHR ''-'' # show_nat (nat (- k)) else show_nat (nat k))"

definition read_nat :: "string \<Rightarrow> nat" where
  "read_nat ds = foldl (\<lambda>n c. 10 * n + (of_char c - 48)) 0 ds"

section \<open>Printing and scanning\<close>

datatype farg = IntArg int | StrArg string

fun printf :: "fitem list \<Rightarrow> farg list \<Rightarrow> string" where
  "printf [] args = []"
| "printf (Ch c # is) args = c # printf is args"
| "printf (i # is) (IntArg k # args) = show_int k @ printf is args"
| "printf (i # is) (StrArg s # args) = s @ printf is args"
| "printf (i # is) [] = []"

text \<open>
  One number of \<open>sscanf\<close>: skip blanks, an optional sign, then the longest run of digits; no
  digit is a matching failure. \<open>%u\<close> converts with \<open>strtoul\<close> and \<open>%d\<close> with \<open>strtol\<close>, which
  saturate at the limits of 64 bits.
\<close>

definition scan_number :: "string \<Rightarrow> (int \<times> string) option" where
  "scan_number s =
     (let s1 = dropWhile is_space s;
          signed = (case s1 of [] \<Rightarrow> False | c # _ \<Rightarrow> c = CHR ''-'' \<or> c = CHR ''+'');
          s2 = (if signed then tl s1 else s1);
          ds = takeWhile is_digit s2
      in if ds = [] then None
         else Some (if signed \<and> hd s1 = CHR ''-'' then - int (read_nat ds) else int (read_nat ds),
                    dropWhile is_digit s2))"

definition sat_u64 :: "int \<Rightarrow> int" where
  "sat_u64 k = (if \<bar>k\<bar> < 2 ^ 64 then k mod 2 ^ 64 else 2 ^ 64 - 1)"

definition sat_i64 :: "int \<Rightarrow> int" where
  "sat_i64 k = max (- (2 ^ 63)) (min (2 ^ 63 - 1) k)"

text \<open>The numbers assigned, in order; the scan stops at the first failure.\<close>

fun sscanf :: "fitem list \<Rightarrow> string \<Rightarrow> int list" where
  "sscanf [] s = []"
| "sscanf (Ch c # is) s =
     (if is_space c then sscanf is (dropWhile is_space s)
      else case s of [] \<Rightarrow> [] | d # ds \<Rightarrow> if d = c then sscanf is ds else [])"
| "sscanf (UNum # is) s =
     (case scan_number s of None \<Rightarrow> [] | Some (k, r) \<Rightarrow> sat_u64 k # sscanf is r)"
| "sscanf (DNum # is) s =
     (case scan_number s of None \<Rightarrow> [] | Some (k, r) \<Rightarrow> sat_i64 k # sscanf is r)"
| "sscanf (St # is) s = []"

text \<open>A variable keeps its value when the scan did not reach its directive.\<close>

definition scanned :: "int list \<Rightarrow> nat \<Rightarrow> 'a::len word \<Rightarrow> 'a word" where
  "scanned vs i old = (if i < length vs then word_of_int (vs ! i) else old)"

text \<open>\<open>atoi\<close> and \<open>atoll\<close>: no digits give 0; a number out of range is undefined.\<close>

definition atoi :: "string \<Rightarrow> i32 res" where
  "atoi s =
     (case scan_number s of
        None \<Rightarrow> Inr 0
      | Some (k, r) \<Rightarrow> if - (2 ^ 31) \<le> k \<and> k < 2 ^ 31 then Inr (word_of_int k) else Inl OutOfBounds)"

definition atoll :: "string \<Rightarrow> u64 res" where
  "atoll s =
     (case scan_number s of
        None \<Rightarrow> Inr 0
      | Some (k, r) \<Rightarrow> if - (2 ^ 63) \<le> k \<and> k < 2 ^ 63 then Inr (word_of_int k) else Inl OutOfBounds)"

text \<open>\<open>strtok\<close> with one delimiter: the next token and what the following call goes on with.\<close>

definition strtok :: "char \<Rightarrow> string \<Rightarrow> (string \<times> string) option" where
  "strtok d s =
     (let s1 = dropWhile (\<lambda>c. c = d) s
      in if s1 = [] then None
         else Some (takeWhile (\<lambda>c. c \<noteq> d) s1, tl (dropWhile (\<lambda>c. c \<noteq> d) s1)))"

text \<open>The \<open>n\<close>-th token of a string, as a sequence of calls finds it.\<close>

fun nth_token :: "char \<Rightarrow> nat \<Rightarrow> string \<Rightarrow> string option" where
  "nth_token d n s =
     (case strtok d s of
        None \<Rightarrow> None
      | Some (t, r) \<Rightarrow> (case n of 0 \<Rightarrow> Some t | Suc m \<Rightarrow> nth_token d m r))"

declare nth_token.simps [simp del]

text \<open>\<open>strstr\<close>: the string from the first occurrence on.\<close>

fun strstr :: "string \<Rightarrow> string \<Rightarrow> string option" where
  "strstr [] pat = (if pat = [] then Some [] else None)"
| "strstr (c # s) pat = (if take (length pat) (c # s) = pat then Some (c # s) else strstr s pat)"

section \<open>Lines\<close>

text \<open>\<open>fgets(buf, n, f)\<close>: at most \<open>n - 1\<close> characters, up to and including a newline.\<close>

fun fgets_take :: "nat \<Rightarrow> string \<Rightarrow> string \<times> string" where
  "fgets_take 0 s = ([], s)"
| "fgets_take (Suc n) [] = ([], [])"
| "fgets_take (Suc n) (c # s) =
     (if c = CHR 0x0A then ([c], s)
      else (let (l, r) = fgets_take n s in (c # l, r)))"

definition fgets :: "nat \<Rightarrow> string \<Rightarrow> (string \<times> string) option" where
  "fgets n s = (if s = [] then None else Some (fgets_take (n - 1) s))"

lemma fgets_take_append: "fst (fgets_take n s) @ snd (fgets_take n s) = s"
  by (induction n s rule: fgets_take.induct) (auto split: prod.split simp: Let_def)

lemma fgets_take_shorter: "0 < n \<Longrightarrow> s \<noteq> [] \<Longrightarrow> length (snd (fgets_take n s)) < length s"
  using fgets_take_append [of n s]
  by (cases n; cases s) (auto split: prod.splits if_splits dest!: arg_cong [where f = length])

text \<open>The loop \<open>while (fgets(tmp, 100, f) != NULL)\<close> sees these lines.\<close>

function lines_100 :: "string \<Rightarrow> string list" where
  "lines_100 s = (case fgets 100 s of None \<Rightarrow> [] | Some (l, r) \<Rightarrow> l # lines_100 r)"
  by auto
termination
proof (relation "measure length")
  fix s :: string and p l r
  assume "fgets 100 s = Some p" "(l, r) = p"
  then have "s \<noteq> []" "r = snd (fgets_take 99 s)"
    by (auto simp: fgets_def split: if_splits)
  then show "(r, s) \<in> measure length"
    using fgets_take_shorter [of 99 s] by simp
qed simp

declare lines_100.simps [simp del]

lemma lines_100_Nil [simp]: "lines_100 [] = []"
  by (simp add: lines_100.simps [of "[]"] fgets_def)

lemma fgets_take_line:
  "CHR 0x0A \<notin> set l \<Longrightarrow> length l < n \<Longrightarrow> fgets_take n (l @ CHR 0x0A # s) = (l @ [CHR 0x0A], s)"
proof (induction l arbitrary: n)
  case Nil
  then show ?case by (cases n) auto
next
  case (Cons c l)
  then show ?case by (cases n) auto
qed

lemma lines_100_line:
  assumes "CHR 0x0A \<notin> set l" "length l < 99"
  shows "lines_100 (l @ CHR 0x0A # s) = (l @ [CHR 0x0A]) # lines_100 s"
  using assms by (simp add: lines_100.simps [of "l @ CHR 0x0A # s"] fgets_def fgets_take_line)

lemma lines_100_concat:
  assumes "\<And>l. l \<in> set ls \<Longrightarrow> CHR 0x0A \<notin> set l \<and> length l < 99"
  shows "lines_100 (concat (map (\<lambda>l. l @ [CHR 0x0A]) ls) @ s) =
    map (\<lambda>l. l @ [CHR 0x0A]) ls @ lines_100 s"
  using assms
proof (induction ls)
  case (Cons l ls)
  then show ?case using lines_100_line [of l "concat (map (\<lambda>l. l @ [CHR 0x0A]) ls) @ s"] by simp
qed simp

section \<open>Numerals read back\<close>

lemma digit_char_digit:
  assumes "d < 10"
  shows "is_digit (digit_char d)" "of_char (digit_char d) = 48 + d"
  using assms by (simp_all add: is_digit_def digit_char_def of_char_of)

lemma digit_not_space: "is_digit c \<Longrightarrow> \<not> is_space c"
  by (auto simp: is_digit_def is_space_def)

lemma digit_not_sign: "is_digit c \<Longrightarrow> c \<noteq> CHR ''-'' \<and> c \<noteq> CHR ''+''"
  by (auto simp: is_digit_def)

lemma show_nat_digits: "\<forall>c\<in>set (show_nat n). is_digit c"
proof (induction n rule: show_nat.induct)
  case (1 n)
  then show ?case by (cases "n < 10") (auto simp: show_nat.simps [of n] digit_char_digit)
qed

lemma show_nat_nonempty [simp]: "show_nat n \<noteq> []"
  by (simp add: show_nat.simps [of n])

lemma read_nat_snoc: "read_nat (ds @ [c]) = 10 * read_nat ds + (of_char c - 48)"
  by (simp add: read_nat_def)

lemma read_nat_show_nat [simp]: "read_nat (show_nat n) = n"
proof (induction n rule: show_nat.induct)
  case (1 n)
  show ?case
  proof (cases "n < 10")
    case True
    then show ?thesis by (simp add: show_nat.simps [of n] read_nat_def digit_char_digit)
  next
    case False
    then show ?thesis using 1
      by (simp add: show_nat.simps [of n] read_nat_snoc digit_char_digit)
  qed
qed

lemma length_show_nat: "n < 10 ^ k \<Longrightarrow> 0 < k \<Longrightarrow> length (show_nat n) \<le> k"
proof (induction k arbitrary: n)
  case (Suc k)
  show ?case
  proof (cases "n < 10")
    case True
    then show ?thesis by (simp add: show_nat.simps [of n])
  next
    case False
    with Suc.prems have "n div 10 < 10 ^ k" "0 < k"
      by (auto simp: less_mult_imp_div_less mult.commute intro!: Nat.gr0I)
    with Suc.IH False show ?thesis by (simp add: show_nat.simps [of n])
  qed
qed simp

definition ends_number :: "string \<Rightarrow> bool" where
  "ends_number s \<longleftrightarrow> s = [] \<or> \<not> is_digit (hd s)"

lemma takeWhile_digits:
  assumes "\<forall>c\<in>set ds. is_digit c" "ends_number r"
  shows "takeWhile is_digit (ds @ r) = ds \<and> dropWhile is_digit (ds @ r) = r"
  using assms by (cases r) (auto simp: ends_number_def takeWhile_append dropWhile_append)

lemma show_nat_Cons:
  obtains c ds where "show_nat n = c # ds" "is_digit c"
  using show_nat_digits [of n] show_nat_nonempty [of n] by (cases "show_nat n") auto

lemma scan_number_show_int:
  assumes "ends_number r"
  shows "scan_number (show_int k @ r) = Some (k, r)"
proof -
  obtain c ds where n: "show_nat (nat \<bar>k\<bar>) = c # ds" "is_digit c" by (rule show_nat_Cons)
  have tw: "takeWhile is_digit (show_nat (nat \<bar>k\<bar>) @ r) = show_nat (nat \<bar>k\<bar>)"
    "dropWhile is_digit (show_nat (nat \<bar>k\<bar>) @ r) = r"
    using takeWhile_digits [OF show_nat_digits assms] by auto
  show ?thesis
  proof (cases "k < 0")
    case True
    then have "show_int k = CHR ''-'' # show_nat (nat \<bar>k\<bar>)" by (simp add: show_int_def)
    moreover have "\<not> is_space (CHR ''-'')" by (simp add: is_space_def)
    ultimately show ?thesis using tw True by (simp add: scan_number_def Let_def)
  next
    case False
    then have "show_int k = show_nat (nat \<bar>k\<bar>)" by (simp add: show_int_def)
    moreover have "int (read_nat (c # ds)) = k"
      using n(1) False read_nat_show_nat [of "nat \<bar>k\<bar>"] by simp
    ultimately show ?thesis using tw n False digit_not_space [of c] digit_not_sign [of c]
      by (simp add: scan_number_def Let_def split: list.split)
  qed
qed

section \<open>The round trip\<close>

text \<open>
  \<open>separated is\<close>: no strings, every number is followed by a literal that is not a digit (or by
  the end), and a blank is followed by a number or by a literal that is no blank.
  \<open>fits is ks\<close>: one value per number, in the range of its directive.
\<close>

fun separated :: "fitem list \<Rightarrow> bool" where
  "separated [] \<longleftrightarrow> True"
| "separated (Ch c # is) \<longleftrightarrow>
     (is_space c \<longrightarrow> (case is of [] \<Rightarrow> False | Ch d # _ \<Rightarrow> \<not> is_space d | _ # _ \<Rightarrow> True)) \<and>
     separated is"
| "separated (St # is) \<longleftrightarrow> False"
| "separated (i # is) \<longleftrightarrow>
     (case is of [] \<Rightarrow> True | Ch d # _ \<Rightarrow> \<not> is_digit d | _ # _ \<Rightarrow> False) \<and> separated is"

fun fits :: "fitem list \<Rightarrow> int list \<Rightarrow> bool" where
  "fits [] ks \<longleftrightarrow> ks = []"
| "fits (Ch c # is) ks \<longleftrightarrow> fits is ks"
| "fits (UNum # is) (k # ks) \<longleftrightarrow> 0 \<le> k \<and> k < 2 ^ 64 \<and> fits is ks"
| "fits (DNum # is) (k # ks) \<longleftrightarrow> - (2 ^ 63) \<le> k \<and> k < 2 ^ 63 \<and> fits is ks"
| "fits is ks \<longleftrightarrow> False"

lemma show_int_hd: "\<exists>c ds. show_int k = c # ds \<and> \<not> is_space c"
proof -
  have "\<not> is_space (CHR ''-'')" by (simp add: is_space_def)
  moreover obtain c ds where "show_nat (nat k) = c # ds" "is_digit c" by (rule show_nat_Cons)
  ultimately show ?thesis by (auto simp: show_int_def digit_not_space)
qed

lemma printf_starts_nonspace:
  assumes "fits (i # is) ks" "\<And>c. i = Ch c \<Longrightarrow> \<not> is_space c"
  shows "dropWhile is_space (printf (i # is) (map IntArg ks) @ r) = printf (i # is) (map IntArg ks) @ r"
proof (cases i)
  case (Ch c)
  then show ?thesis using assms by simp
next
  case UNum
  then obtain k ks' where "ks = k # ks'" using assms by (cases ks) auto
  then show ?thesis using UNum show_int_hd [of k] by auto
next
  case DNum
  then obtain k ks' where "ks = k # ks'" using assms by (cases ks) auto
  then show ?thesis using DNum show_int_hd [of k] by auto
next
  case St
  then show ?thesis using assms by simp
qed

lemma printf_ends_number:
  assumes "case is of [] \<Rightarrow> ends_number r | Ch d # _ \<Rightarrow> \<not> is_digit d | _ # _ \<Rightarrow> False"
  shows "ends_number (printf is args @ r)"
  using assms by (cases "is") (auto simp: ends_number_def split: fitem.splits)

theorem sscanf_printf:
  assumes "separated is" "fits is ks" "ends_number r"
  shows "sscanf is (printf is (map IntArg ks) @ r) = ks"
  using assms
proof (induction "is" arbitrary: ks)
  case Nil
  then show ?case by simp
next
  case (Cons i "is")
  show ?case
  proof (cases i)
    case (Ch c)
    show ?thesis
    proof (cases "is_space c")
      case True
      with Ch Cons.prems obtain j js where j: "is = j # js" "\<And>d. j = Ch d \<Longrightarrow> \<not> is_space d"
        by (cases "is") (auto split: fitem.splits)
      have "dropWhile is_space (printf is (map IntArg ks) @ r) = printf is (map IntArg ks) @ r"
        using printf_starts_nonspace [of j js ks r] Cons.prems Ch j by simp
      then show ?thesis using Ch True Cons by simp
    next
      case False
      then show ?thesis using Ch Cons by simp
    qed
  next
    case UNum
    then obtain k ks' where k: "ks = k # ks'" "0 \<le> k" "k < 2 ^ 64" "fits is ks'"
      using Cons.prems by (cases ks) auto
    moreover have "ends_number (printf is (map IntArg ks') @ r)"
      using Cons.prems UNum by (intro printf_ends_number) (auto split: list.splits fitem.splits)
    ultimately show ?thesis using UNum Cons by (simp add: scan_number_show_int sat_u64_def)
  next
    case DNum
    then obtain k ks' where k: "ks = k # ks'" "- (2 ^ 63) \<le> k" "k < 2 ^ 63" "fits is ks'"
      using Cons.prems by (cases ks) auto
    moreover have "ends_number (printf is (map IntArg ks') @ r)"
      using Cons.prems DNum by (intro printf_ends_number) (auto split: list.splits fitem.splits)
    ultimately show ?thesis using DNum Cons by (simp add: scan_number_show_int sat_i64_def)
  next
    case St
    then show ?thesis using Cons.prems by simp
  qed
qed

end
