(* ===== verification/Binary64.thy ===== *)
theory Binary64
  imports Prelude "HOL-Library.Log_Nat"
begin

text \<open>
  The C type \<open>double\<close> as the compiler's target implements it: IEEE 754 binary64, rounding to
  nearest, ties to even. A finite number is a sign, a significand below \<open>2 ^ 53\<close> and an exponent;
  infinities, signed zeros and NaN (one, since no code here looks at its payload) are values.
  All operations compute on integers, so they evaluate; the real number a value stands for
  (\<open>dval\<close>) and the rounding function on the reals (\<open>rnd\<close>) are for the proofs.

  \<open>erf\<close> of the mathematics library has no exact result prescribed by the standard: it is a
  parameter of the functions that use it.
\<close>

datatype dbl = NaN | Inf bool | Fin bool nat int

section \<open>Rounding\<close>

text \<open>The quotient \<open>n / d\<close> rounded to the nearest natural number, ties to even.\<close>

definition rne_div :: "nat \<Rightarrow> nat \<Rightarrow> nat" where
  "rne_div n d =
     (let q = n div d; r = n mod d
      in if 2 * r < d then q else if d < 2 * r then Suc q else if even q then q else Suc q)"

text \<open>\<open>n / d\<close> in units of \<open>2 ^ e\<close>, rounded.\<close>

definition rne_at :: "nat \<Rightarrow> nat \<Rightarrow> int \<Rightarrow> nat" where
  "rne_at n d e =
     (if 0 \<le> e then rne_div n (d * 2 ^ nat e) else rne_div (n * 2 ^ nat (- e)) d)"

definition pow2_le :: "int \<Rightarrow> nat \<Rightarrow> nat \<Rightarrow> bool" where
  "pow2_le k n d = (if 0 \<le> k then d * 2 ^ nat k \<le> n else d \<le> n * 2 ^ nat (- k))"

definition log2_floor :: "nat \<Rightarrow> nat \<Rightarrow> int" where
  "log2_floor n d =
     (let k = bitlen (int n) - bitlen (int d) in if pow2_le k n d then k else k - 1)"

text \<open>
  \<open>normalise\<close> takes a rounded significand of at most \<open>2 ^ 53\<close>; a carry to \<open>2 ^ 53\<close> moves to the
  next binade and a value beyond the largest finite number becomes an infinity.
\<close>

definition normalise :: "bool \<Rightarrow> nat \<Rightarrow> int \<Rightarrow> dbl" where
  "normalise s m e =
     (if m = 0 then Fin s 0 0
      else let (m', e') = (if m = 2 ^ 53 then (2 ^ 52, e + 1) else (m, e))
           in if e' > 971 then Inf s else Fin s m' e')"

definition round_frac :: "bool \<Rightarrow> nat \<Rightarrow> nat \<Rightarrow> dbl" where
  "round_frac s n d =
     (if n = 0 then Fin s 0 0
      else let e = max (- 1074) (log2_floor n d - 52) in normalise s (rne_at n d e) e)"

text \<open>\<open>(-1) ^ s * n * 2 ^ e\<close> rounded.\<close>

definition round_scaled :: "bool \<Rightarrow> nat \<Rightarrow> int \<Rightarrow> dbl" where
  "round_scaled s n e =
     (if 0 \<le> e then round_frac s (n * 2 ^ nat e) 1 else round_frac s n (2 ^ nat (- e)))"

section \<open>Operations\<close>

definition signed_at :: "bool \<Rightarrow> nat \<Rightarrow> int \<Rightarrow> int \<Rightarrow> int" where
  "signed_at s m e e0 = (if s then - 1 else 1) * int m * 2 ^ nat (e - e0)"

fun dadd :: "dbl \<Rightarrow> dbl \<Rightarrow> dbl" where
  "dadd NaN y = NaN"
| "dadd x NaN = NaN"
| "dadd (Inf s) (Inf t) = (if s = t then Inf s else NaN)"
| "dadd (Inf s) (Fin t m e) = Inf s"
| "dadd (Fin s m e) (Inf t) = Inf t"
| "dadd (Fin s m e) (Fin t n f) =
     (let e0 = min e f; k = signed_at s m e e0 + signed_at t n f e0
      in if k = 0 then Fin (s \<and> t) 0 0 else round_scaled (k < 0) (nat \<bar>k\<bar>) e0)"

fun dneg :: "dbl \<Rightarrow> dbl" where
  "dneg NaN = NaN"
| "dneg (Inf s) = Inf (\<not> s)"
| "dneg (Fin s m e) = Fin (\<not> s) m e"

definition dsub :: "dbl \<Rightarrow> dbl \<Rightarrow> dbl" where
  "dsub x y = dadd x (dneg y)"

fun dmul :: "dbl \<Rightarrow> dbl \<Rightarrow> dbl" where
  "dmul NaN y = NaN"
| "dmul x NaN = NaN"
| "dmul (Inf s) (Inf t) = Inf (s \<noteq> t)"
| "dmul (Inf s) (Fin t m e) = (if m = 0 then NaN else Inf (s \<noteq> t))"
| "dmul (Fin s m e) (Inf t) = (if m = 0 then NaN else Inf (s \<noteq> t))"
| "dmul (Fin s m e) (Fin t n f) = round_scaled (s \<noteq> t) (m * n) (e + f)"

fun ddiv :: "dbl \<Rightarrow> dbl \<Rightarrow> dbl" where
  "ddiv NaN y = NaN"
| "ddiv x NaN = NaN"
| "ddiv (Inf s) (Inf t) = NaN"
| "ddiv (Inf s) (Fin t m e) = Inf (s \<noteq> t)"
| "ddiv (Fin s m e) (Inf t) = Fin (s \<noteq> t) 0 0"
| "ddiv (Fin s m e) (Fin t n f) =
     (if n = 0 then (if m = 0 then NaN else Inf (s \<noteq> t))
      else if f \<le> e then round_frac (s \<noteq> t) (m * 2 ^ nat (e - f)) n
      else round_frac (s \<noteq> t) m (n * 2 ^ nat (f - e)))"

fun dabs :: "dbl \<Rightarrow> dbl" where
  "dabs NaN = NaN"
| "dabs (Inf s) = Inf False"
| "dabs (Fin s m e) = Fin False m e"

fun isqrt :: "nat \<Rightarrow> nat" where
  "isqrt n =
     (if n = 0 then 0
      else let r = 2 * isqrt (n div 4) in if (r + 1) * (r + 1) \<le> n then r + 1 else r)"

declare isqrt.simps [simp del]

text \<open>
  The square root: the significand is shifted to an even exponent with at least 110 bits, so
  that its integer root has 55 and a sticky last bit decides the rounding.
\<close>

fun dsqrt :: "dbl \<Rightarrow> dbl" where
  "dsqrt NaN = NaN"
| "dsqrt (Inf s) = (if s then NaN else Inf False)"
| "dsqrt (Fin s m e) =
     (if m = 0 then Fin s 0 0
      else if s then NaN
      else let k = (if even e then 112 else 113); n = m * 2 ^ k; r = isqrt n
           in round_scaled False (2 * r + (if r * r = n then 0 else 1)) ((e - int k) div 2 - 1))"

text \<open>Comparisons are false when an operand is NaN; the two zeros are equal.\<close>

fun dlt :: "dbl \<Rightarrow> dbl \<Rightarrow> bool" where
  "dlt NaN y = False"
| "dlt x NaN = False"
| "dlt (Inf s) (Inf t) = (s \<and> \<not> t)"
| "dlt (Inf s) (Fin t m e) = s"
| "dlt (Fin s m e) (Inf t) = (\<not> t)"
| "dlt (Fin s m e) (Fin t n f) =
     (let e0 = min e f in signed_at s m e e0 < signed_at t n f e0)"

fun deq :: "dbl \<Rightarrow> dbl \<Rightarrow> bool" where
  "deq NaN y = False"
| "deq x NaN = False"
| "deq (Inf s) (Inf t) = (s = t)"
| "deq (Inf s) (Fin t m e) = False"
| "deq (Fin s m e) (Inf t) = False"
| "deq (Fin s m e) (Fin t n f) =
     (let e0 = min e f in signed_at s m e e0 = signed_at t n f e0)"

definition dle :: "dbl \<Rightarrow> dbl \<Rightarrow> bool" where
  "dle x y = (dlt x y \<or> deq x y)"

text \<open>The arithmetic and order symbols of the library stand for these operations.\<close>

instantiation dbl :: "{zero, one, plus, uminus, minus, times, divide, ord}"
begin

definition zero_dbl :: dbl where "0 = Fin False 0 0"
definition one_dbl :: dbl where "1 = Fin False (2 ^ 52) (- 52)"
definition plus_dbl :: "dbl \<Rightarrow> dbl \<Rightarrow> dbl" where "x + y = dadd x y"
definition uminus_dbl :: "dbl \<Rightarrow> dbl" where "- x = dneg x"
definition minus_dbl :: "dbl \<Rightarrow> dbl \<Rightarrow> dbl" where "x - y = dsub x y"
definition times_dbl :: "dbl \<Rightarrow> dbl \<Rightarrow> dbl" where "x * y = dmul x y"
definition divide_dbl :: "dbl \<Rightarrow> dbl \<Rightarrow> dbl" where "x div y = ddiv x y"
definition less_dbl :: "dbl \<Rightarrow> dbl \<Rightarrow> bool" where "x < y = dlt x y"
definition less_eq_dbl :: "dbl \<Rightarrow> dbl \<Rightarrow> bool" where "x \<le> y = dle x y"

instance ..

end

lemmas dbl_ops [dbl_simps] = plus_dbl_def uminus_dbl_def minus_dbl_def times_dbl_def
  divide_dbl_def less_dbl_def less_eq_dbl_def

section \<open>Conversions\<close>

definition dbl_of_int :: "int \<Rightarrow> dbl" where
  "dbl_of_int k = round_scaled (k < 0) (nat \<bar>k\<bar>) 0"

text \<open>A decimal literal \<open>n / d\<close> of the source.\<close>

definition dlit :: "int \<Rightarrow> nat \<Rightarrow> dbl" where
  "dlit n d = round_frac (n < 0) (nat \<bar>n\<bar>) d"

definition dtrunc :: "bool \<Rightarrow> nat \<Rightarrow> int \<Rightarrow> int" where
  "dtrunc s m e =
     (let k = (if 0 \<le> e then m * 2 ^ nat e else m div 2 ^ nat (- e))
      in if s then - int k else int k)"

text \<open>
  Conversion to a signed 32-bit integer truncates; what C leaves undefined (NaN and values out
  of range) gives the "integer indefinite" value \<open>- (2 ^ 31)\<close> of the conversion instruction.
\<close>

fun i32_of_dbl :: "dbl \<Rightarrow> i32" where
  "i32_of_dbl (Fin s m e) =
     (let k = dtrunc s m e
      in if - (2 ^ 31) \<le> k \<and> k < 2 ^ 31 then word_of_int k else word_of_int (- (2 ^ 31)))"
| "i32_of_dbl x = word_of_int (- (2 ^ 31))"

section \<open>The real numbers behind the integers\<close>

definition p2 :: "int \<Rightarrow> real" where
  "p2 e = power_int 2 e"

lemma p2_pos [simp]: "0 < p2 e" and p2_nonzero [simp]: "p2 e \<noteq> 0"
  by (simp_all add: p2_def)

lemma p2_not_neg [simp]: "\<not> p2 e < 0"
  using p2_pos [of e] by linarith

lemma p2_ge0 [simp]: "0 \<le> p2 e"
  using p2_pos [of e] by linarith

lemma p2_add: "p2 (a + b) = p2 a * p2 b"
  by (simp add: p2_def power_int_add)

lemma p2_diff: "p2 (a - b) = p2 a / p2 b"
  by (simp add: p2_def power_int_diff)

lemma p2_minus: "p2 (- a) = 1 / p2 a"
  by (simp add: p2_def power_int_minus inverse_eq_divide)

lemma p2_of_nat: "p2 (int n) = 2 ^ n"
  by (simp add: p2_def)

lemma p2_nat: "0 \<le> e \<Longrightarrow> p2 e = 2 ^ nat e"
  by (metis nat_0_le p2_of_nat)

lemma p2_0 [simp]: "p2 0 = 1" and p2_1 [simp]: "p2 1 = 2"
  by (simp_all add: p2_def)

lemma p2_less: "a < b \<Longrightarrow> p2 a < p2 b"
  by (simp add: p2_def power_int_strict_increasing)

lemma p2_less_iff [simp]: "p2 a < p2 b \<longleftrightarrow> a < b"
  by (metis linorder_neq_iff order_less_asym p2_less)

lemma p2_le_iff [simp]: "p2 a \<le> p2 b \<longleftrightarrow> a \<le> b"
  by (simp flip: not_less)

lemma p2_numeral: "p2 (numeral k) = 2 ^ numeral k"
  by (simp add: p2_def)

text \<open>Rounding of a real number to the nearest natural number, ties to even.\<close>

definition rne :: "real \<Rightarrow> nat" where
  "rne y =
     (let q = nat \<lfloor>y\<rfloor>; f = y - real q
      in if 2 * f < 1 then q else if 1 < 2 * f then Suc q else if even q then q else Suc q)"

lemma rne_div_eq:
  assumes "0 < d"
  shows "rne_div n d = rne (real n / real d)"
proof -
  have q: "nat \<lfloor>real n / real d\<rfloor> = n div d"
    by (simp add: floor_divide_of_nat_eq)
  have "real n = real (n div d) * real d + real (n mod d)"
    by (metis div_mult_mod_eq of_nat_add of_nat_mult)
  then have f: "real n / real d - real (n div d) = real (n mod d) / real d"
    using assms by (simp add: field_simps)
  have "2 * (real r / real d) < 1 \<longleftrightarrow> 2 * r < d" "1 < 2 * (real r / real d) \<longleftrightarrow> d < 2 * r" for r
  proof -
    have "2 * (real r / real d) < 1 \<longleftrightarrow> real (2 * r) < real d"
      and "1 < 2 * (real r / real d) \<longleftrightarrow> real d < real (2 * r)"
      using assms by (simp_all add: field_simps)
    then show "2 * (real r / real d) < 1 \<longleftrightarrow> 2 * r < d" "1 < 2 * (real r / real d) \<longleftrightarrow> d < 2 * r"
      by (simp_all only: of_nat_less_iff)
  qed
  then show ?thesis
    by (simp only: rne_div_def rne_def Let_def q f)
qed

lemma rne_between: "0 \<le> y \<Longrightarrow> nat \<lfloor>y\<rfloor> \<le> rne y \<and> rne y \<le> Suc (nat \<lfloor>y\<rfloor>)"
  by (simp add: rne_def Let_def)

lemma rne_of_nat [simp]: "rne (real k) = k"
  by (simp add: rne_def Let_def)

lemma rne_mono:
  assumes "0 \<le> x" "x \<le> y"
  shows "rne x \<le> rne y"
proof -
  have "nat \<lfloor>x\<rfloor> \<le> nat \<lfloor>y\<rfloor>" using assms by (intro nat_mono floor_mono)
  then consider "nat \<lfloor>x\<rfloor> = nat \<lfloor>y\<rfloor>" | "Suc (nat \<lfloor>x\<rfloor>) \<le> nat \<lfloor>y\<rfloor>" by linarith
  then show ?thesis
  proof cases
    case 1
    with assms(2) show ?thesis by (simp add: rne_def Let_def)
  next
    case 2
    with rne_between [of x] rne_between [of y] assms show ?thesis by linarith
  qed
qed

lemma rne_le_of_nat: "0 \<le> x \<Longrightarrow> x \<le> real k \<Longrightarrow> rne x \<le> k"
  using rne_mono [of x "real k"] by simp

lemma of_nat_le_rne: "real k \<le> x \<Longrightarrow> k \<le> rne x"
  using rne_mono [of "real k" x] by simp

lemma rne_at_eq:
  assumes "0 < d"
  shows "rne_at n d e = rne (real n / real d / p2 e)"
proof (cases "0 \<le> e")
  case True
  then show ?thesis using assms by (simp add: rne_at_def rne_div_eq p2_nat field_simps)
next
  case False
  then have "p2 e = 1 / 2 ^ nat (- e)" using p2_minus [of "- e"] by (simp add: p2_nat)
  then have "real n / real d / p2 e = real (n * 2 ^ nat (- e)) / real d" by simp
  with False assms show ?thesis by (simp add: rne_at_def rne_div_eq)
qed

text \<open>The quantum of a number and the rounding function on non-negative reals.\<close>

definition qexp :: "real \<Rightarrow> int" where
  "qexp x = max (- 1074) (\<lfloor>log 2 x\<rfloor> - 52)"

definition rnd :: "real \<Rightarrow> real" where
  "rnd x = (if x = 0 then 0 else real (rne (x / p2 (qexp x))) * p2 (qexp x))"

lemma floor_log2_eq:
  assumes "p2 k \<le> x" "x < p2 (k + 1)"
  shows "\<lfloor>log 2 x\<rfloor> = k"
proof -
  have x: "0 < x" using p2_pos [of k] assms(1) by linarith
  have "p2 j = 2 powr real_of_int j" for j by (simp add: p2_def powr_real_of_int')
  with assms x have "real_of_int k \<le> log 2 x" "log 2 x < real_of_int (k + 1)"
    by (simp_all add: le_log_iff log_less_iff)
  then show ?thesis by linarith
qed

lemma floor_log2_bounds:
  assumes "0 < x"
  shows "p2 \<lfloor>log 2 x\<rfloor> \<le> x" "x < p2 (\<lfloor>log 2 x\<rfloor> + 1)"
proof -
  have p: "p2 j = 2 powr real_of_int j" for j by (simp add: p2_def powr_real_of_int')
  have "real_of_int \<lfloor>log 2 x\<rfloor> \<le> log 2 x" "log 2 x < real_of_int (\<lfloor>log 2 x\<rfloor> + 1)" by linarith+
  with assms show "p2 \<lfloor>log 2 x\<rfloor> \<le> x" "x < p2 (\<lfloor>log 2 x\<rfloor> + 1)"
    by (simp_all only: p le_log_iff log_less_iff one_less_numeral_iff semiring_norm(76) simp_thms)
qed

lemma qexp_bounds:
  assumes "0 < x"
  shows "- 1074 \<le> qexp x" "x < p2 (qexp x + 53)" "qexp x = - 1074 \<or> p2 (qexp x + 52) \<le> x"
proof -
  show "- 1074 \<le> qexp x" by (simp add: qexp_def)
  have "p2 (\<lfloor>log 2 x\<rfloor> + 1) \<le> p2 (qexp x + 53)" by (simp add: qexp_def)
  with floor_log2_bounds(2) [OF assms] show "x < p2 (qexp x + 53)" by linarith
  show "qexp x = - 1074 \<or> p2 (qexp x + 52) \<le> x"
    using floor_log2_bounds(1) [OF assms] by (auto simp: qexp_def max_def)
qed

lemma qexp_mono: "0 < x \<Longrightarrow> x \<le> y \<Longrightarrow> qexp x \<le> qexp y"
  unfolding qexp_def by (intro max.mono diff_right_mono floor_mono) simp_all

lemma rne_scaled_le: "0 < x \<Longrightarrow> rne (x / p2 (qexp x)) \<le> 2 ^ 53"
proof -
  assume x: "0 < x"
  have "x / p2 (qexp x) \<le> 2 ^ 53"
    using qexp_bounds(2) [OF x] by (simp add: p2_add p2_numeral field_simps)
  with x show ?thesis by (intro rne_le_of_nat) auto
qed

lemma rne_scaled_ge: "0 < x \<Longrightarrow> qexp x \<noteq> - 1074 \<Longrightarrow> 2 ^ 52 \<le> rne (x / p2 (qexp x))"
proof -
  assume x: "0 < x" "qexp x \<noteq> - 1074"
  then have "2 ^ 52 \<le> x / p2 (qexp x)"
    using qexp_bounds(3) [OF x(1)] by (simp add: p2_add p2_numeral field_simps)
  then show ?thesis by (intro of_nat_le_rne) auto
qed

lemma rnd_0 [simp]: "rnd 0 = 0"
  by (simp add: rnd_def)

lemma rnd_nonneg: "0 \<le> rnd x"
  by (simp add: rnd_def)

lemma rnd_mono:
  assumes "0 \<le> x" "x \<le> y"
  shows "rnd x \<le> rnd y"
proof (cases "x = 0")
  case True
  then show ?thesis by (simp add: rnd_nonneg)
next
  case False
  with assms have x: "0 < x" and y: "0 < y" by auto
  have "qexp x \<le> qexp y" using x assms(2) by (rule qexp_mono)
  then consider "qexp x = qexp y" | "qexp x + 1 \<le> qexp y" by linarith
  then show ?thesis
  proof cases
    case 1
    have "rne (x / p2 (qexp x)) \<le> rne (y / p2 (qexp x))"
      using assms by (intro rne_mono divide_right_mono) auto
    with 1 x y show ?thesis by (simp add: rnd_def mult_right_mono)
  next
    case 2
    then have "qexp y \<noteq> - 1074" using qexp_bounds(1) [OF x] by linarith
    then have ge: "real (2 ^ 52) \<le> real (rne (y / p2 (qexp y)))"
      using rne_scaled_ge [OF y] of_nat_le_iff by blast
    have le: "real (rne (x / p2 (qexp x))) \<le> real (2 ^ 53)"
      using rne_scaled_le [OF x] of_nat_le_iff by blast
    have "rnd x \<le> 2 ^ 53 * p2 (qexp x)"
      using x le by (simp add: rnd_def mult_right_mono)
    also have "\<dots> = 2 ^ 52 * p2 (qexp x + 1)" by (simp add: p2_add)
    also have "\<dots> \<le> 2 ^ 52 * p2 (qexp y)" using 2 by simp
    also have "\<dots> \<le> rnd y" using y ge by (simp add: rnd_def mult_right_mono)
    finally show ?thesis .
  qed
qed

text \<open>Numbers with at most 53 significant bits are not changed by rounding.\<close>

lemma rnd_representable:
  assumes "m < 2 ^ 53" "- 1074 \<le> e"
  shows "rnd (real m * p2 e) = real m * p2 e"
proof (cases "m = 0")
  case False
  let ?x = "real m * p2 e"
  have x: "0 < ?x" using False by simp
  have "?x < 2 ^ 53 * p2 e" using assms(1) by (simp add: of_nat_less_numeral_power_cancel_iff)
  then have up: "?x < p2 (e + 53)" by (simp add: p2_add p2_numeral mult.commute)
  have "qexp ?x \<le> e"
  proof (cases "qexp ?x = - 1074")
    case True
    with assms(2) show ?thesis by simp
  next
    case False
    then have "p2 (qexp ?x + 52) < p2 (e + 53)" using qexp_bounds(3) [OF x] up by linarith
    then show ?thesis by simp
  qed
  then have "p2 e / p2 (qexp ?x) = 2 ^ nat (e - qexp ?x)"
    by (simp add: p2_nat flip: p2_diff)
  then have "?x / p2 (qexp ?x) = real (m * 2 ^ nat (e - qexp ?x))"
    by (simp add: field_simps)
  then have "real (rne (?x / p2 (qexp ?x))) = ?x / p2 (qexp ?x)"
    by (metis rne_of_nat)
  with x show ?thesis by (simp add: rnd_def)
qed simp

section \<open>The operations compute rounded results\<close>

text \<open>
  Well-formed values are the ones the format has: a zero, a normal or a subnormal number.
  \<open>dval\<close> is meaningful for finite values.
\<close>

fun wf_dbl :: "dbl \<Rightarrow> bool" where
  "wf_dbl (Fin s m e) =
     (if m = 0 then e = 0
      else m < 2 ^ 53 \<and> - 1074 \<le> e \<and> e \<le> 971 \<and> (2 ^ 52 \<le> m \<or> e = - 1074))"
| "wf_dbl x = True"

fun dfin :: "dbl \<Rightarrow> bool" where
  "dfin (Fin s m e) = True"
| "dfin x = False"

fun dval :: "dbl \<Rightarrow> real" where
  "dval (Fin s m e) = (if s then - 1 else 1) * (real m * p2 e)"
| "dval x = 0"

definition rndr :: "real \<Rightarrow> real" where
  "rndr x = (if x < 0 then - rnd (- x) else rnd x)"

lemma pow2_le_iff: "0 < d \<Longrightarrow> pow2_le k n d \<longleftrightarrow> p2 k \<le> real n / real d"
proof (cases "0 \<le> k")
  case True
  assume "0 < d"
  with True have "p2 k \<le> real n / real d \<longleftrightarrow> real (d * 2 ^ nat k) \<le> real n"
    by (simp add: p2_nat field_simps)
  with True show ?thesis by (simp only: pow2_le_def of_nat_le_iff if_True)
next
  case False
  assume "0 < d"
  from False have p: "p2 k = 1 / 2 ^ nat (- k)" using p2_minus [of "- k"] by (simp add: p2_nat)
  have "p2 k \<le> real n / real d \<longleftrightarrow> real d \<le> real (n * 2 ^ nat (- k))"
    unfolding p using \<open>0 < d\<close> by (simp add: field_simps)
  with False show ?thesis by (simp only: pow2_le_def of_nat_le_iff if_False)
qed

lemma bitlen_p2:
  assumes "0 < n"
  shows "p2 (bitlen (int n) - 1) \<le> real n" "real n < p2 (bitlen (int n))"
proof -
  have b: "2 ^ nat (bitlen (int n) - 1) \<le> int n" "int n < 2 ^ nat (bitlen (int n))"
    using bitlen_bounds [of "int n"] assms by auto
  have "0 < bitlen (int n)"
    using assms bitlen_nonneg [of "int n"] bitlen_eq_zero_iff [of "int n"] by linarith
  then have "p2 (bitlen (int n) - 1) = real_of_int (2 ^ nat (bitlen (int n) - 1))"
    and "p2 (bitlen (int n)) = real_of_int (2 ^ nat (bitlen (int n)))"
    by (simp_all add: p2_nat)
  with b show "p2 (bitlen (int n) - 1) \<le> real n" "real n < p2 (bitlen (int n))"
    by (metis of_int_le_iff of_int_of_nat_eq, metis of_int_less_iff of_int_of_nat_eq)
qed

lemma log2_floor_eq:
  assumes "0 < n" "0 < d"
  shows "log2_floor n d = \<lfloor>log 2 (real n / real d)\<rfloor>"
proof -
  define k where "k = bitlen (int n) - bitlen (int d)"
  have "p2 (k - 1) \<le> real n / real d"
  proof -
    have "p2 (k - 1) * real d \<le> p2 (k - 1) * p2 (bitlen (int d))"
      using bitlen_p2(2) [OF assms(2)] by (intro mult_left_mono) auto
    also have "\<dots> = p2 (bitlen (int n) - 1)" by (simp add: k_def flip: p2_add)
    finally show ?thesis using bitlen_p2(1) [OF assms(1)] assms(2) by (simp add: field_simps)
  qed
  moreover have "real n / real d < p2 (k + 1)"
  proof -
    have "p2 (bitlen (int n)) = p2 (k + 1) * p2 (bitlen (int d) - 1)"
      by (simp add: k_def flip: p2_add)
    also have "\<dots> \<le> p2 (k + 1) * real d"
      using bitlen_p2(1) [OF assms(2)] by (intro mult_left_mono) auto
    finally show ?thesis using bitlen_p2(2) [OF assms(1)] assms(2) by (simp add: field_simps)
  qed
  ultimately show ?thesis
    using floor_log2_eq [of k "real n / real d"] floor_log2_eq [of "k - 1" "real n / real d"]
    by (simp add: log2_floor_def Let_def pow2_le_iff [OF assms(2)] not_le flip: k_def)
qed

lemma normalise_dval:
  assumes "m \<le> 2 ^ 53" "- 1074 \<le> e" "2 ^ 52 \<le> m \<or> e = - 1074" "real m * p2 e < p2 1024"
  shows "\<exists>m' e'. normalise s m e = Fin s m' e' \<and> wf_dbl (Fin s m' e') \<and>
    real m' * p2 e' = real m * p2 e"
proof -
  have e: "e \<le> 971" if "2 ^ 52 \<le> m"
  proof -
    have "real (2 ^ 52) \<le> real m" using that of_nat_le_iff by blast
    then have "2 ^ 52 * p2 e \<le> real m * p2 e" by (simp add: mult_right_mono)
    moreover have "p2 (52 + e) = 2 ^ 52 * p2 e" by (simp add: p2_add p2_numeral [of "num.Bit0 _"])
    ultimately have "p2 (52 + e) < p2 1024" using assms(4) by linarith
    then show ?thesis by simp
  qed
  consider "m = 0" | "m = 2 ^ 53" | "0 < m" "m < 2 ^ 53" using assms(1) by linarith
  then show ?thesis
  proof cases
    case 2
    have "real m * p2 e = p2 (53 + e)" using 2 by (simp add: p2_add p2_numeral)
    with assms(4) have "e < 971" by simp
    with 2 assms(2) show ?thesis by (simp add: normalise_def Let_def p2_add)
  qed (use assms e in \<open>auto simp: normalise_def Let_def\<close>)
qed

lemma round_frac_dval:
  assumes "0 < d" "rnd (real n / real d) < p2 1024"
  shows "\<exists>m e. round_frac s n d = Fin s m e \<and> wf_dbl (Fin s m e) \<and>
    real m * p2 e = rnd (real n / real d)"
proof (cases "n = 0")
  case True
  then show ?thesis by (simp add: round_frac_def)
next
  case False
  define x where "x = real n / real d"
  have x: "0 < x" using False assms(1) by (simp add: x_def)
  have q: "max (- 1074) (log2_floor n d - 52) = qexp x"
    using False assms(1) by (simp add: log2_floor_eq qexp_def x_def)
  have r: "rnd x = real (rne (x / p2 (qexp x))) * p2 (qexp x)" using x by (simp add: rnd_def)
  have "\<exists>m e. normalise s (rne (x / p2 (qexp x))) (qexp x) = Fin s m e \<and> wf_dbl (Fin s m e) \<and>
    real m * p2 e = real (rne (x / p2 (qexp x))) * p2 (qexp x)"
    using rne_scaled_le [OF x] rne_scaled_ge [OF x] qexp_bounds(1) [OF x] r assms(2)
    by (intro normalise_dval) (auto simp: x_def)
  with False assms(1) r show ?thesis
    by (simp add: round_frac_def Let_def q rne_at_eq flip: x_def)
qed

lemma round_scaled_dval:
  assumes "rnd (real n * p2 e) < p2 1024"
  shows "\<exists>m f. round_scaled s n e = Fin s m f \<and> wf_dbl (Fin s m f) \<and>
    real m * p2 f = rnd (real n * p2 e)"
proof (cases "0 \<le> e")
  case True
  then have eq: "real n * p2 e = real (n * 2 ^ nat e) / real 1" by (simp add: p2_nat)
  show ?thesis using round_frac_dval [of 1 "n * 2 ^ nat e" s] assms True
    by (simp only: round_scaled_def eq if_True)
next
  case False
  then have "p2 e = 1 / 2 ^ nat (- e)" using p2_minus [of "- e"] by (simp add: p2_nat)
  then have eq: "real n * p2 e = real n / real (2 ^ nat (- e))" by simp
  show ?thesis using round_frac_dval [OF zero_less_power [OF pos2], of n "nat (- e)" s] assms False
    by (simp only: round_scaled_def eq if_False)
qed

lemma dval_dmul:
  assumes "dfin x" "dfin y" "rnd \<bar>dval x * dval y\<bar> < p2 1024"
  shows "dfin (dmul x y) \<and> wf_dbl (dmul x y) \<and> dval (dmul x y) = rndr (dval x * dval y)"
proof -
  obtain s m e t n f where xy: "x = Fin s m e" "y = Fin t n f"
    using assms(1,2) by (cases x; cases y) auto
  have abs: "\<bar>dval x * dval y\<bar> = real (m * n) * p2 (e + f)"
    by (simp add: xy abs_mult p2_add)
  obtain k g where kg: "round_scaled (s \<noteq> t) (m * n) (e + f) = Fin (s \<noteq> t) k g"
    "wf_dbl (Fin (s \<noteq> t) k g)" "real k * p2 g = rnd (real (m * n) * p2 (e + f))"
    using round_scaled_dval [of "m * n" "e + f" "s \<noteq> t"] assms(3) abs by auto
  have "rndr (dval x * dval y) = (if s \<noteq> t then - 1 else 1) * rnd (real (m * n) * p2 (e + f))"
    using abs by (cases "m = 0 \<or> n = 0") (auto simp: rndr_def xy p2_add mult_less_0_iff algebra_simps)
  with kg show ?thesis by (simp add: xy)
qed

lemma signed_at_dval:
  "e0 \<le> e \<Longrightarrow> real_of_int (signed_at s m e e0) * p2 e0 = dval (Fin s m e)"
  by (simp add: signed_at_def flip: p2_nat) (simp flip: p2_add)

lemma rndr_of_int_scaled:
  "rndr (real_of_int k * p2 e) = (if k < 0 then - 1 else 1) * rnd (real (nat \<bar>k\<bar>) * p2 e)"
  by (auto simp: rndr_def mult_less_0_iff)

lemma dval_dadd:
  assumes "dfin x" "dfin y" "rnd \<bar>dval x + dval y\<bar> < p2 1024"
  shows "dfin (dadd x y) \<and> wf_dbl (dadd x y) \<and> dval (dadd x y) = rndr (dval x + dval y)"
proof -
  obtain s m e t n f where xy: "x = Fin s m e" "y = Fin t n f"
    using assms(1,2) by (cases x; cases y) auto
  define e0 where "e0 = min e f"
  define k where "k = signed_at s m e e0 + signed_at t n f e0"
  have k: "real_of_int k * p2 e0 = dval x + dval y"
    by (simp only: k_def of_int_add distrib_right xy)
      (simp only: signed_at_dval e0_def min.cobounded1 min.cobounded2)
  show ?thesis
  proof (cases "k = 0")
    case True
    with k have "dval x + dval y = 0" by simp
    with True show ?thesis by (simp add: xy rndr_def Let_def flip: e0_def k_def)
  next
    case False
    have "\<bar>dval x + dval y\<bar> = real (nat \<bar>k\<bar>) * p2 e0"
      by (simp add: abs_mult flip: k)
    then obtain m' f' where "round_scaled (k < 0) (nat \<bar>k\<bar>) e0 = Fin (k < 0) m' f'"
      "wf_dbl (Fin (k < 0) m' f')" "real m' * p2 f' = rnd (real (nat \<bar>k\<bar>) * p2 e0)"
      using round_scaled_dval [of "nat \<bar>k\<bar>" e0 "k < 0"] assms(3) by auto
    moreover have "dadd x y = round_scaled (k < 0) (nat \<bar>k\<bar>) e0"
      using False by (simp add: xy Let_def flip: e0_def k_def)
    ultimately show ?thesis
      using rndr_of_int_scaled [of k e0] k by simp
  qed
qed

lemma dfin_dneg [simp]: "dfin (dneg x) = dfin x"
  by (cases x) auto

lemma dval_dneg [simp]: "dval (dneg x) = - dval x"
  by (cases x) auto

lemma dval_dsub:
  assumes "dfin x" "dfin y" "rnd \<bar>dval x - dval y\<bar> < p2 1024"
  shows "dfin (dsub x y) \<and> wf_dbl (dsub x y) \<and> dval (dsub x y) = rndr (dval x - dval y)"
  using dval_dadd [of x "dneg y"] assms by (simp add: dsub_def)

lemma dval_ddiv:
  assumes "dfin x" "dfin y" "dval y \<noteq> 0" "rnd \<bar>dval x / dval y\<bar> < p2 1024"
  shows "dfin (ddiv x y) \<and> wf_dbl (ddiv x y) \<and> dval (ddiv x y) = rndr (dval x / dval y)"
proof -
  obtain s m e t n f where xy: "x = Fin s m e" "y = Fin t n f"
    using assms(1,2) by (cases x; cases y) auto
  have n: "0 < n" using assms(3) by (simp add: xy)
  define a b where "a = m * 2 ^ nat (e - f)" and "b = n * 2 ^ nat (f - e)"
  have b: "0 < b" using n by (simp add: b_def)
  have quot: "real a / real b = real m * p2 e / (real n * p2 f)"
  proof (cases "f \<le> e")
    case True
    then have "p2 e = p2 f * 2 ^ nat (e - f)" by (simp flip: p2_nat p2_add)
    with True show ?thesis by (simp add: a_def b_def)
  next
    case False
    then have "p2 f = p2 e * 2 ^ nat (f - e)" by (simp flip: p2_nat p2_add)
    with False show ?thesis by (simp add: a_def b_def)
  qed
  have abs: "\<bar>dval x / dval y\<bar> = real a / real b"
    by (simp add: quot xy abs_mult)
  obtain k g where kg: "round_frac (s \<noteq> t) a b = Fin (s \<noteq> t) k g"
    "wf_dbl (Fin (s \<noteq> t) k g)" "real k * p2 g = rnd (real a / real b)"
    using round_frac_dval [OF b, of a "s \<noteq> t"] assms(4) abs by auto
  have "ddiv x y = round_frac (s \<noteq> t) a b"
    using n by (simp add: xy a_def b_def)
  moreover have "rndr (dval x / dval y) = (if s \<noteq> t then - 1 else 1) * rnd (real a / real b)"
    using n by (cases "m = 0")
      (auto simp: rndr_def xy quot divide_less_0_iff mult_less_0_iff)
  ultimately show ?thesis using kg by simp
qed

lemma dlt_iff: "dfin x \<Longrightarrow> dfin y \<Longrightarrow> dlt x y \<longleftrightarrow> dval x < dval y"
proof (cases x; cases y)
  fix s m e t n f
  assume xy: "x = Fin s m e" "y = Fin t n f"
  define e0 where "e0 = min e f"
  have "dval x < dval y \<longleftrightarrow>
      real_of_int (signed_at s m e e0) * p2 e0 < real_of_int (signed_at t n f e0) * p2 e0"
    by (simp only: signed_at_dval e0_def min.cobounded1 min.cobounded2 xy)
  also have "\<dots> \<longleftrightarrow> signed_at s m e e0 < signed_at t n f e0" by simp
  finally show ?thesis by (simp add: xy Let_def e0_def)
qed auto

lemma deq_iff: "dfin x \<Longrightarrow> dfin y \<Longrightarrow> deq x y \<longleftrightarrow> dval x = dval y"
proof (cases x; cases y)
  fix s m e t n f
  assume xy: "x = Fin s m e" "y = Fin t n f"
  define e0 where "e0 = min e f"
  have "dval x = dval y \<longleftrightarrow>
      real_of_int (signed_at s m e e0) * p2 e0 = real_of_int (signed_at t n f e0) * p2 e0"
    by (simp only: signed_at_dval e0_def min.cobounded1 min.cobounded2 xy)
  also have "\<dots> \<longleftrightarrow> signed_at s m e e0 = signed_at t n f e0" by simp
  finally show ?thesis by (simp add: xy Let_def e0_def)
qed auto

lemma dle_iff: "dfin x \<Longrightarrow> dfin y \<Longrightarrow> dle x y \<longleftrightarrow> dval x \<le> dval y"
  by (auto simp: dle_def dlt_iff deq_iff)

text \<open>Integers below \<open>2 ^ 53\<close> convert exactly.\<close>

lemma rnd_int: "m < 2 ^ 53 \<Longrightarrow> rnd (real m) = real m"
  using rnd_representable [of m 0] by simp

lemma p2_1024_big: "m < 2 ^ 53 \<Longrightarrow> real m < p2 1024"
proof -
  assume "m < 2 ^ 53"
  then have "real m < real (2 ^ 53)" using of_nat_less_iff by blast
  also have "\<dots> = p2 53" by (simp add: p2_numeral)
  also have "\<dots> \<le> p2 1024" by (simp only: p2_le_iff)
  finally show ?thesis .
qed

lemma dbl_of_int_exact:
  assumes "\<bar>k\<bar> < 2 ^ 53"
  shows "dfin (dbl_of_int k) \<and> wf_dbl (dbl_of_int k) \<and> dval (dbl_of_int k) = real_of_int k"
proof -
  have m: "nat \<bar>k\<bar> < 2 ^ 53" using assms by simp
  obtain m' f where "round_scaled (k < 0) (nat \<bar>k\<bar>) 0 = Fin (k < 0) m' f"
    "wf_dbl (Fin (k < 0) m' f)" "real m' * p2 f = rnd (real (nat \<bar>k\<bar>) * p2 0)"
    using round_scaled_dval [of "nat \<bar>k\<bar>" 0 "k < 0"] rnd_int [OF m] p2_1024_big [OF m] by auto
  with rnd_int [OF m] show ?thesis by (auto simp: dbl_of_int_def)
qed

text \<open>Every result is well-formed, also where it overflows.\<close>

lemma normalise_wf:
  assumes "m \<le> 2 ^ 53" "- 1074 \<le> e" "2 ^ 52 \<le> m \<or> e = - 1074"
  shows "wf_dbl (normalise s m e)"
proof -
  consider "m = 0" | "m = 2 ^ 53" | "0 < m" "m < 2 ^ 53" using assms(1) by linarith
  then show ?thesis by cases (use assms in \<open>auto simp: normalise_def Let_def\<close>)
qed

lemma round_frac_wf:
  assumes "0 < d"
  shows "wf_dbl (round_frac s n d)"
proof (cases "n = 0")
  case False
  define x where "x = real n / real d"
  have x: "0 < x" using False assms by (simp add: x_def)
  have q: "max (- 1074) (log2_floor n d - 52) = qexp x"
    using False assms by (simp add: log2_floor_eq qexp_def x_def)
  have "wf_dbl (normalise s (rne (x / p2 (qexp x))) (qexp x))"
    using rne_scaled_le [OF x] rne_scaled_ge [OF x] qexp_bounds(1) [OF x]
    by (intro normalise_wf) (auto simp: x_def)
  with False assms show ?thesis
    by (simp add: round_frac_def Let_def q rne_at_eq flip: x_def)
qed (simp add: round_frac_def)

lemma round_scaled_wf: "wf_dbl (round_scaled s n e)"
  by (simp add: round_scaled_def round_frac_wf)

lemma wf_dadd: "wf_dbl (dadd x y)"
  by (cases "(x, y)" rule: dadd.cases) (simp_all add: Let_def round_scaled_wf)

lemma wf_dbl_of_int: "wf_dbl (dbl_of_int k)"
  by (simp add: dbl_of_int_def round_scaled_wf)

lemma isqrt_bounds: "isqrt n * isqrt n \<le> n \<and> n < (isqrt n + 1) * (isqrt n + 1)"
proof (induction n rule: isqrt.induct)
  case (1 n)
  show ?case
  proof (cases "n = 0")
    case False
    define r where "r = isqrt (n div 4)"
    have "r * r \<le> n div 4" "n div 4 < (r + 1) * (r + 1)"
      using "1.IH" [OF False] by (simp_all add: r_def)
    then have "4 * (r * r) \<le> n" "n < 4 * ((r + 1) * (r + 1))" by linarith+
    then have b: "(2 * r) * (2 * r) \<le> n" "n < (2 * r + 2) * (2 * r + 2)"
      by (simp_all add: algebra_simps)
    have "isqrt n = (if (2 * r + 1) * (2 * r + 1) \<le> n then 2 * r + 1 else 2 * r)"
      using False by (subst isqrt.simps) (simp add: Let_def r_def)
    with b show ?thesis by auto
  qed (simp add: isqrt.simps)
qed

end
