(* ===== verification/Config.thy ===== *)
theory Config
  imports Text Binary64
begin

text \<open>
  \<^verbatim>\<open>config.c\<close>: the settings of the programs. The dictionary and the four look-ups are those of the
  third-party library iniparser, which is a parameter: a record of the functions the code calls.
  Each getter has the section, the key and the default of \<^verbatim>\<open>config.h\<close>. What the programs rely on
  is \<open>ini_reads\<close>: a string setting that is absent gives the default, and an integer setting that is
  absent gives the default.
\<close>

record 'd iniparser =
  iniparser_load :: "string \<Rightarrow> 'd option"
  iniparser_getstring :: "'d \<Rightarrow> string option \<Rightarrow> string option \<Rightarrow> string option"
  iniparser_getint :: "'d \<Rightarrow> string option \<Rightarrow> i32 \<Rightarrow> i32"
  iniparser_getdouble :: "'d \<Rightarrow> string option \<Rightarrow> dbl \<Rightarrow> dbl"
  iniparser_getboolean :: "'d \<Rightarrow> string option \<Rightarrow> i32 \<Rightarrow> i32"

record 'd conf_t =
  dict :: 'd

definition MAX_CONF_LEN :: nat where "MAX_CONF_LEN = 1024"
definition DEF_INI_NAME :: string where "DEF_INI_NAME = ''config.ini''"

section \<open>Names of settings\<close>

text \<open>
  \<open>strconcat\<close>: a null pointer is \<open>None\<close>. The result is a static buffer of \<open>MAX_CONF_LEN + 1\<close> bytes;
  no caller holds two results at once, so it is a value here.
\<close>

definition strconcat :: "string option \<Rightarrow> string option \<Rightarrow> string option res" where
  "strconcat a b =
     (case a of None \<Rightarrow> Inr b
      | Some s \<Rightarrow>
          (case b of None \<Rightarrow> Inr None
           | Some t \<Rightarrow> if MAX_CONF_LEN \<le> length s + length t then Inl ExitError else Inr (Some (s @ t))))"

text \<open>The path buffers of the programs are \<open>char tmp[100]\<close>; \<open>sprintf\<close> does not check the length.\<close>

definition sprintf_100 :: "fitem list \<Rightarrow> farg list \<Rightarrow> string res" where
  "sprintf_100 fmt args = (let s = printf fmt args in if length s < 100 then Inr s else Inl OutOfBounds)"

definition str_arg :: "string option \<Rightarrow> farg res" where
  "str_arg s = (case s of None \<Rightarrow> Inl OutOfBounds | Some t \<Rightarrow> Inr (StrArg t))"

section \<open>Look-ups\<close>

definition getstring :: "'d iniparser \<Rightarrow> 'd \<Rightarrow> string \<Rightarrow> string \<Rightarrow> string option \<Rightarrow> string option res" where
  "getstring ini d sec key def =
     rbind (strconcat (Some sec) (Some key)) (\<lambda>name. Inr (iniparser_getstring ini d name def))"

definition getint :: "'d iniparser \<Rightarrow> 'd \<Rightarrow> string \<Rightarrow> string \<Rightarrow> i32 \<Rightarrow> i32 res" where
  "getint ini d sec key def =
     rbind (strconcat (Some sec) (Some key)) (\<lambda>name. Inr (iniparser_getint ini d name def))"

text \<open>\<open>strtoull(str, NULL, 10)\<close>: no digits give 0, and values beyond 64 bits saturate.\<close>

definition strtoull :: "string \<Rightarrow> u64" where
  "strtoull s = (case scan_number s of None \<Rightarrow> 0 | Some (k, r) \<Rightarrow> word_of_int (sat_u64 k))"

definition getull :: "'d iniparser \<Rightarrow> 'd \<Rightarrow> string \<Rightarrow> string \<Rightarrow> u64 \<Rightarrow> u64 res" where
  "getull ini d sec key def =
     rbind (strconcat (Some sec) (Some key)) (\<lambda>name.
       case iniparser_getstring ini d name None of None \<Rightarrow> Inr def | Some s \<Rightarrow> Inr (strtoull s))"

definition getdouble :: "'d iniparser \<Rightarrow> 'd \<Rightarrow> string \<Rightarrow> string \<Rightarrow> dbl \<Rightarrow> dbl res" where
  "getdouble ini d sec key def =
     rbind (strconcat (Some sec) (Some key)) (\<lambda>name. Inr (iniparser_getdouble ini d name def))"

definition getboolean :: "'d iniparser \<Rightarrow> 'd \<Rightarrow> string \<Rightarrow> string \<Rightarrow> i32 \<Rightarrow> i32 res" where
  "getboolean ini d sec key def =
     rbind (strconcat (Some sec) (Some key)) (\<lambda>name. Inr (iniparser_getboolean ini d name def))"

definition Config_Init :: "'d iniparser \<Rightarrow> string option \<Rightarrow> 'd conf_t res" where
  "Config_Init ini ininame =
     (case iniparser_load ini (case ininame of Some name \<Rightarrow> name | None \<Rightarrow> DEF_INI_NAME) of
        None \<Rightarrow> Inl ExitError
      | Some d \<Rightarrow> Inr \<lparr>dict = d\<rparr>)"

text \<open>The sections of the configuration file.\<close>

abbreviation SEC_COMM :: string where "SEC_COMM \<equiv> ''Common:''"
abbreviation SEC_BF :: string where "SEC_BF \<equiv> ''BloomFilter:''"
abbreviation SEC_CM :: string where "SEC_CM \<equiv> ''CountMin:''"
abbreviation SEC_CS :: string where "SEC_CS \<equiv> ''CountSketch:''"
abbreviation SEC_DEL :: string where "SEC_DEL \<equiv> ''Deltoid:''"
abbreviation SEC_SKL :: string where "SEC_SKL \<equiv> ''SketchLearn:''"
abbreviation SEC_FR :: string where "SEC_FR \<equiv> ''FlowRadar:''"
abbreviation SEC_UM :: string where "SEC_UM \<equiv> ''UnivMon:''"
abbreviation SEC_KEYTBL :: string where "SEC_KEYTBL \<equiv> ''KeyTable:''"
abbreviation SEC_HEAP :: string where "SEC_HEAP \<equiv> ''Heap:''"
abbreviation SEC_ARRAY :: string where "SEC_ARRAY \<equiv> ''Associative Array:''"
abbreviation SEC_LC :: string where "SEC_LC \<equiv> ''LossCount:''"
abbreviation SEC_FM :: string where "SEC_FM \<equiv> ''FMSketch:''"
abbreviation SEC_REV :: string where "SEC_REV \<equiv> ''RevSketch:''"
abbreviation SEC_DOS :: string where "SEC_DOS \<equiv> ''DDoS:''"
abbreviation SEC_SUPER :: string where "SEC_SUPER \<equiv> ''SuperSpreader:''"
abbreviation SEC_ASM :: string where "SEC_ASM \<equiv> ''ASM:''"
abbreviation SEC_MRAC :: string where "SEC_MRAC \<equiv> ''mrac:''"
abbreviation SEC_TRUMPET :: string where "SEC_TRUMPET \<equiv> ''Trumpet:''"
abbreviation SEC_RECOVERY :: string where "SEC_RECOVERY \<equiv> ''Recovery:''"

section \<open>Parameters of the run\<close>

definition conf_common_trace_dir :: "'d iniparser \<Rightarrow> 'd conf_t \<Rightarrow> (string option) res" where
  "conf_common_trace_dir ini conf = getstring ini (dict conf) SEC_COMM ''trace_dir'' (Some [])"

definition conf_common_record_file :: "'d iniparser \<Rightarrow> 'd conf_t \<Rightarrow> (string option) res" where
  "conf_common_record_file ini conf = getstring ini (dict conf) SEC_COMM ''trace_record_file'' (Some [])"

definition conf_common_pcap_list :: "'d iniparser \<Rightarrow> 'd conf_t \<Rightarrow> (string option) res" where
  "conf_common_pcap_list ini conf = getstring ini (dict conf) SEC_COMM ''trace_pcap_list'' (Some [])"

definition conf_common_trace_bufsize :: "'d iniparser \<Rightarrow> 'd conf_t \<Rightarrow> u64 res" where
  "conf_common_trace_bufsize ini conf = getull ini (dict conf) SEC_COMM ''trace_bufsize'' 10000000"

definition conf_common_key_len :: "'d iniparser \<Rightarrow> 'd conf_t \<Rightarrow> i32 res" where
  "conf_common_key_len ini conf = getint ini (dict conf) SEC_COMM ''key_len'' 104"

definition conf_common_appro_sample_rate :: "'d iniparser \<Rightarrow> 'd conf_t \<Rightarrow> u64 res" where
  "conf_common_appro_sample_rate ini conf = getull ini (dict conf) SEC_COMM ''appro_sample_rate'' 10000"

definition conf_common_interval_len :: "'d iniparser \<Rightarrow> 'd conf_t \<Rightarrow> u64 res" where
  "conf_common_interval_len ini conf = getull ini (dict conf) SEC_COMM ''interval_len'' 1000"

definition conf_common_block_punc :: "'d iniparser \<Rightarrow> 'd conf_t \<Rightarrow> i32 res" where
  "conf_common_block_punc ini conf = getint ini (dict conf) SEC_COMM ''block_after_punc'' 0"

definition conf_common_ovs_max_cnt :: "'d iniparser \<Rightarrow> 'd conf_t \<Rightarrow> u64 res" where
  "conf_common_ovs_max_cnt ini conf = getull ini (dict conf) SEC_COMM ''ovs_max_cnt'' 1"

definition conf_common_ovs_interval_cnt :: "'d iniparser \<Rightarrow> 'd conf_t \<Rightarrow> u64 res" where
  "conf_common_ovs_interval_cnt ini conf = getull ini (dict conf) SEC_COMM ''ovs_interval_cnt'' 1"

definition conf_common_is_output :: "'d iniparser \<Rightarrow> 'd conf_t \<Rightarrow> i32 res" where
  "conf_common_is_output ini conf = rbind (getull ini (dict conf) SEC_COMM ''is_output'' 1) (\<lambda>x. Inr (ucast x))"

definition conf_common_is_pin_cpu :: "'d iniparser \<Rightarrow> 'd conf_t \<Rightarrow> i32 res" where
  "conf_common_is_pin_cpu ini conf = rbind (getull ini (dict conf) SEC_COMM ''is_pin_cpu'' 0) (\<lambda>x. Inr (ucast x))"

definition conf_common_num_interval :: "'d iniparser \<Rightarrow> 'd conf_t \<Rightarrow> u64 res" where
  "conf_common_num_interval ini conf = getull ini (dict conf) SEC_COMM ''num_interval'' 1"

definition conf_common_alg :: "'d iniparser \<Rightarrow> 'd conf_t \<Rightarrow> (string option) res" where
  "conf_common_alg ini conf = getstring ini (dict conf) SEC_COMM ''alg_name'' (Some [])"

definition conf_common_zmq_data_server :: "'d iniparser \<Rightarrow> 'd conf_t \<Rightarrow> (string option) res" where
  "conf_common_zmq_data_server ini conf = getstring ini (dict conf) SEC_COMM ''zmq_data_server'' (Some [])"

definition conf_common_zmq_cmd_server :: "'d iniparser \<Rightarrow> 'd conf_t \<Rightarrow> (string option) res" where
  "conf_common_zmq_cmd_server ini conf = getstring ini (dict conf) SEC_COMM ''zmq_cmd_server'' (Some [])"

definition conf_common_redis_ip :: "'d iniparser \<Rightarrow> 'd conf_t \<Rightarrow> (string option) res" where
  "conf_common_redis_ip ini conf = getstring ini (dict conf) SEC_COMM ''redis_ip'' (Some [])"

definition conf_common_redis_port :: "'d iniparser \<Rightarrow> 'd conf_t \<Rightarrow> i32 res" where
  "conf_common_redis_port ini conf = getint ini (dict conf) SEC_COMM ''redis_port'' 0"

definition conf_common_is_enable_ovs :: "'d iniparser \<Rightarrow> 'd conf_t \<Rightarrow> i32 res" where
  "conf_common_is_enable_ovs ini conf = getint ini (dict conf) SEC_COMM ''is_enable_ovs'' 0"

section \<open>Parameters of the sketches and tables\<close>

definition conf_bf_length :: "'d iniparser \<Rightarrow> 'd conf_t \<Rightarrow> i32 res" where
  "conf_bf_length ini conf = getint ini (dict conf) SEC_BF ''length'' 10000"

definition conf_bf_num_hash :: "'d iniparser \<Rightarrow> 'd conf_t \<Rightarrow> i32 res" where
  "conf_bf_num_hash ini conf = getint ini (dict conf) SEC_BF ''num_hash'' 4"

definition conf_cm_depth :: "'d iniparser \<Rightarrow> 'd conf_t \<Rightarrow> i32 res" where
  "conf_cm_depth ini conf = getint ini (dict conf) SEC_CM ''depth'' 4"

definition conf_cm_width :: "'d iniparser \<Rightarrow> 'd conf_t \<Rightarrow> i32 res" where
  "conf_cm_width ini conf = getint ini (dict conf) SEC_CM ''width'' 10000"

definition conf_cm_fm_depth :: "'d iniparser \<Rightarrow> 'd conf_t \<Rightarrow> i32 res" where
  "conf_cm_fm_depth ini conf = getint ini (dict conf) SEC_CM ''fm_depth'' 4"

definition conf_cm_fm_width :: "'d iniparser \<Rightarrow> 'd conf_t \<Rightarrow> i32 res" where
  "conf_cm_fm_width ini conf = getint ini (dict conf) SEC_CM ''fm_width'' 1"

definition conf_cm_kmin_depth :: "'d iniparser \<Rightarrow> 'd conf_t \<Rightarrow> i32 res" where
  "conf_cm_kmin_depth ini conf = getint ini (dict conf) SEC_CM ''kmin_depth'' 4"

definition conf_cm_kmin_width :: "'d iniparser \<Rightarrow> 'd conf_t \<Rightarrow> i32 res" where
  "conf_cm_kmin_width ini conf = getint ini (dict conf) SEC_CM ''kmin_width'' 1"

definition conf_cs_depth :: "'d iniparser \<Rightarrow> 'd conf_t \<Rightarrow> i32 res" where
  "conf_cs_depth ini conf = getint ini (dict conf) SEC_CS ''depth'' 4"

definition conf_cs_width :: "'d iniparser \<Rightarrow> 'd conf_t \<Rightarrow> i32 res" where
  "conf_cs_width ini conf = getint ini (dict conf) SEC_CS ''width'' 10000"

definition conf_cs_heap_size :: "'d iniparser \<Rightarrow> 'd conf_t \<Rightarrow> i32 res" where
  "conf_cs_heap_size ini conf = getint ini (dict conf) SEC_CS ''heap_size'' 10"

definition conf_del_depth :: "'d iniparser \<Rightarrow> 'd conf_t \<Rightarrow> i32 res" where
  "conf_del_depth ini conf = getint ini (dict conf) SEC_DEL ''depth'' 4"

definition conf_del_width :: "'d iniparser \<Rightarrow> 'd conf_t \<Rightarrow> i32 res" where
  "conf_del_width ini conf = getint ini (dict conf) SEC_DEL ''width'' 10000"

definition conf_del_thresh :: "'d iniparser \<Rightarrow> 'd conf_t \<Rightarrow> (64 word) res" where
  "conf_del_thresh ini conf = rbind (getint ini (dict conf) SEC_DEL ''thresh'' 1) (\<lambda>x. Inr (scast x))"

definition conf_skl_depth :: "'d iniparser \<Rightarrow> 'd conf_t \<Rightarrow> i32 res" where
  "conf_skl_depth ini conf = getint ini (dict conf) SEC_SKL ''depth'' 1"

definition conf_skl_width :: "'d iniparser \<Rightarrow> 'd conf_t \<Rightarrow> i32 res" where
  "conf_skl_width ini conf = getint ini (dict conf) SEC_SKL ''width'' 1"

definition conf_skl_select :: "'d iniparser \<Rightarrow> 'd conf_t \<Rightarrow> i32 res" where
  "conf_skl_select ini conf = getint ini (dict conf) SEC_SKL ''select'' 0"

definition conf_fr_bloom_filter_len :: "'d iniparser \<Rightarrow> 'd conf_t \<Rightarrow> i32 res" where
  "conf_fr_bloom_filter_len ini conf = getint ini (dict conf) SEC_FR ''bloom_filter_len'' 10000"

definition conf_fr_bloom_filter_num_hash :: "'d iniparser \<Rightarrow> 'd conf_t \<Rightarrow> i32 res" where
  "conf_fr_bloom_filter_num_hash ini conf = getint ini (dict conf) SEC_FR ''bloom_filter_num_hash'' 4"

definition conf_fr_counter_len :: "'d iniparser \<Rightarrow> 'd conf_t \<Rightarrow> i32 res" where
  "conf_fr_counter_len ini conf = getint ini (dict conf) SEC_FR ''counter_len'' 10000"

definition conf_fr_counter_num_hash :: "'d iniparser \<Rightarrow> 'd conf_t \<Rightarrow> i32 res" where
  "conf_fr_counter_num_hash ini conf = getint ini (dict conf) SEC_FR ''counter_num_hash'' 4"

definition conf_univmon_width :: "'d iniparser \<Rightarrow> 'd conf_t \<Rightarrow> i32 res" where
  "conf_univmon_width ini conf = getint ini (dict conf) SEC_UM ''width'' 10000"

definition conf_univmon_depth :: "'d iniparser \<Rightarrow> 'd conf_t \<Rightarrow> i32 res" where
  "conf_univmon_depth ini conf = getint ini (dict conf) SEC_UM ''depth'' 4"

definition conf_univmon_heap_size :: "'d iniparser \<Rightarrow> 'd conf_t \<Rightarrow> i32 res" where
  "conf_univmon_heap_size ini conf = rbind (getdouble ini (dict conf) SEC_UM ''heap_size'' (dbl_of_int 10)) (\<lambda>x. Inr (i32_of_dbl x))"

definition conf_keytbl_num_list :: "'d iniparser \<Rightarrow> 'd conf_t \<Rightarrow> i32 res" where
  "conf_keytbl_num_list ini conf = getint ini (dict conf) SEC_KEYTBL ''num_list'' 10000"

definition conf_keytbl_list_len :: "'d iniparser \<Rightarrow> 'd conf_t \<Rightarrow> i32 res" where
  "conf_keytbl_list_len ini conf = getint ini (dict conf) SEC_KEYTBL ''list_len'' 10"

definition conf_keytbl_timeout :: "'d iniparser \<Rightarrow> 'd conf_t \<Rightarrow> dbl res" where
  "conf_keytbl_timeout ini conf = getdouble ini (dict conf) SEC_KEYTBL ''timeout'' (- 1)"

definition conf_heap_size :: "'d iniparser \<Rightarrow> 'd conf_t \<Rightarrow> i32 res" where
  "conf_heap_size ini conf = getint ini (dict conf) SEC_HEAP ''size'' 100"

definition conf_array_size :: "'d iniparser \<Rightarrow> 'd conf_t \<Rightarrow> i32 res" where
  "conf_array_size ini conf = getint ini (dict conf) SEC_ARRAY ''size'' 1"

definition conf_card_depth :: "'d iniparser \<Rightarrow> 'd conf_t \<Rightarrow> i32 res" where
  "conf_card_depth ini conf = getint ini (dict conf) SEC_ARRAY ''card_depth'' 1"

definition conf_card_width :: "'d iniparser \<Rightarrow> 'd conf_t \<Rightarrow> i32 res" where
  "conf_card_width ini conf = getint ini (dict conf) SEC_ARRAY ''card_width'' 1"

definition conf_array_error_prob :: "'d iniparser \<Rightarrow> 'd conf_t \<Rightarrow> dbl res" where
  "conf_array_error_prob ini conf = getdouble ini (dict conf) SEC_ARRAY ''error_prob'' 1"

definition conf_losscount_size :: "'d iniparser \<Rightarrow> 'd conf_t \<Rightarrow> i32 res" where
  "conf_losscount_size ini conf = getint ini (dict conf) SEC_LC ''size'' 1"

definition conf_losscount_eps :: "'d iniparser \<Rightarrow> 'd conf_t \<Rightarrow> dbl res" where
  "conf_losscount_eps ini conf = getdouble ini (dict conf) SEC_LC ''eps'' 1"

definition conf_fm_num :: "'d iniparser \<Rightarrow> 'd conf_t \<Rightarrow> i32 res" where
  "conf_fm_num ini conf = getint ini (dict conf) SEC_FM ''num_of_counter'' 1"

definition conf_rev_width :: "'d iniparser \<Rightarrow> 'd conf_t \<Rightarrow> i32 res" where
  "conf_rev_width ini conf = getint ini (dict conf) SEC_REV ''width'' 10000"

definition conf_rev_depth :: "'d iniparser \<Rightarrow> 'd conf_t \<Rightarrow> i32 res" where
  "conf_rev_depth ini conf = getint ini (dict conf) SEC_REV ''depth'' 4"

definition conf_rev_key_word_len :: "'d iniparser \<Rightarrow> 'd conf_t \<Rightarrow> i32 res" where
  "conf_rev_key_word_len ini conf = getint ini (dict conf) SEC_REV ''key_word_len'' 8"

definition conf_rev_hash_word_len :: "'d iniparser \<Rightarrow> 'd conf_t \<Rightarrow> i32 res" where
  "conf_rev_hash_word_len ini conf = getint ini (dict conf) SEC_REV ''hash_word_len'' 2"

definition conf_dos_width :: "'d iniparser \<Rightarrow> 'd conf_t \<Rightarrow> i32 res" where
  "conf_dos_width ini conf = getint ini (dict conf) SEC_DOS ''width'' 10000"

definition conf_dos_depth :: "'d iniparser \<Rightarrow> 'd conf_t \<Rightarrow> i32 res" where
  "conf_dos_depth ini conf = getint ini (dict conf) SEC_DOS ''depth'' 1"

definition conf_dos_cm_width :: "'d iniparser \<Rightarrow> 'd conf_t \<Rightarrow> i32 res" where
  "conf_dos_cm_width ini conf = getint ini (dict conf) SEC_DOS ''cm_width'' 7"

definition conf_dos_cm_depth :: "'d iniparser \<Rightarrow> 'd conf_t \<Rightarrow> i32 res" where
  "conf_dos_cm_depth ini conf = getint ini (dict conf) SEC_DOS ''cm_depth'' 1"

definition conf_dos_rev_width :: "'d iniparser \<Rightarrow> 'd conf_t \<Rightarrow> i32 res" where
  "conf_dos_rev_width ini conf = getint ini (dict conf) SEC_DOS ''rev_width'' 65536"

definition conf_dos_rev_depth :: "'d iniparser \<Rightarrow> 'd conf_t \<Rightarrow> i32 res" where
  "conf_dos_rev_depth ini conf = getint ini (dict conf) SEC_DOS ''rev_depth'' 2"

definition conf_dos_key_word_len :: "'d iniparser \<Rightarrow> 'd conf_t \<Rightarrow> i32 res" where
  "conf_dos_key_word_len ini conf = getint ini (dict conf) SEC_DOS ''key_word_len'' 16"

definition conf_dos_hash_word_len :: "'d iniparser \<Rightarrow> 'd conf_t \<Rightarrow> i32 res" where
  "conf_dos_hash_word_len ini conf = getint ini (dict conf) SEC_DOS ''hash_word_len'' 8"

definition conf_dos_thresh :: "'d iniparser \<Rightarrow> 'd conf_t \<Rightarrow> i32 res" where
  "conf_dos_thresh ini conf = getint ini (dict conf) SEC_DOS ''thresh'' 1"

definition conf_super_width :: "'d iniparser \<Rightarrow> 'd conf_t \<Rightarrow> i32 res" where
  "conf_super_width ini conf = getint ini (dict conf) SEC_SUPER ''width'' 10000"

definition conf_super_depth :: "'d iniparser \<Rightarrow> 'd conf_t \<Rightarrow> i32 res" where
  "conf_super_depth ini conf = getint ini (dict conf) SEC_SUPER ''depth'' 1"

definition conf_super_cm_width :: "'d iniparser \<Rightarrow> 'd conf_t \<Rightarrow> i32 res" where
  "conf_super_cm_width ini conf = getint ini (dict conf) SEC_SUPER ''cm_width'' 7"

definition conf_super_cm_depth :: "'d iniparser \<Rightarrow> 'd conf_t \<Rightarrow> i32 res" where
  "conf_super_cm_depth ini conf = getint ini (dict conf) SEC_SUPER ''cm_depth'' 1"

definition conf_super_rev_width :: "'d iniparser \<Rightarrow> 'd conf_t \<Rightarrow> i32 res" where
  "conf_super_rev_width ini conf = getint ini (dict conf) SEC_SUPER ''rev_width'' 65536"

definition conf_super_rev_depth :: "'d iniparser \<Rightarrow> 'd conf_t \<Rightarrow> i32 res" where
  "conf_super_rev_depth ini conf = getint ini (dict conf) SEC_SUPER ''rev_depth'' 2"

definition conf_super_key_word_len :: "'d iniparser \<Rightarrow> 'd conf_t \<Rightarrow> i32 res" where
  "conf_super_key_word_len ini conf = getint ini (dict conf) SEC_SUPER ''key_word_len'' 16"

definition conf_super_hash_word_len :: "'d iniparser \<Rightarrow> 'd conf_t \<Rightarrow> i32 res" where
  "conf_super_hash_word_len ini conf = getint ini (dict conf) SEC_SUPER ''hash_word_len'' 8"

definition conf_super_thresh :: "'d iniparser \<Rightarrow> 'd conf_t \<Rightarrow> i32 res" where
  "conf_super_thresh ini conf = getint ini (dict conf) SEC_SUPER ''thresh'' 1"

definition conf_asm_n :: "'d iniparser \<Rightarrow> 'd conf_t \<Rightarrow> i32 res" where
  "conf_asm_n ini conf = getint ini (dict conf) SEC_ASM ''n'' 1"

definition conf_asm_k :: "'d iniparser \<Rightarrow> 'd conf_t \<Rightarrow> i32 res" where
  "conf_asm_k ini conf = getint ini (dict conf) SEC_ASM ''k'' 1"

definition conf_asm_num_state :: "'d iniparser \<Rightarrow> 'd conf_t \<Rightarrow> i32 res" where
  "conf_asm_num_state ini conf = getint ini (dict conf) SEC_ASM ''num_state'' 4"

definition conf_mrac_depth :: "'d iniparser \<Rightarrow> 'd conf_t \<Rightarrow> i32 res" where
  "conf_mrac_depth ini conf = getint ini (dict conf) SEC_MRAC ''depth'' 1"

definition conf_mrac_r :: "'d iniparser \<Rightarrow> 'd conf_t \<Rightarrow> i32 res" where
  "conf_mrac_r ini conf = getint ini (dict conf) SEC_MRAC ''r'' 1"

definition conf_mrac_m :: "'d iniparser \<Rightarrow> 'd conf_t \<Rightarrow> i32 res" where
  "conf_mrac_m ini conf = getint ini (dict conf) SEC_MRAC ''m'' 1"

definition conf_trumpet_size :: "'d iniparser \<Rightarrow> 'd conf_t \<Rightarrow> i32 res" where
  "conf_trumpet_size ini conf = getint ini (dict conf) SEC_TRUMPET ''size'' 1"

definition conf_recovery_max_iter :: "'d iniparser \<Rightarrow> 'd conf_t \<Rightarrow> i32 res" where
  "conf_recovery_max_iter ini conf = getint ini (dict conf) SEC_RECOVERY ''max_iter'' 1"


section \<open>What the look-ups return\<close>

lemma strconcat_names [simp]:
  "length s + length t < 1024 \<Longrightarrow> strconcat (Some s) (Some t) = Inr (Some (s @ t))"
  by (simp add: strconcat_def MAX_CONF_LEN_def)

definition ini_reads :: "'d iniparser \<Rightarrow> ('d \<Rightarrow> string \<Rightarrow> string option) \<Rightarrow> bool" where
  "ini_reads ini look \<longleftrightarrow> (\<forall>d name.
     (\<forall>def. iniparser_getstring ini d (Some name) def = (case look d name of None \<Rightarrow> def | Some v \<Rightarrow> Some v)) \<and>
     (\<forall>def. look d name = None \<longrightarrow> iniparser_getint ini d (Some name) def = def))"

definition ull_setting :: "string option \<Rightarrow> u64 \<Rightarrow> u64" where
  "ull_setting v def = (case v of None \<Rightarrow> def | Some s \<Rightarrow> strtoull s)"

lemma getull_reads:
  assumes "ini_reads ini look" "length sec + length key < 1024"
  shows "getull ini d sec key def = Inr (ull_setting (look d (sec @ key)) def)"
  using assms by (simp add: getull_def ini_reads_def ull_setting_def split: option.split)

lemma getstring_reads:
  assumes "ini_reads ini look" "length sec + length key < 1024"
  shows "getstring ini d sec key def = Inr (case look d (sec @ key) of None \<Rightarrow> def | Some v \<Rightarrow> Some v)"
  using assms by (simp add: getstring_def ini_reads_def)

lemma strtoull_show: "strtoull (show_nat (unat w)) = w"
proof -
  have "scan_number (show_int (int (unat w)) @ []) = Some (int (unat w), [])"
    by (rule scan_number_show_int) (simp add: ends_number_def)
  then have "scan_number (show_nat (unat w)) = Some (uint w, [])" by (simp add: show_int_def)
  moreover have "sat_u64 (uint w) = uint w" using uint_lt2p [of w] by (simp add: sat_u64_def)
  ultimately show ?thesis by (simp add: strtoull_def)
qed

text \<open>a number written in decimal as the value of a setting is the number the programs use, over the
  whole range of \<open>unsigned long long\<close>, and an absent setting is the default; the call ends the
  process exactly when the name is too long for the buffer.
\<close>

theorem getull_setting:
  assumes "ini_reads ini look"
  shows "getull ini d sec key def =
    (if length sec + length key < 1024 then
       (case look d (sec @ key) of None \<Rightarrow> Inr def | Some s \<Rightarrow> Inr (strtoull s))
     else Inl ExitError) \<and>
    (length sec + length key < 1024 \<and> look d (sec @ key) = Some (show_nat (unat w)) \<longrightarrow>
       getull ini d sec key def = Inr w)"
proof -
  have "getull ini d sec key def = Inl ExitError" if "\<not> length sec + length key < 1024"
    using that by (simp add: getull_def strconcat_def MAX_CONF_LEN_def)
  then show ?thesis
    using getull_reads [OF assms, of sec key d def] by (auto simp: ull_setting_def strtoull_show split: option.split)
qed

text \<open>An iniparser over a dictionary that is a list of names with their values.\<close>

definition assoc_ini :: "(string \<times> string) list iniparser" where
  "assoc_ini =
     \<lparr>iniparser_load = (\<lambda>name. Some []),
      iniparser_getstring = (\<lambda>d k def. case k of None \<Rightarrow> def
        | Some name \<Rightarrow> (case map_of d name of None \<Rightarrow> def | Some v \<Rightarrow> Some v)),
      iniparser_getint = (\<lambda>d k def. case k of None \<Rightarrow> def
        | Some name \<Rightarrow> (case map_of d name of None \<Rightarrow> def | Some v \<Rightarrow> ucast (strtoull v))),
      iniparser_getdouble = (\<lambda>d k def. case k of None \<Rightarrow> def
        | Some name \<Rightarrow> (case map_of d name of None \<Rightarrow> def | Some v \<Rightarrow> dbl_of_int (uint (strtoull v)))),
      iniparser_getboolean = (\<lambda>d k def. def)\<rparr>"

lemma assoc_ini_reads: "ini_reads assoc_ini map_of"
  by (simp add: ini_reads_def assoc_ini_def)

lemma getull_setting_witness:
  "getull assoc_ini [(''Common:interval_len'', show_nat 1000)] SEC_COMM ''interval_len'' 7 = Inr 1000"
  using getull_setting [OF assoc_ini_reads, of "[(''Common:interval_len'', show_nat 1000)]" SEC_COMM
      "''interval_len''" 7 1000, THEN conjunct2] by simp

end
