(* ===== verification/Bytes.thy ===== *)
theory Bytes
  imports Prelude
begin

text \<open>
  How a machine word lies in memory: the byte lists that a cast such as
  \<open>(unsigned char* )&x\<close> exposes, least significant byte first, and the word read back from
  such a list. The packed structures of the program are concatenations of these lists.
\<close>

primrec le_bytes :: "nat \<Rightarrow> 'a::len word \<Rightarrow> byte list" where
  "le_bytes 0 w = []"
| "le_bytes (Suc n) w = ucast w # le_bytes n (drop_bit 8 w)"

primrec le_word :: "byte list \<Rightarrow> 'a::len word" where
  "le_word [] = 0"
| "le_word (b # bs) = ucast b OR push_bit 8 (le_word bs)"

lemma length_le_bytes [simp, shape_simps]: "length (le_bytes n w) = n"
  by (induction n arbitrary: w) auto

lemma bit_le_word:
  "bit (le_word bs :: 'a::len word) k \<longleftrightarrow>
    k < LENGTH('a) \<and> k div 8 < length bs \<and> bit (bs ! (k div 8)) (k mod 8)"
proof (induction bs arbitrary: k)
  case (Cons b bs)
  show ?case
  proof (cases "k < 8")
    case True
    then show ?thesis
      by (auto simp: bit_or_iff bit_push_bit_iff bit_ucast_iff)
  next
    case False
    then have "k div 8 = Suc ((k - 8) div 8)" "k mod 8 = (k - 8) mod 8"
      by (simp_all add: le_div_geq le_mod_geq)
    with False show ?thesis
      using bit_imp_le_length [of b k]
      by (auto simp: bit_or_iff bit_push_bit_iff bit_ucast_iff Cons.IH)
  qed
qed simp

lemma nth_le_bytes:
  "i < n \<Longrightarrow> le_bytes n w ! i = ucast (drop_bit (8 * i) w)"
proof (induction n arbitrary: w i)
  case (Suc n)
  then show ?case
    by (cases i) (simp_all add: drop_bit_drop_bit ac_simps)
qed simp

text \<open>A word written to memory and read back is the word, cut to the bytes written.\<close>

lemma le_word_le_bytes:
  "le_word (le_bytes n w) = (take_bit (8 * n) w :: 'a::len word)"
proof (rule bit_word_eqI)
  fix k assume "k < LENGTH('a)"
  have "bit (le_bytes n w ! (k div 8)) (k mod 8) \<longleftrightarrow> bit w k" if "k div 8 < n"
  proof -
    have "bit (ucast (drop_bit (8 * (k div 8)) w) :: byte) (k mod 8) \<longleftrightarrow> bit w (8 * (k div 8) + k mod 8)"
      by (simp add: bit_ucast_iff bit_drop_bit_eq)
    then show ?thesis using that by (simp add: nth_le_bytes)
  qed
  moreover have "k div 8 < n \<longleftrightarrow> k < 8 * n"
    by (simp add: less_mult_imp_div_less div_less_iff_less_mult mult.commute)
  ultimately show "bit (le_word (le_bytes n w) :: 'a word) k = bit (take_bit (8 * n) w) k"
    using \<open>k < LENGTH('a)\<close> by (auto simp: bit_le_word bit_take_bit_iff)
qed

lemma le_word_le_bytes_full:
  "LENGTH('a::len) = 8 * n \<Longrightarrow> le_word (le_bytes n w) = (w :: 'a word)"
  by (simp add: le_word_le_bytes take_bit_word_eq_self)

lemma drop_bit_le_word:
  "8 * length (b # bs) \<le> LENGTH('a::len) \<Longrightarrow> drop_bit 8 (le_word (b # bs) :: 'a word) = le_word bs"
  by (rule bit_word_eqI) (auto simp del: le_word.simps simp: bit_drop_bit_eq bit_le_word)

lemma ucast_le_word:
  "8 * length (b # bs) \<le> LENGTH('a::len) \<Longrightarrow> ucast (le_word (b # bs) :: 'a word) = b"
  by (rule bit_word_eqI) (auto simp del: le_word.simps simp: bit_ucast_iff bit_le_word)

text \<open>Bytes read as a word and written again are the bytes.\<close>

lemma le_bytes_le_word:
  "8 * length bs \<le> LENGTH('a::len) \<Longrightarrow> le_bytes (length bs) (le_word bs :: 'a word) = bs"
proof (induction bs)
  case (Cons b bs)
  then have "drop_bit 8 (le_word (b # bs) :: 'a word) = le_word bs"
    and "ucast (le_word (b # bs) :: 'a word) = b"
    by (simp_all only: drop_bit_le_word ucast_le_word)
  with Cons show ?case by simp
qed simp

lemma le_bytes_inject:
  assumes "LENGTH('a::len) = 8 * n"
  shows "le_bytes n (v :: 'a word) = le_bytes n w \<longleftrightarrow> v = w"
  by (metis assms le_word_le_bytes_full)

end
