(* ===== verification/Tuple.thy ===== *)
theory Tuple
  imports Bytes Binary64 "HOL-Library.Product_Lexorder" "HOL-Library.Multiset"
begin

text \<open>
  \<^verbatim>\<open>tuple.h\<close> and \<^verbatim>\<open>util.c\<close>: the packet record with its packed 13-byte flow key, the comparison
  functions the program passes to \<open>qsort\<close>, and \<open>qsort\<close> itself as the C library implements it
  (a merge sort that takes the left element unless the comparison is positive). The comparison
  functions return 0 or 1 and never a negative number, so the standard's requirement on them
  does not hold; what they do to this \<open>qsort\<close> is what counts.
\<close>

section \<open>Records\<close>

record flow_key =
  src_ip :: u32
  dst_ip :: u32
  src_port :: u16
  dst_port :: u16
  proto :: byte

record tuple_t =
  tkey :: flow_key
  tsize :: i32
  flag :: byte
  pkt_ts :: dbl

record rich_tuple_t =
  rkey :: flow_key
  rsize :: i32
  rindex :: u64
  rconf :: "dbl list"

definition TUPLE_NORMAL :: byte where "TUPLE_NORMAL = 0"
definition TUPLE_PUNC :: byte where "TUPLE_PUNC = 1"
definition TUPLE_TERM :: byte where "TUPLE_TERM = 2"
definition TUPLE_START :: byte where "TUPLE_START = 3"

definition zero_key :: flow_key where
  "zero_key = \<lparr>src_ip = 0, dst_ip = 0, src_port = 0, dst_port = 0, proto = 0\<rparr>"

definition zero_tuple :: tuple_t where
  "zero_tuple = \<lparr>tkey = zero_key, tsize = 0, flag = 0, pkt_ts = 0\<rparr>"

text \<open>The packed layout of the key, as \<open>(unsigned char* )&t.key\<close> shows it.\<close>

definition key_bytes :: "flow_key \<Rightarrow> byte list" where
  "key_bytes k =
     le_bytes 4 (src_ip k) @ le_bytes 4 (dst_ip k) @ le_bytes 2 (src_port k) @
     le_bytes 2 (dst_port k) @ [proto k]"

definition bytes_key :: "byte list \<Rightarrow> flow_key" where
  "bytes_key bs =
     \<lparr>src_ip = le_word (take 4 bs), dst_ip = le_word (take 4 (drop 4 bs)),
      src_port = le_word (take 2 (drop 8 bs)), dst_port = le_word (take 2 (drop 10 bs)),
      proto = bs ! 12\<rparr>"

lemma length_key_bytes [simp, shape_simps]: "length (key_bytes k) = 13"
  by (simp add: key_bytes_def)

lemma bytes_key_key_bytes [simp]: "bytes_key (key_bytes k) = k"
proof -
  have w: "le_word (le_bytes 4 w) = w" "le_word (le_bytes 2 v) = v" for w :: u32 and v :: u16
    by (rule le_word_le_bytes_full; simp)+
  show ?thesis
    by (rule flow_key.equality) (simp_all add: bytes_key_def key_bytes_def w nth_append)
qed

lemma key_bytes_bytes_key:
  assumes "length bs = 13"
  shows "key_bytes (bytes_key bs) = bs"
proof -
  have w: "le_bytes 4 (le_word (take 4 (drop k bs)) :: u32) = take 4 (drop k bs)" if "k \<le> 9" for k
    using le_bytes_le_word [of "take 4 (drop k bs)", where 'a = 32] assms that by simp
  have v: "le_bytes 2 (le_word (take 2 (drop k bs)) :: u16) = take 2 (drop k bs)" if "k \<le> 11" for k
    using le_bytes_le_word [of "take 2 (drop k bs)", where 'a = 16] assms that by simp
  have "key_bytes (bytes_key bs) =
      take 4 (drop 0 bs) @ take 4 (drop 4 bs) @ take 2 (drop 8 bs) @ take 2 (drop 10 bs) @ [bs ! 12]"
    by (simp add: key_bytes_def bytes_key_def w [of 0, simplified] w v)
  also have "[bs ! 12] = drop 12 bs"
    using assms Cons_nth_drop_Suc [of 12 bs] by simp
  also have "take 4 (drop 0 bs) @ take 4 (drop 4 bs) @ take 2 (drop 8 bs) @ take 2 (drop 10 bs) @
      drop 12 bs = bs"
  proof -
    have j: "take n (drop m bs) @ drop (m + n) bs = drop m bs" for m n
      by (metis append_take_drop_id drop_drop add.commute)
    show ?thesis using j [of 2 10] j [of 2 8] j [of 4 4] j [of 4 0] by simp
  qed
  finally show ?thesis .
qed

lemma key_bytes_inject [simp]: "key_bytes j = key_bytes k \<longleftrightarrow> j = k"
  by (metis bytes_key_key_bytes)

section \<open>Comparison functions and qsort\<close>

definition cmp_lf :: "dbl \<Rightarrow> dbl \<Rightarrow> int" where
  "cmp_lf a b = (if a < b then 1 else 0)"

definition cmp_ll :: "64 word \<Rightarrow> 64 word \<Rightarrow> int" where
  "cmp_ll a b = (if sint a < sint b then 1 else 0)"

definition cmp_int32 :: "i32 \<Rightarrow> i32 \<Rightarrow> int" where
  "cmp_int32 a b = (if sint a < sint b then 1 else 0)"

definition cmp :: "flow_key \<times> i32 \<Rightarrow> flow_key \<times> i32 \<Rightarrow> int" where
  "cmp = (\<lambda>(k1, s1) (k2, s2).
     if s1 \<noteq> s2 then (if sint s1 < sint s2 then 1 else 0)
     else if src_ip k1 \<noteq> src_ip k2 then (if src_ip k1 < src_ip k2 then 1 else 0)
     else if dst_ip k1 \<noteq> dst_ip k2 then (if dst_ip k1 < dst_ip k2 then 1 else 0)
     else if src_port k1 \<noteq> src_port k2 then (if src_port k1 < src_port k2 then 1 else 0)
     else if dst_port k1 \<noteq> dst_port k2 then (if dst_port k1 < dst_port k2 then 1 else 0)
     else if proto k1 < proto k2 then 1 else 0)"

text \<open>\<open>- LLONG_MIN\<close> does not exist in 64 bits; the negation wraps to \<open>LLONG_MIN\<close> itself.\<close>

definition ll_abs :: "64 word \<Rightarrow> 64 word" where
  "ll_abs a = (if sint a < 0 then - a else a)"

text \<open>\<open>quitmemory\<close> ends the process when an allocation returned no memory.\<close>

definition quitmemory :: "'a option \<Rightarrow> 'a res" where
  "quitmemory p = (case p of None \<Rightarrow> Inl ExitError | Some x \<Rightarrow> Inr x)"

fun merge_c :: "('a \<Rightarrow> 'a \<Rightarrow> int) \<Rightarrow> 'a list \<Rightarrow> 'a list \<Rightarrow> 'a list" where
  "merge_c c [] ys = ys"
| "merge_c c xs [] = xs"
| "merge_c c (x # xs) (y # ys) =
     (if c x y \<le> 0 then x # merge_c c xs (y # ys) else y # merge_c c (x # xs) ys)"

fun qsort :: "('a \<Rightarrow> 'a \<Rightarrow> int) \<Rightarrow> 'a list \<Rightarrow> 'a list" where
  "qsort c xs =
     (if length xs \<le> 1 then xs
      else let n1 = length xs div 2 in merge_c c (qsort c (take n1 xs)) (qsort c (drop n1 xs)))"

declare qsort.simps [simp del]

lemma mset_merge_c: "mset (merge_c c xs ys) = mset xs + mset ys"
  by (induction c xs ys rule: merge_c.induct) auto

lemma mset_qsort: "mset (qsort c xs) = mset xs"
proof (induction c xs rule: qsort.induct)
  case (1 c xs)
  show ?case
  proof (cases "length xs \<le> 1")
    case False
    then have "mset (qsort c xs) =
        mset (take (length xs div 2) xs) + mset (drop (length xs div 2) xs)"
      using "1.IH" by (simp add: qsort.simps [of c xs] Let_def mset_merge_c)
    then show ?thesis by (simp flip: mset_append)
  qed (simp add: qsort.simps [of c xs])
qed

lemma length_qsort [simp, shape_simps]: "length (qsort c xs) = length xs"
  using mset_qsort [of c xs] by (rule mset_eq_length)

lemma set_qsort [simp]: "set (qsort c xs) = set xs"
  using mset_qsort [of c xs] by (rule mset_eq_setD)

text \<open>
  With a comparison of the form "1 if the rank of the left is smaller, else 0" the result is
  sorted by decreasing rank; with "1 if larger" by increasing rank.
\<close>

lemma set_merge_c [simp]: "set (merge_c c xs ys) = set xs \<union> set ys"
  using arg_cong [OF mset_merge_c [of c xs ys], of set_mset] by simp

lemma sorted_merge_c:
  assumes R: "\<And>x y. c x y \<le> 0 \<longleftrightarrow> R x y" and tot: "\<And>x y. \<not> R x y \<Longrightarrow> R y x"
    and tr: "\<And>x y z. R x y \<Longrightarrow> R y z \<Longrightarrow> R x z"
  shows "sorted_wrt R xs \<Longrightarrow> sorted_wrt R ys \<Longrightarrow> sorted_wrt R (merge_c c xs ys)"
proof (induction xs arbitrary: ys)
  case Nil
  then show ?case by simp
next
  case (Cons x xs)
  from Cons.prems(2) show ?case
  proof (induction ys)
    case Nil
    then show ?case using Cons.prems(1) by simp
  next
    case (Cons y ys)
    show ?case
    proof (cases "R x y")
      case True
      then have "\<forall>z\<in>set (y # ys). R x z" using Cons.prems tr by auto
      then show ?thesis using True R Cons.prems \<open>sorted_wrt R (x # xs)\<close>
        by (auto intro: \<open>\<And>ys. sorted_wrt R xs \<Longrightarrow> sorted_wrt R ys \<Longrightarrow> sorted_wrt R (merge_c c xs ys)\<close>)
    next
      case False
      then have "R y x" by (rule tot)
      then have "\<forall>z\<in>set (x # xs). R y z" using \<open>sorted_wrt R (x # xs)\<close> tr by auto
      then show ?thesis using False R Cons by auto
    qed
  qed
qed

lemma sorted_qsort:
  assumes R: "\<And>x y. c x y \<le> 0 \<longleftrightarrow> R x y" and tot: "\<And>x y. \<not> R x y \<Longrightarrow> R y x"
    and tr: "\<And>x y z. R x y \<Longrightarrow> R y z \<Longrightarrow> R x z"
  shows "sorted_wrt R (qsort c xs)"
proof (induction "length xs" arbitrary: xs rule: less_induct)
  case less
  show ?case
  proof (cases "length xs \<le> 1")
    case True
    then have "xs = [] \<or> (\<exists>x. xs = [x])" by (cases xs) auto
    then show ?thesis by (auto simp: qsort.simps)
  next
    case False
    then show ?thesis
      by (simp add: qsort.simps [of c xs] Let_def sorted_merge_c [where R = R, OF R tot tr] less)
  qed
qed

text \<open>
  Each of the program's comparison functions answers 1 exactly when its left argument ranks
  below its right one, so with this \<open>qsort\<close> they order by decreasing rank although they never
  return a negative number.
\<close>

definition cmp_key :: "flow_key \<times> i32 \<Rightarrow> int \<times> int \<times> int \<times> int \<times> int \<times> int" where
  "cmp_key = (\<lambda>(k, s). (sint s, uint (src_ip k), uint (dst_ip k), uint (src_port k),
     uint (dst_port k), uint (proto k)))"

lemma lex_step:
  fixes a b :: int
  shows "(if a \<noteq> b then (if a < b then 1 else 0) else r) \<le> (0::int) \<longleftrightarrow> b < a \<or> b = a \<and> r \<le> 0"
  by auto

lemma cmp_le_iff: "cmp a b \<le> 0 \<longleftrightarrow> cmp_key b \<le> cmp_key a"
proof -
  obtain k1 s1 k2 s2 where ab: "a = (k1, s1)" "b = (k2, s2)" by (cases a; cases b)
  have s: "s1 \<noteq> s2 \<longleftrightarrow> sint s1 \<noteq> sint s2" by (auto dest: signed_word_eqI)
  have u: "x \<noteq> y \<longleftrightarrow> uint x \<noteq> uint y" for x y :: "'b::len word" by (simp add: word_uint_eq_iff)
  have l: "(if p < q then 1 else 0) \<le> (0::int) \<longleftrightarrow> q \<le> p" for p q :: int by auto
  have e: "p < q \<or> p = q \<and> P \<longleftrightarrow> p < q \<or> p \<le> q \<and> P" for p q :: int and P by auto
  show ?thesis
    unfolding ab cmp_def cmp_key_def split s u [of "src_ip k1"] u [of "dst_ip k1"]
      u [of "src_port k1"] u [of "dst_port k1"] word_less_def lex_step l
    by (simp add: less_prod_def less_eq_prod_def e)
qed

lemma qsort_cmp_sorted: "sorted_wrt (\<lambda>a b. cmp_key b \<le> cmp_key a) (qsort cmp xs)"
  by (rule sorted_qsort) (use cmp_le_iff in auto)

lemma qsort_cmp_int32_sorted: "sorted_wrt (\<lambda>a b. sint b \<le> sint a) (qsort cmp_int32 xs)"
  by (rule sorted_qsort) (auto simp: cmp_int32_def)

lemma qsort_cmp_ll_sorted: "sorted_wrt (\<lambda>a b. sint b \<le> sint a) (qsort cmp_ll xs)"
  by (rule sorted_qsort) (auto simp: cmp_ll_def)

end
