(* ===== verification/Packet.thy ===== *)
theory Packet
  imports Text Tuple
begin

text \<open>
  \<^verbatim>\<open>packet.c\<close>: decoding of a captured frame into a packet record with the running statistics,
  the header checksum, and the text form of a record. A frame is the list of its captured
  bytes; a read past it is \<open>OutOfBounds\<close>, so the theorems also say which frames \<open>decode\<close> may be
  given. \<open>ETH_LEN\<close> and \<open>IP_CHECK\<close> have the values of \<^verbatim>\<open>packet.h\<close>.
\<close>

section \<open>Statistics\<close>

datatype packet_status =
  STATUS_INIT | STATUS_VALID | STATUS_NON_IP | STATUS_IP_NOT_FULL | STATUS_IP_VER_FAIL
  | STATUS_IP_CHKSUM_FAIL | STATUS_IP_FRAG | STATUS_TCP_NOT_FULL | STATUS_UDP_NOT_FULL
  | STATUS_ICMP_NOT_FULL | STATUS_UNDEFINED | STATUS_NON_GTP | STATUS_NON_GPRS

record packet_stat =
  tot_pkt_cnt :: u64
  tot_cap_byte_cnt :: u64
  tot_act_byte_cnt :: u64
  valid_pkt_cnt :: u64
  valid_cap_byte_cnt :: u64
  valid_act_byte_cnt :: u64
  non_ip_cnt :: u64
  ip_not_full_cnt :: u64
  ip_ver_fail_cnt :: u64
  ip_chksum_fail_cnt :: u64
  ip_frag_cnt :: u64
  tcp_not_full_cnt :: u64
  udp_not_full_cnt :: u64
  icmp_not_full_cnt :: u64
  undefined_cnt :: u64
  non_gtp_cnt :: u64
  non_gprs_cnt :: u64
  used_time :: u64
  trace_start_ts :: dbl
  trace_end_ts :: dbl

definition reset_stat :: packet_stat where
  "reset_stat =
     \<lparr>tot_pkt_cnt = 0, tot_cap_byte_cnt = 0, tot_act_byte_cnt = 0, valid_pkt_cnt = 0,
      valid_cap_byte_cnt = 0, valid_act_byte_cnt = 0, non_ip_cnt = 0, ip_not_full_cnt = 0,
      ip_ver_fail_cnt = 0, ip_chksum_fail_cnt = 0, ip_frag_cnt = 0, tcp_not_full_cnt = 0,
      udp_not_full_cnt = 0, icmp_not_full_cnt = 0, undefined_cnt = 0, non_gtp_cnt = 0,
      non_gprs_cnt = 0, used_time = 0, trace_start_ts = 0, trace_end_ts = 0\<rparr>"

text \<open>The counter updates at the head of \<open>decode\<close>, and the switch over its status.\<close>

definition count_arrival :: "u32 \<Rightarrow> u32 \<Rightarrow> dbl \<Rightarrow> packet_stat \<Rightarrow> packet_stat" where
  "count_arrival cap_len act_len ts st =
     (let st1 = st\<lparr>tot_pkt_cnt := tot_pkt_cnt st + 1\<rparr>;
          st2 = (if tot_pkt_cnt st1 = 1 then st1\<lparr>trace_start_ts := ts\<rparr> else st1)
      in st2\<lparr>trace_end_ts := ts,
             tot_cap_byte_cnt := tot_cap_byte_cnt st2 + ucast cap_len,
             tot_act_byte_cnt := tot_act_byte_cnt st2 + ucast act_len\<rparr>)"

fun count_status :: "packet_status \<Rightarrow> u32 \<Rightarrow> u32 \<Rightarrow> packet_stat \<Rightarrow> packet_stat" where
  "count_status STATUS_VALID cap_len act_len st =
     st\<lparr>valid_pkt_cnt := valid_pkt_cnt st + 1,
        valid_cap_byte_cnt := valid_cap_byte_cnt st + ucast cap_len,
        valid_act_byte_cnt := valid_act_byte_cnt st + ucast act_len\<rparr>"
| "count_status STATUS_NON_IP _ _ st = st\<lparr>non_ip_cnt := non_ip_cnt st + 1\<rparr>"
| "count_status STATUS_IP_NOT_FULL _ _ st = st\<lparr>ip_not_full_cnt := ip_not_full_cnt st + 1\<rparr>"
| "count_status STATUS_IP_VER_FAIL _ _ st = st\<lparr>ip_ver_fail_cnt := ip_ver_fail_cnt st + 1\<rparr>"
| "count_status STATUS_IP_CHKSUM_FAIL _ _ st =
     st\<lparr>ip_chksum_fail_cnt := ip_chksum_fail_cnt st + 1\<rparr>"
| "count_status STATUS_IP_FRAG _ _ st = st\<lparr>ip_frag_cnt := ip_frag_cnt st + 1\<rparr>"
| "count_status STATUS_TCP_NOT_FULL _ _ st = st\<lparr>tcp_not_full_cnt := tcp_not_full_cnt st + 1\<rparr>"
| "count_status STATUS_UDP_NOT_FULL _ _ st = st\<lparr>udp_not_full_cnt := udp_not_full_cnt st + 1\<rparr>"
| "count_status STATUS_ICMP_NOT_FULL _ _ st =
     st\<lparr>icmp_not_full_cnt := icmp_not_full_cnt st + 1\<rparr>"
| "count_status STATUS_UNDEFINED _ _ st = st\<lparr>undefined_cnt := undefined_cnt st + 1\<rparr>"
| "count_status STATUS_NON_GTP _ _ st = st\<lparr>non_gtp_cnt := non_gtp_cnt st + 1\<rparr>"
| "count_status STATUS_NON_GPRS _ _ st = st\<lparr>non_gprs_cnt := non_gprs_cnt st + 1\<rparr>"
| "count_status STATUS_INIT _ _ st = st"

text \<open>
  The report: the four numbers of the running statistics and the seventeen counters, in the
  order they are printed, on standard error when the file cannot be opened (\<open>False\<close>) and to
  the file otherwise. Two arguments of the call are written \<open>cnt++\<close>.
\<close>

definition report_final_stat_file ::
    "bool \<Rightarrow> packet_stat \<Rightarrow> (bool \<times> dbl list \<times> u64 list) \<times> packet_stat" where
  "report_final_stat_file opened st =
     (let us = dbl_of_int (uint (used_time st)); million = dbl_of_int 1000000
      in ((opened,
           [us div million,
            dbl_of_int (uint (tot_pkt_cnt st)) * 1 div us * million,
            dbl_of_int (uint (tot_act_byte_cnt st)) * dbl_of_int 8 div us * million
              div dbl_of_int (1024 * 1024 * 1024),
            trace_end_ts st - trace_start_ts st],
           [tot_pkt_cnt st, tot_cap_byte_cnt st, tot_act_byte_cnt st, valid_pkt_cnt st,
            valid_cap_byte_cnt st, valid_act_byte_cnt st, non_ip_cnt st, ip_not_full_cnt st,
            ip_ver_fail_cnt st, ip_chksum_fail_cnt st, ip_frag_cnt st, tcp_not_full_cnt st,
            udp_not_full_cnt st, icmp_not_full_cnt st, undefined_cnt st, non_gtp_cnt st,
            non_gprs_cnt st]),
          st\<lparr>ip_chksum_fail_cnt := ip_chksum_fail_cnt st + 1,
             ip_frag_cnt := ip_frag_cnt st + 1\<rparr>))"

section \<open>The header checksum\<close>

text \<open>
  \<open>long sum\<close> never gets near 63 bits, so it is a natural number. The words are read from memory
  in host (little-endian) order; a left-over byte is read as a whole word, as the code does.
\<close>

lemma fold_carry_less:
  assumes "(s::nat) div 2 ^ 16 \<noteq> 0"
  shows "s mod 2 ^ 16 + s div 2 ^ 16 < s"
proof -
  have p: "(2::nat) ^ 16 = 65536" by simp
  show ?thesis using assms div_mult_mod_eq [of s 65536] unfolding p by linarith
qed

function fold_carry :: "nat \<Rightarrow> nat" where
  "fold_carry s = (if s div 2 ^ 16 = 0 then s else fold_carry (s mod 2 ^ 16 + s div 2 ^ 16))"
  by auto
termination by (relation "measure id") (use fold_carry_less in auto)

declare fold_carry.simps [simp del]

fun chksum_words :: "nat \<Rightarrow> byte list \<Rightarrow> nat \<Rightarrow> nat res" where
  "chksum_words len w s =
     (if 1 < len then
        (case w of
           b0 # b1 # w' \<Rightarrow>
             (let s1 = s + (unat b0 + 256 * unat b1);
                  s2 = (if (s1 div 2 ^ 31) mod 2 = 1 then s1 mod 2 ^ 16 + s1 div 2 ^ 16 else s1)
              in chksum_words (len - 2) w' s2)
         | _ \<Rightarrow> Inl OutOfBounds)
      else if len = 1 then
        (case w of b0 # b1 # _ \<Rightarrow> Inr (s + (unat b0 + 256 * unat b1)) | _ \<Rightarrow> Inl OutOfBounds)
      else Inr s)"

declare chksum_words.simps [simp del]

definition in_chksum_ip :: "byte list \<Rightarrow> nat \<Rightarrow> u16 res" where
  "in_chksum_ip w len = rbind (chksum_words len w 0) (\<lambda>s. Inr (NOT (of_nat (fold_carry s))))"

section \<open>Decoding\<close>

definition ETH_LEN :: nat where "ETH_LEN = 0"
definition IP_CHECK :: bool where "IP_CHECK = False"

text \<open>Two bytes in network order at an offset, as \<open>ntohs\<close> gives them.\<close>

definition get_be16 :: "byte list \<Rightarrow> nat \<Rightarrow> u16 res" where
  "get_be16 bs i = rbind (arr_get bs i) (\<lambda>h. rbind (arr_get bs (i + 1)) (\<lambda>l.
     Inr (push_bit 8 (ucast h) OR ucast l)))"

definition get_le32 :: "byte list \<Rightarrow> nat \<Rightarrow> u32 res" where
  "get_le32 bs i = (if i + 4 \<le> length bs then Inr (le_word (take 4 (drop i bs))) else Inl OutOfBounds)"

text \<open>The Ethernet level: the header length to skip and the status so far.\<close>

definition eth_level :: "byte list \<Rightarrow> (nat \<times> packet_status) res" where
  "eth_level pkt =
     (if ETH_LEN = 14 then
        rbind (get_be16 pkt 12) (\<lambda>ty.
          Inr (if ty = 0x8100 then (18, STATUS_VALID)
               else if ty \<noteq> 0x0800 then (ETH_LEN, STATUS_NON_IP) else (ETH_LEN, STATUS_VALID)))
      else if ETH_LEN = 4 then
        rbind (get_be16 pkt 2) (\<lambda>ty.
          Inr (ETH_LEN, if ty \<noteq> 0x0800 then STATUS_NON_IP else STATUS_VALID))
      else Inr (ETH_LEN, if ETH_LEN \<noteq> 0 then STATUS_NON_IP else STATUS_VALID))"

text \<open>
  The IP and transport levels. \<open>h\<close> is the header at \<open>eth_len\<close>, \<open>len\<close> the bytes from there on
  as the \<open>int\<close> the code compares. Each test that fails overwrites the status.
\<close>

definition ip_level :: "byte list \<Rightarrow> int \<Rightarrow> packet_status \<Rightarrow> packet_status res" where
  "ip_level h len status =
     rbind (arr_get h 0) (\<lambda>b0.
       let hl4 = 4 * unat (b0 AND 15);
           s1 = (if len < int hl4 then STATUS_IP_NOT_FULL else status);
           s2 = (if drop_bit 4 b0 \<noteq> 4 then STATUS_IP_VER_FAIL else s1)
       in rbind (if IP_CHECK then in_chksum_ip h hl4 else Inr 0) (\<lambda>ck.
       let s3 = (if ck \<noteq> 0 then STATUS_IP_CHKSUM_FAIL else s2)
       in rbind (arr_get h 9) (\<lambda>proto.
       if proto = 6 then
         rbind (arr_get h (hl4 + 12)) (\<lambda>off.
           Inr (if len < int hl4 + 4 * int (unat (drop_bit 4 off)) then STATUS_TCP_NOT_FULL else s3))
       else if proto = 17 then Inr (if len < int hl4 + 8 then STATUS_UDP_NOT_FULL else s3)
       else if proto = 1 then Inr (if len < int hl4 + 8 then STATUS_ICMP_NOT_FULL else s3)
       else Inr s3)))"

text \<open>The assignment of the fields of a valid packet; \<open>flag\<close> is left as it was.\<close>

definition assign_fields :: "byte list \<Rightarrow> dbl \<Rightarrow> tuple_t \<Rightarrow> tuple_t res" where
  "assign_fields h ts p =
     rbind (arr_get h 0) (\<lambda>b0.
     rbind (get_le32 h 12) (\<lambda>src.
     rbind (get_le32 h 16) (\<lambda>dst.
     rbind (arr_get h 9) (\<lambda>pr.
     rbind (get_be16 h 2) (\<lambda>ln.
     let hl4 = 4 * unat (b0 AND 15)
     in rbind (if pr = 6 \<or> pr = 17 then get_be16 h hl4 else Inr 0) (\<lambda>sp.
        rbind (if pr = 6 \<or> pr = 17 then get_be16 h (hl4 + 2) else Inr 0) (\<lambda>dp.
        Inr (p\<lparr>tkey := \<lparr>src_ip = src, dst_ip = dst, src_port = sp, dst_port = dp, proto = pr\<rparr>,
               pkt_ts := ts, tsize := ucast ln\<rparr>))))))))"

definition decode ::
    "byte list \<Rightarrow> u32 \<Rightarrow> u32 \<Rightarrow> dbl \<Rightarrow> tuple_t \<Rightarrow> packet_stat \<Rightarrow>
     (packet_status \<times> tuple_t \<times> packet_stat) res" where
  "decode pkt cap_len act_len ts p st =
     (let st1 = count_arrival cap_len act_len ts st
      in rbind (eth_level pkt) (\<lambda>(eth_len, status).
         let h = drop eth_len pkt; len = sint (cap_len - of_nat eth_len)
         in rbind (ip_level h len status) (\<lambda>status.
         let st2 = count_status status cap_len act_len st1
         in if status \<noteq> STATUS_VALID then Inr (status, p, st2)
            else rbind (assign_fields h ts p) (\<lambda>p'. Inr (status, p', st2)))))"

section \<open>Text form of a record\<close>

definition fmt_ip :: "fitem list" where
  "fmt_ip = parse_fmt ''%d.%d.%d.%d''"

definition ip2a :: "u32 \<Rightarrow> string" where
  "ip2a ip = printf fmt_ip
     [IntArg (uint (ip AND 0xff)), IntArg (uint (drop_bit 8 ip AND 0xff)),
      IntArg (uint (drop_bit 16 ip AND 0xff)), IntArg (uint (drop_bit 24 ip AND 0xff))]"

definition print_tuple :: "tuple_t \<Rightarrow> string" where
  "print_tuple t =
     printf (parse_fmt (''%s(%u) <-> %s(%u) %u %d'' @ [CHR 0x0A]))
       [StrArg (ip2a (src_ip (tkey t))), IntArg (uint (src_port (tkey t))),
        StrArg (ip2a (dst_ip (tkey t))), IntArg (uint (dst_port (tkey t))),
        IntArg (uint (proto (tkey t))), IntArg (sint (tsize t))]"

text \<open>The four numbers of an address are \<open>unsigned int\<close>s of the stack frame (\<open>junk\<close>) until read.\<close>

definition join_ip :: "int list \<Rightarrow> nat \<Rightarrow> u32 \<Rightarrow> u32" where
  "join_ip vs i junk =
     push_bit 24 (scanned vs (i + 3) junk) OR push_bit 16 (scanned vs (i + 2) junk) OR
     push_bit 8 (scanned vs (i + 1) junk) OR scanned vs i junk"

definition fmt_tuple :: "fitem list" where
  "fmt_tuple = parse_fmt ''%u.%u.%u.%u(%hu) <-> %u.%u.%u.%u(%hu) %hhu %d''"

definition read_tuple :: "u32 \<Rightarrow> string \<Rightarrow> tuple_t \<Rightarrow> tuple_t" where
  "read_tuple junk line p =
     (let vs = sscanf fmt_tuple line; k = tkey p
      in p\<lparr>tkey := \<lparr>src_ip = join_ip vs 0 junk, dst_ip = join_ip vs 5 junk,
                    src_port = scanned vs 4 (src_port k), dst_port = scanned vs 9 (dst_port k),
                    proto = scanned vs 10 (proto k)\<rparr>,
           tsize := scanned vs 11 (tsize p)\<rparr>)"

section \<open>The checksum is the Internet checksum\<close>

text \<open>One's-complement sums are sums modulo \<open>2^16 - 1\<close>; folding the carries keeps that class.\<close>

lemma fold_once_mod: "(s mod 2 ^ 16 + s div 2 ^ 16) mod 65535 = s mod (65535::nat)"
proof -
  have "s = 65535 * (s div 2 ^ 16) + (s mod 2 ^ 16 + s div 2 ^ 16)"
    using div_mult_mod_eq [of s "2 ^ 16"] by simp
  then show ?thesis by (metis mod_mult_self4)
qed

lemma fold_carry_props:
  "fold_carry s < 2 ^ 16 \<and> fold_carry s mod 65535 = s mod 65535 \<and> (fold_carry s = 0 \<longleftrightarrow> s = 0)"
proof (induction s rule: fold_carry.induct)
  case (1 s)
  show ?case
  proof (cases "s div 2 ^ 16 = 0")
    case True
    then have "fold_carry s = s" "s < 2 ^ 16"
      by (simp_all add: fold_carry.simps [of s] div_eq_0_iff)
    then show ?thesis by simp
  next
    case False
    then have f: "fold_carry s = fold_carry (s mod 2 ^ 16 + s div 2 ^ 16)"
      by (subst fold_carry.simps) (simp only: if_False)
    have "s \<noteq> 0" "s mod 2 ^ 16 + s div 2 ^ 16 \<noteq> 0" using False by (metis div_0, simp)
    then show ?thesis using 1 [OF False] fold_once_mod [of s] unfolding f by simp
  qed
qed

fun word_sum :: "byte list \<Rightarrow> nat" where
  "word_sum (b0 # b1 # w) = unat b0 + 256 * unat b1 + word_sum w"
| "word_sum _ = 0"

lemma chksum_words_sum:
  assumes "even len" "len \<le> length w"
  shows "\<exists>t. chksum_words len w s = Inr t \<and> t mod 65535 = (s + word_sum (take len w)) mod 65535 \<and>
    (t = 0 \<longleftrightarrow> s + word_sum (take len w) = 0)"
  using assms
proof (induction len w s rule: chksum_words.induct)
  case (1 len w s)
  show ?case
  proof (cases "1 < len")
    case False
    then have "len = 0" using 1(2) by (cases len) auto
    then show ?thesis by (simp add: chksum_words.simps)
  next
    case True
    then obtain b0 b1 w' where w: "w = b0 # b1 # w'"
      using 1(3) by (cases w; cases "tl w") auto
    define s1 where "s1 = s + (unat b0 + 256 * unat b1)"
    define s2 where "s2 = (if (s1 div 2 ^ 31) mod 2 = 1 then s1 mod 2 ^ 16 + s1 div 2 ^ 16 else s1)"
    have m: "s2 mod 65535 = s1 mod 65535" unfolding s2_def using fold_once_mod [of s1] by simp
    have z: "s2 = 0 \<longleftrightarrow> s1 = 0" unfolding s2_def by (auto simp: div_eq_0_iff)
    have l: "take len w = b0 # b1 # take (len - 2) w'"
      using True w by (cases len; cases "len - 1") auto
    have step: "chksum_words len w s = chksum_words (len - 2) w' s2"
      using True by (simp add: w chksum_words.simps [of len] Let_def s1_def s2_def)
    have pre: "even (len - 2)" "len - 2 \<le> length w'" using 1(2,3) w by auto
    from 1(1) [OF True w refl refl] pre
    have "\<exists>t. chksum_words (len - 2) w' s2 = Inr t \<and>
        t mod 65535 = (s2 + word_sum (take (len - 2) w')) mod 65535 \<and>
        (t = 0 \<longleftrightarrow> s2 + word_sum (take (len - 2) w') = 0)"
      unfolding s1_def s2_def by simp
    moreover have "(s2 + word_sum (take (len - 2) w')) mod 65535 =
        (s + word_sum (take len w)) mod 65535"
      using m unfolding l s1_def by (metis (no_types, lifting) add.assoc mod_add_left_eq word_sum.simps(1))
    moreover have "s2 + word_sum (take (len - 2) w') = 0 \<longleftrightarrow> s + word_sum (take len w) = 0"
      unfolding l using z by (auto simp: s1_def)
    ultimately show ?thesis unfolding step by metis
  qed
qed

text \<open>A header passes the checksum test (result 0) exactly when the sum of its 16-bit words
  is a nonzero multiple of \<open>2^16 - 1\<close>, the condition RFC 1071 gives for a correct header.\<close>

theorem in_chksum_ip_zero_iff:
  assumes "even len" "len \<le> length w"
  shows "in_chksum_ip w len = Inr 0 \<longleftrightarrow>
    word_sum (take len w) \<noteq> 0 \<and> 65535 dvd word_sum (take len w)"
proof -
  obtain t where t: "chksum_words len w 0 = Inr t"
    "t mod 65535 = word_sum (take len w) mod 65535" "t = 0 \<longleftrightarrow> word_sum (take len w) = 0"
    using chksum_words_sum [OF assms, of 0] by auto
  have n: "NOT (of_nat v :: u16) = 0 \<longleftrightarrow> v = 65535" if "v < 2 ^ 16" for v
  proof -
    have "NOT (of_nat v :: u16) = 0 \<longleftrightarrow> (of_nat v :: u16) = - 1" by (metis bit.double_compl bit.compl_zero)
    also have "\<dots> \<longleftrightarrow> unat (of_nat v :: u16) = unat (- 1 :: u16)" by (simp only: word_unat_eq_iff)
    also have "\<dots> \<longleftrightarrow> v = 65535"
    proof -
      have "unat (- 1 :: u16) = 65535" by code_simp
      then show ?thesis using that by (simp add: unat_of_nat)
    qed
    finally show ?thesis .
  qed
  have "fold_carry t = 65535 \<longleftrightarrow> t \<noteq> 0 \<and> t mod 65535 = 0"
  proof -
    have "v = 65535 \<longleftrightarrow> v \<noteq> 0 \<and> v mod 65535 = 0" if "v < 2 ^ 16" for v :: nat
      using that by auto
    then show ?thesis using fold_carry_props [of t] by metis
  qed
  then show ?thesis using t n [of "fold_carry t"] fold_carry_props [of t]
    by (simp add: in_chksum_ip_def mod_eq_0_iff_dvd)
qed

text \<open>The classic example header 4500 0073 0000 4000 4011 b861 c0a8 0001 c0a8 00c7.\<close>

definition example_header :: "byte list" where
  "example_header = [0x45, 0, 0, 0x73, 0, 0, 0x40, 0, 0x40, 0x11, 0xb8, 0x61,
     0xc0, 0xa8, 0, 1, 0xc0, 0xa8, 0, 0xc7]"

lemma in_chksum_ip_zero_iff_witness:
  "in_chksum_ip example_header 20 = Inr 0"
proof -
  have "word_sum (take 20 example_header) \<noteq> 0 \<and> 65535 dvd word_sum (take 20 example_header)"
    by code_simp
  moreover have "even (20::nat)" "20 \<le> length example_header" by code_simp+
  ultimately show ?thesis using in_chksum_ip_zero_iff [of 20 example_header] by blast
qed

section \<open>Records survive the text form\<close>

lemma fmt_tuple_eq: "fmt_tuple =
   [UNum, Ch (CHR ''.''), UNum, Ch (CHR ''.''), UNum, Ch (CHR ''.''), UNum, Ch (CHR ''(''), UNum,
    Ch (CHR '')''), Ch (CHR '' ''), Ch (CHR ''<''), Ch (CHR ''-''), Ch (CHR ''>''), Ch (CHR '' ''),
    UNum, Ch (CHR ''.''), UNum, Ch (CHR ''.''), UNum, Ch (CHR ''.''), UNum, Ch (CHR ''(''), UNum,
    Ch (CHR '')''), Ch (CHR '' ''), UNum, Ch (CHR '' ''), DNum]"
  by code_simp

lemma fmt_print_tuple_eq: "parse_fmt (''%s(%u) <-> %s(%u) %u %d'' @ [CHR 0x0A]) =
   [St, Ch (CHR ''(''), UNum, Ch (CHR '')''), Ch (CHR '' ''), Ch (CHR ''<''), Ch (CHR ''-''),
    Ch (CHR ''>''), Ch (CHR '' ''), St, Ch (CHR ''(''), UNum, Ch (CHR '')''), Ch (CHR '' ''), UNum,
    Ch (CHR '' ''), DNum, Ch (CHR 0x0A)]"
  by code_simp

lemma fmt_ip_eq: "fmt_ip =
   [DNum, Ch (CHR ''.''), DNum, Ch (CHR ''.''), DNum, Ch (CHR ''.''), DNum]"
  by code_simp

definition octet :: "nat \<Rightarrow> u32 \<Rightarrow> u32" where
  "octet n ip = drop_bit n ip AND 0xff"

definition ip_parts :: "u32 \<Rightarrow> int list" where
  "ip_parts ip = [uint (octet 0 ip), uint (octet 8 ip), uint (octet 16 ip), uint (octet 24 ip)]"

definition tuple_ints :: "tuple_t \<Rightarrow> int list" where
  "tuple_ints t = ip_parts (src_ip (tkey t)) @ [uint (src_port (tkey t))] @
     ip_parts (dst_ip (tkey t)) @ [uint (dst_port (tkey t)), uint (proto (tkey t)), sint (tsize t)]"

lemma print_tuple_printf:
  "print_tuple t = printf fmt_tuple (map IntArg (tuple_ints t)) @ [CHR 0x0A]"
  by (simp add: print_tuple_def fmt_print_tuple_eq fmt_tuple_eq ip2a_def fmt_ip_eq tuple_ints_def
      ip_parts_def octet_def)

lemma uint_octet: "0 \<le> uint (octet n w)" "uint (octet n w) < 256"
proof -
  have "uint (octet n w) = uint (drop_bit n w) mod 256"
    using take_bit_eq_mask [of 8 "uint (drop_bit n w)"]
    by (simp add: octet_def uint_and mask_eq_exp_minus_1 take_bit_eq_mod)
  then show "0 \<le> uint (octet n w)" "uint (octet n w) < 256" by simp_all
qed

lemma fits_tuple: "fits fmt_tuple (tuple_ints t)"
proof -
  have u: "uint (octet n w) < 18446744073709551616" for n w
    using uint_octet [of n w] by linarith
  have v: "uint (x :: u16) < 18446744073709551616" "uint (y :: byte) < 18446744073709551616" for x y
    using uint_lt2p [of x] uint_lt2p [of y] by simp_all
  have z: "- 9223372036854775808 \<le> sint (i :: i32)" "sint i < 9223372036854775808" for i
    using sint_i32_range [of i] by simp_all
  show ?thesis by (simp add: fmt_tuple_eq tuple_ints_def ip_parts_def u v z)
qed

lemma octets_join:
  "push_bit 24 (octet 24 w) OR push_bit 16 (octet 16 w) OR push_bit 8 (octet 8 w) OR octet 0 w = w"
proof (rule bit_word_eqI)
  fix n assume n: "n < LENGTH(32)"
  have m: "(0xff :: u32) = mask 8" by (simp add: mask_eq_exp_minus_1)
  have o: "bit (octet k w) i \<longleftrightarrow> bit w (k + i) \<and> i < 8" for k i
    unfolding octet_def m by (auto simp: bit_and_iff bit_drop_bit_eq bit_mask_iff possible_bit_word)
  consider "n < 8" | "8 \<le> n" "n < 16" | "16 \<le> n" "n < 24" | "24 \<le> n" "n < 32"
    using n by fastforce
  then show "bit (push_bit 24 (octet 24 w) OR push_bit 16 (octet 16 w) OR
      push_bit 8 (octet 8 w) OR octet 0 w) n = bit w n"
    by cases (auto simp: bit_or_iff bit_push_bit_iff o possible_bit_word)
qed

lemma sscanf_print_tuple: "sscanf fmt_tuple (print_tuple t) = tuple_ints t"
proof -
  have "separated fmt_tuple" by code_simp
  moreover have "ends_number [CHR 0x0A]" by code_simp
  ultimately show ?thesis using fits_tuple by (simp add: print_tuple_printf sscanf_printf)
qed

text \<open>Reading back a printed record gives its key and size, whatever the stack and the
  destination held before; the destination's flag and time stamp stay.\<close>

theorem read_print_tuple:
  "read_tuple junk (print_tuple t) p = p\<lparr>tkey := tkey t, tsize := tsize t\<rparr>"
  by (simp add: read_tuple_def Let_def sscanf_print_tuple join_ip_def scanned_def tuple_ints_def
      ip_parts_def octets_join)

text \<open>A printed record is one line that fits the buffer of 100 characters it is read into.\<close>

lemma set_show_int: "c \<in> set (show_int k) \<Longrightarrow> is_digit c \<or> c = CHR ''-''"
  using show_nat_digits by (auto simp: show_int_def split: if_splits)

lemma newline_not_in_show_int [simp]: "CHR 0x0A \<notin> set (show_int k)"
  using set_show_int [of "CHR 0x0A" k] by (auto simp: is_digit_def)

lemma length_show_int_nonneg: "0 \<le> k \<Longrightarrow> k < 10 ^ n \<Longrightarrow> 0 < n \<Longrightarrow> length (show_int k) \<le> n"
  using length_show_nat [of "nat k" n] by (simp add: show_int_def nat_less_iff)

lemma length_show_int_i32: "length (show_int (sint (i :: i32))) \<le> 11"
proof -
  have "nat \<bar>sint i\<bar> < 10 ^ 10" using sint_i32_range [of i] by simp
  then show ?thesis using length_show_nat [of "nat \<bar>sint i\<bar>" 10] by (auto simp: show_int_def)
qed

lemma length_print_tuple: "length (print_tuple t) \<le> 70"
proof -
  have b: "length (show_int (uint (octet n w))) \<le> 3" for n w
    using uint_octet [of n w] by (intro length_show_int_nonneg) simp_all
  have p: "length (show_int (uint (x :: u16))) \<le> 5" for x
    using uint_lt2p [of x] by (intro length_show_int_nonneg) simp_all
  have q: "length (show_int (uint (y :: byte))) \<le> 3" for y
    using uint_lt2p [of y] by (intro length_show_int_nonneg) simp_all
  define k where "k = tkey t"
  note bs = b [of 0 "src_ip k"] b [of 8 "src_ip k"] b [of 16 "src_ip k"] b [of 24 "src_ip k"]
    b [of 0 "dst_ip k"] b [of 8 "dst_ip k"] b [of 16 "dst_ip k"] b [of 24 "dst_ip k"]
    p [of "src_port k"] p [of "dst_port k"] q [of "proto k"] length_show_int_i32 [of "tsize t"]
  show ?thesis using bs
    by (simp add: print_tuple_printf fmt_tuple_eq tuple_ints_def ip_parts_def flip: k_def)
qed

definition tuple_line :: "tuple_t \<Rightarrow> string" where
  "tuple_line t = printf fmt_tuple (map IntArg (tuple_ints t))"

lemma print_tuple_line: "print_tuple t = tuple_line t @ [CHR 0x0A]"
  by (simp add: tuple_line_def print_tuple_printf)

lemma tuple_line_newline: "CHR 0x0A \<notin> set (tuple_line t)"
  by (simp add: tuple_line_def fmt_tuple_eq tuple_ints_def ip_parts_def)

lemma lines_print_tuples:
  "lines_100 (concat (map print_tuple ts)) = map print_tuple ts"
proof -
  have "lines_100 (concat (map (\<lambda>l. l @ [CHR 0x0A]) (map tuple_line ts)) @ []) =
      map (\<lambda>l. l @ [CHR 0x0A]) (map tuple_line ts) @ lines_100 []"
  proof (rule lines_100_concat)
    fix l assume "l \<in> set (map tuple_line ts)"
    then obtain t where "l = tuple_line t" by auto
    then show "CHR 0x0A \<notin> set l \<and> length l < 99"
      using tuple_line_newline [of t] length_print_tuple [of t] by (simp add: print_tuple_line)
  qed
  then show ?thesis by (simp add: print_tuple_line [abs_def] comp_def)
qed

section \<open>What decode promises\<close>

text \<open>Every counter of an outcome, and the bytes a valid packet may take from the frame.\<close>

definition outcome_cnt :: "packet_stat \<Rightarrow> u64" where
  "outcome_cnt st = valid_pkt_cnt st + non_ip_cnt st + ip_not_full_cnt st + ip_ver_fail_cnt st +
     ip_chksum_fail_cnt st + ip_frag_cnt st + tcp_not_full_cnt st + udp_not_full_cnt st +
     icmp_not_full_cnt st + undefined_cnt st + non_gtp_cnt st + non_gprs_cnt st"

lemma outcome_count_arrival: "outcome_cnt (count_arrival c a ts st) = outcome_cnt st"
  by (simp add: outcome_cnt_def count_arrival_def Let_def)

lemma outcome_count_status:
  "s \<noteq> STATUS_INIT \<Longrightarrow> outcome_cnt (count_status s c a st) = outcome_cnt st + 1"
  by (cases s) (simp_all add: outcome_cnt_def)

lemma tot_count_status [simp]: "tot_pkt_cnt (count_status s c a st) = tot_pkt_cnt st"
  by (cases s) simp_all

lemma eth_level_eq: "eth_level pkt = Inr (0, STATUS_VALID)"
  by (simp add: eth_level_def ETH_LEN_def)

lemma ip_level_not_init:
  "ip_level h len STATUS_VALID = Inr s \<Longrightarrow> s \<noteq> STATUS_INIT"
  by (auto simp: ip_level_def Let_def IP_CHECK_def split: if_splits)

lemma decode_eq:
  "decode pkt cap_len act_len ts p st =
     rbind (ip_level pkt (sint cap_len) STATUS_VALID) (\<lambda>status.
       let st2 = count_status status cap_len act_len (count_arrival cap_len act_len ts st)
       in if status \<noteq> STATUS_VALID then Inr (status, p, st2)
          else rbind (assign_fields pkt ts p) (\<lambda>p'. Inr (status, p', st2)))"
  by (simp add: decode_def eth_level_eq Let_def cong: if_cong)

lemma decode_statE:
  assumes "decode pkt c a ts p st = Inr (s, p', st')"
  shows "s \<noteq> STATUS_INIT" "st' = count_status s c a (count_arrival c a ts st)"
  using assms ip_level_not_init unfolding decode_eq by (auto simp: Let_def split: if_splits)

text \<open>C32: Each decoded frame is counted once in the total and once among the outcomes, so the
  total stays equal to the sum of the outcome counters (all counters modulo \<open>2^64\<close>).\<close>

theorem decode_counts:
  assumes "decode pkt c a ts p st = Inr (s, p', st')"
  shows "tot_pkt_cnt st' = tot_pkt_cnt st + 1 \<and> outcome_cnt st' = outcome_cnt st + 1"
  using decode_statE [OF assms] outcome_count_status [of s c a] outcome_count_arrival [of c a ts st]
  by (simp add: count_arrival_def Let_def)

text \<open>An IPv4/UDP frame of 28 bytes.\<close>

definition udp_frame :: "byte list" where
  "udp_frame = [0x45, 0, 0, 28, 0, 0, 0, 0, 64, 17, 0, 0, 10, 0, 0, 1, 10, 0, 0, 2,
     0x04, 0xd2, 0, 53, 0, 8, 0, 0]"

definition udp_tuple :: tuple_t where
  "udp_tuple = \<lparr>tkey = \<lparr>src_ip = 0x0100000a, dst_ip = 0x0200000a, src_port = 1234, dst_port = 53,
     proto = 17\<rparr>, tsize = 28, flag = 0, pkt_ts = 1\<rparr>"

lemma decode_udp_frame:
  "\<exists>st'. decode udp_frame 28 28 1 zero_tuple reset_stat = Inr (STATUS_VALID, udp_tuple, st')"
proof -
  have "(case decode udp_frame 28 28 1 zero_tuple reset_stat of
      Inl _ \<Rightarrow> False | Inr (s, p, _) \<Rightarrow> s = STATUS_VALID \<and> p = udp_tuple)"
    by code_simp
  then show ?thesis by (auto split: sum.splits)
qed

lemma decode_counts_witness:
  "\<exists>st'. decode udp_frame 28 28 1 zero_tuple reset_stat = Inr (STATUS_VALID, udp_tuple, st') \<and>
     outcome_cnt st' = outcome_cnt reset_stat + 1"
  using decode_udp_frame decode_counts by blast

lemma in_frame:
  assumes "i < length bs"
  shows "arr_get bs i = Inr (bs ! i)"
  using assms by simp

text \<open>The length of the IP header in bytes, and the tests a valid packet passes.\<close>

definition ip_hl4 :: "byte list \<Rightarrow> nat" where
  "ip_hl4 pkt = 4 * unat (pkt ! 0 AND 15)"

definition headers_fit :: "byte list \<Rightarrow> bool" where
  "headers_fit pkt \<longleftrightarrow> drop_bit 4 (pkt ! 0) = 4 \<and> ip_hl4 pkt \<le> length pkt \<and>
     (pkt ! 9 = 6 \<longrightarrow> ip_hl4 pkt + 4 * unat (drop_bit 4 (pkt ! (ip_hl4 pkt + 12))) \<le> length pkt) \<and>
     (pkt ! 9 = 17 \<or> pkt ! 9 = 1 \<longrightarrow> ip_hl4 pkt + 8 \<le> length pkt)"

lemma ip_level_reads:
  "if length pkt < 10 \<or> pkt ! 9 = 6 \<and> length pkt < ip_hl4 pkt + 13
   then ip_level pkt (int (length pkt)) STATUS_VALID = Inl OutOfBounds
   else \<exists>s. ip_level pkt (int (length pkt)) STATUS_VALID = Inr s \<and> (s = STATUS_VALID \<longleftrightarrow> headers_fit pkt)"
proof -
  consider "pkt = []" | "0 < length pkt" "length pkt < 10" | "10 \<le> length pkt" by fastforce
  then show ?thesis
  proof cases
    case 3
    then have l: "0 < length pkt" "9 < length pkt" by auto
    show ?thesis
    proof (cases "pkt ! 9 = 6")
      case True
      let ?a = "pkt ! 0 AND 15" and ?b = "drop_bit 4 (pkt ! (ip_hl4 pkt + 12))"
      have u: "int (length pkt) < 4 * uint ?a + 4 * uint ?b \<longleftrightarrow> length pkt < 4 * unat ?a + 4 * unat ?b"
        by (simp only: uint_nat) linarith
      show ?thesis using True 3 l u
        by (cases "length pkt < ip_hl4 pkt + 13")
          (auto simp: ip_level_def Let_def IP_CHECK_def headers_fit_def arr_get_def ip_hl4_def)
    next
      case False
      let ?a = "pkt ! 0 AND 15"
      have u: "int (length pkt) < 4 * uint ?a + 8 \<longleftrightarrow> length pkt < 4 * unat ?a + 8"
        by (simp only: uint_nat) linarith
      show ?thesis using False 3 l u
        by (auto simp: ip_level_def Let_def IP_CHECK_def headers_fit_def ip_hl4_def)
    qed
  qed (auto simp: ip_level_def arr_get_def Let_def IP_CHECK_def)
qed

lemma assign_fields_reads:
  assumes "10 \<le> length pkt" "headers_fit pkt" "pkt ! 9 = 6 \<longrightarrow> ip_hl4 pkt + 13 \<le> length pkt"
  shows "if length pkt < 20 then assign_fields pkt ts p = Inl OutOfBounds else \<exists>p'. assign_fields pkt ts p = Inr p'"
proof -
  have g: "\<exists>v. get_be16 pkt i = Inr v" if "i + 1 < length pkt" for i
    using that by (simp add: get_be16_def)
  have l: "0 < length pkt" "9 < length pkt" using assms(1) by auto
  have hl: "ip_hl4 pkt = 4 * unat (pkt ! 0 AND 15)" by (simp add: ip_hl4_def)
  show ?thesis
  proof (cases "length pkt < 20")
    case True
    then show ?thesis using l by (cases "length pkt < 16") (simp_all add: assign_fields_def get_le32_def)
  next
    case False
    have "\<exists>v. get_be16 pkt (ip_hl4 pkt) = Inr v" "\<exists>v. get_be16 pkt (ip_hl4 pkt + 2) = Inr v" if "pkt ! 9 = 6 \<or> pkt ! 9 = 17"
      using that assms(2,3) by (auto simp: headers_fit_def intro!: g)
    then show ?thesis using False l g [of 2] by (auto simp: assign_fields_def Let_def get_le32_def hl)
  qed
qed

text \<open>C31: which frames are read past their end. For a frame of \<open>cap_len\<close> captured bytes, less than \<open>2^31\<close>,
  \<open>decode\<close> leaves the captured bytes exactly in three cases: there are fewer than ten of them (the
  protocol is looked at before any length); the protocol is TCP and the byte with the length of the TCP
  header is missing; or all tests pass although the fixed part of the IP header is not complete (a header
  length below five words). In all other cases it returns.\<close>

theorem decode_in_bounds:
  assumes "length pkt = unat cap_len" "length pkt < 2 ^ 31"
  shows "if length pkt < 10 \<or> (pkt ! 9 = 6 \<and> length pkt < ip_hl4 pkt + 13) \<or> (headers_fit pkt \<and> length pkt < 20)
    then decode pkt cap_len act_len ts p st = Inl OutOfBounds
    else \<exists>r. decode pkt cap_len act_len ts p st = Inr r"
proof -
  have "uint cap_len = int (length pkt)" using assms(1) by simp
  then have c: "sint cap_len = int (length pkt)" using assms(2) by (simp add: sint_uint signed_take_bit_int_eq_self)
  show ?thesis
  proof (cases "length pkt < 10 \<or> pkt ! 9 = 6 \<and> length pkt < ip_hl4 pkt + 13")
    case True
    then show ?thesis using ip_level_reads [of pkt] by (auto simp: decode_eq c)
  next
    case False
    then obtain s where s: "ip_level pkt (int (length pkt)) STATUS_VALID = Inr s" "s = STATUS_VALID \<longleftrightarrow> headers_fit pkt"
      using ip_level_reads [of pkt] by auto
    show ?thesis
    proof (cases "headers_fit pkt")
      case True
      then show ?thesis using assign_fields_reads [of pkt ts p] False s
        by (auto simp: decode_eq c Let_def split: if_splits)
    qed (use False s in \<open>auto simp: decode_eq c Let_def\<close>)
  qed
qed

lemma decode_in_bounds_witness:
  "decode (replicate 9 0) 9 9 1 zero_tuple reset_stat = Inl OutOfBounds \<and>
   (\<exists>r. decode (replicate 10 0) 10 10 1 zero_tuple reset_stat = Inr r) \<and>
   decode (0x41 # replicate 18 0) 19 19 1 zero_tuple reset_stat = Inl OutOfBounds \<and>
   (\<exists>r. decode udp_frame 28 28 1 zero_tuple reset_stat = Inr r)"
proof -
  have f: "length udp_frame = unat (28 :: u32)" "udp_frame ! 9 \<noteq> 6" "length udp_frame = 28" by code_simp+
  have h: "headers_fit (0x41 # replicate 18 0)" by code_simp
  show ?thesis
    using decode_in_bounds [of "replicate 9 0" 9] decode_in_bounds [of "replicate 10 0" 10]
      decode_in_bounds [of "0x41 # replicate 18 0" 19] decode_in_bounds [of udp_frame 28] f h
    by (simp add: headers_fit_def)
qed

text \<open>A 16-bit field as a number.\<close>

lemma be16_sint:
  assumes "get_be16 bs i = Inr v"
  shows "sint (ucast v :: i32) = 256 * uint (bs ! i) + uint (bs ! (i + 1))"
proof -
  let ?h = "bs ! i" and ?l = "bs ! (i + 1)"
  have v: "v = push_bit 8 (ucast ?h) OR ucast ?l"
    using assms by (auto simp: get_be16_def arr_get_def split: if_splits)
  also have "\<dots> = push_bit 8 (ucast ?h) + ucast ?l"
    by (rule disjunctive_add [symmetric]) (auto simp: bit_simps dest: bit_imp_le_length)
  finally have v: "uint v = (uint ?h * 256 + uint ?l) mod 2 ^ 16"
    by (simp add: push_bit_eq_mult uint_word_ariths unsigned_ucast_eq take_bit_eq_mod mod_simps)
  have "0 \<le> uint ?h" "0 \<le> uint ?l" "uint ?h < 256" "uint ?l < 256" using uint_lt2p [of ?h] uint_lt2p [of ?l] by simp_all
  then have "uint ?h * 256 + uint ?l < 2 ^ 16" "0 \<le> uint ?h * 256 + uint ?l" by simp_all
  then have r: "uint v = 256 * uint ?h + uint ?l" using v by simp
  have "- (2 ^ 31) \<le> uint v" by (rule order_trans [OF _ uint_ge_0]) simp
  moreover have "uint v < 2 ^ 31" using uint_lt2p [of v] by simp
  ultimately have "sint (ucast v :: i32) = uint v"
    by (simp add: sint_uint unsigned_ucast_eq signed_take_bit_int_eq_self take_bit_int_eq_self)
  then show ?thesis using r by simp
qed

text \<open>C30: A packet reported valid is IPv4, its header lies in the captured bytes, and the record
  holds the addresses, protocol, ports (0 unless TCP or UDP) and the total length of the header, as a
  number from 0 to 65535.\<close>

theorem decode_valid:
  assumes "decode pkt cap_len act_len ts p st = Inr (STATUS_VALID, p', st')"
  shows "drop_bit 4 (pkt ! 0) = 4 \<and> 4 * int (unat (pkt ! 0 AND 15)) \<le> sint cap_len \<and>
    proto (tkey p') = pkt ! 9 \<and> pkt_ts p' = ts \<and> flag p' = flag p \<and>
    src_ip (tkey p') = le_word (take 4 (drop 12 pkt)) \<and>
    dst_ip (tkey p') = le_word (take 4 (drop 16 pkt)) \<and>
    20 \<le> length pkt \<and> sint (tsize p') = 256 * uint (pkt ! 2) + uint (pkt ! 3) \<and>
    (if pkt ! 9 = 6 \<or> pkt ! 9 = 17
     then get_be16 pkt (4 * unat (pkt ! 0 AND 15)) = Inr (src_port (tkey p')) \<and>
          get_be16 pkt (4 * unat (pkt ! 0 AND 15) + 2) = Inr (dst_port (tkey p'))
     else src_port (tkey p') = 0 \<and> dst_port (tkey p') = 0)"
proof -
  have s: "ip_level pkt (sint cap_len) STATUS_VALID = Inr STATUS_VALID"
    and f: "assign_fields pkt ts p = Inr p'"
    using assms unfolding decode_eq by (auto simp: Let_def split: if_splits)
  have a: "arr_get bs i = Inr v \<longleftrightarrow> i < length bs \<and> v = bs ! i" for bs :: "byte list" and i v
    by (auto simp: arr_get_def)
  have u: "ucast (ucast x :: i32) = x" for x :: u16
    by (rule bit_word_eqI) (auto simp: bit_simps)
  have v: "drop_bit 4 (pkt ! 0) = 4" "4 * int (unat (pkt ! 0 AND 15)) \<le> sint cap_len"
    using s by (auto simp: ip_level_def Let_def IP_CHECK_def a split: if_splits)
  have sz: "get_be16 pkt 2 = Inr x \<Longrightarrow> sint (ucast x :: i32) = 256 * uint (pkt ! 2) + uint (pkt ! 3)" for x
    using be16_sint [of pkt 2 x] by simp
  show ?thesis using f v
    by (auto simp: assign_fields_def Let_def a u get_le32_def sz split: if_splits)
qed

lemma decode_valid_witness:
  "\<exists>st'. decode udp_frame 28 28 1 zero_tuple reset_stat = Inr (STATUS_VALID, udp_tuple, st') \<and>
     drop_bit 4 (udp_frame ! 0) = 4"
  using decode_udp_frame decode_valid by blast

end
