(* ===== verification/Adapter.thy ===== *)
theory Adapter
  imports Config Packet
begin

text \<open>
  Where the records come from: \<^verbatim>\<open>adapter_record_ram.c\<close> replays a file of records from memory, and
  \<^verbatim>\<open>adapter_dir.c\<close> with \<^verbatim>\<open>trace_preprocess.c\<close> makes such a file from packet captures. A record file is
  a list of bytes; the layout of a record (26 bytes, packed, the time stamp in the interchange
  format of IEEE 754) is \<open>tuple_bytes\<close>. Opening a file is the parameter \<open>fopen\<close>; the library libpcap
  is the parameter \<open>pcap\<close>.
\<close>

section \<open>The memory of a record\<close>

definition dbl_bits :: "dbl \<Rightarrow> u64" where
  "dbl_bits x =
     (case x of
        NaN \<Rightarrow> of_nat (2047 * 2 ^ 52 + 2 ^ 51)
      | Inf s \<Rightarrow> of_nat ((if s then 2 ^ 63 else 0) + 2047 * 2 ^ 52)
      | Fin s m e \<Rightarrow> of_nat ((if s then 2 ^ 63 else 0) +
          (if m < 2 ^ 52 then m else nat (e + 1075) * 2 ^ 52 + (m - 2 ^ 52))))"

definition dbl_of_bits :: "u64 \<Rightarrow> dbl" where
  "dbl_of_bits w =
     (let n = unat w; s = (2 ^ 63 \<le> n); ex = (n div 2 ^ 52) mod 2048; f = n mod 2 ^ 52
      in if ex = 2047 then (if f = 0 then Inf s else NaN)
         else if ex = 0 then (if f = 0 then Fin s 0 0 else Fin s f (- 1074))
         else Fin s (2 ^ 52 + f) (int ex - 1075))"

lemma dbl_of_bits_parts:
  assumes "S < 2" "ex < 2048" "f < 2 ^ 52"
  shows "dbl_of_bits (of_nat (S * 2 ^ 63 + ex * 2 ^ 52 + f)) =
    (if ex = 2047 then (if f = 0 then Inf (S = 1) else NaN)
     else if ex = 0 then (if f = 0 then Fin (S = 1) 0 0 else Fin (S = 1) f (- 1074))
     else Fin (S = 1) (2 ^ 52 + f) (int ex - 1075))"
proof -
  define n where "n = S * 2 ^ 63 + ex * 2 ^ 52 + f"
  have e: "n = f + 2 ^ 52 * (ex + 2048 * S)" unfolding n_def by (simp add: algebra_simps)
  have b: "n < 2 ^ 64" "(2 ^ 63 \<le> n) = (S = 1)" using assms unfolding n_def by auto
  have m: "n mod 2 ^ 52 = f" unfolding e mod_mult_self2 using assms(3) by (rule mod_less)
  have "n div 2 ^ 52 = ex + 2048 * S"
    unfolding e using div_less [OF assms(3)] by (subst div_mult_self2) simp_all
  then have d: "n div 2 ^ 52 mod 2048 = ex" using assms(2) by (simp only:) simp
  have u: "unat (of_nat n :: u64) = n" unfolding unat_of_nat using b(1) by (intro mod_less) simp
  show ?thesis unfolding n_def [symmetric] dbl_of_bits_def Let_def u b(2) m d by (rule refl)
qed

lemma dbl_of_bits_dbl_bits: "wf_dbl x \<Longrightarrow> dbl_of_bits (dbl_bits x) = x"
proof (cases x)
  case NaN
  then show ?thesis using dbl_of_bits_parts [of 0 2047 "2 ^ 51"] by (simp add: dbl_bits_def)
next
  case (Inf s)
  then show ?thesis using dbl_of_bits_parts [of "of_bool s" 2047 0] by (cases s) (simp_all add: dbl_bits_def)
next
  case (Fin s m e)
  assume "wf_dbl x"
  then have w: "if m = 0 then e = 0 else m < 2 ^ 53 \<and> - 1074 \<le> e \<and> e \<le> 971 \<and> (2 ^ 52 \<le> m \<or> e = - 1074)"
    using Fin by simp
  show ?thesis
  proof (cases "m < 2 ^ 52")
    case True
    then show ?thesis using w dbl_of_bits_parts [of "of_bool s" 0 m]
      by (cases s) (simp_all add: dbl_bits_def Fin split: if_splits)
  next
    case False
    with w have m: "m < 2 ^ 53" "- 1074 \<le> e" "e \<le> 971" by (auto split: if_splits)
    with False have f: "m - 2 ^ 52 < 2 ^ 52" "2 ^ 52 + (m - 2 ^ 52) = m" by auto
    from m have ex: "nat (e + 1075) < 2047" "nat (e + 1075) \<noteq> 0" "int (nat (e + 1075)) = e + 1075" by auto
    have "dbl_of_bits (of_nat (of_bool s * 2 ^ 63 + nat (e + 1075) * 2 ^ 52 + (m - 2 ^ 52))) = Fin s m e"
      using dbl_of_bits_parts [of "of_bool s" "nat (e + 1075)" "m - 2 ^ 52"] f ex by (cases s) simp_all
    moreover have "dbl_bits x = of_nat (of_bool s * 2 ^ 63 + nat (e + 1075) * 2 ^ 52 + (m - 2 ^ 52))"
      using False by (cases s) (simp_all add: dbl_bits_def Fin algebra_simps)
    ultimately show ?thesis by (simp add: Fin)
  qed
qed

definition tuple_bytes :: "tuple_t \<Rightarrow> byte list" where
  "tuple_bytes t =
     key_bytes (tkey t) @ le_bytes 4 (tsize t) @ [flag t] @ le_bytes 8 (dbl_bits (pkt_ts t))"

definition bytes_tuple :: "byte list \<Rightarrow> tuple_t" where
  "bytes_tuple bs =
     \<lparr>tkey = bytes_key (take 13 bs), tsize = le_word (take 4 (drop 13 bs)), flag = bs ! 17,
      pkt_ts = dbl_of_bits (le_word (take 8 (drop 18 bs)))\<rparr>"

lemma length_tuple_bytes [simp, shape_simps]: "length (tuple_bytes t) = 26"
  by (simp add: tuple_bytes_def)

lemma bytes_tuple_tuple_bytes: "wf_dbl (pkt_ts t) \<Longrightarrow> bytes_tuple (tuple_bytes t) = t"
proof -
  assume w: "wf_dbl (pkt_ts t)"
  have "(le_word (le_bytes 4 (tsize t)) :: i32) = tsize t"
    "(le_word (le_bytes 8 (dbl_bits (pkt_ts t))) :: u64) = dbl_bits (pkt_ts t)"
    by (rule le_word_le_bytes_full; simp)+
  with w show ?thesis
    by (simp add: bytes_tuple_def tuple_bytes_def nth_append dbl_of_bits_dbl_bits)
qed

section \<open>Replay of a record file\<close>

text \<open>
  \<open>trace_buf\<close> is the whole allocated buffer and \<open>ptr\<close> the offset of the next record in it. A short
  read at the end of the file stores its bytes and ends the loop without counting them.
\<close>

record adapter_t =
  trace_buf :: "byte list"
  ptr :: nat
  cnt_rec :: nat
  cur_rec :: nat

definition store :: "byte list \<Rightarrow> nat \<Rightarrow> byte list \<Rightarrow> byte list" where
  "store buf p bs = take p buf @ bs @ drop (p + length bs) buf"

function load_records :: "nat \<Rightarrow> byte list \<Rightarrow> nat \<Rightarrow> nat \<Rightarrow> byte list \<Rightarrow> byte list \<times> nat" where
  "load_records sz buf p n rest =
     (if p + 26 \<le> sz then
        (if length rest < 26 then (store buf p rest, n)
         else load_records sz (store buf p (take 26 rest)) (p + 26) (n + 1) (drop 26 rest))
      else (buf, n))"
  by auto
termination by (relation "measure (\<lambda>(sz, buf, p, n, rest). sz - p)") auto

declare load_records.simps [simp del]

definition adapter_init :: "(string \<Rightarrow> byte list option) \<Rightarrow> string option \<Rightarrow> string option \<Rightarrow> u64 \<Rightarrow> adapter_t res" where
  "adapter_init fopen dir file buf_size =
     rbind (strconcat dir file) (\<lambda>path.
       case path of None \<Rightarrow> Inl OutOfBounds
       | Some name \<Rightarrow>
           (case fopen name of None \<Rightarrow> Inl ExitError
            | Some input \<Rightarrow>
                let (buf, n) = load_records (unat buf_size) (replicate (unat buf_size) 0) 0 0 input
                in Inr \<lparr>trace_buf = buf, ptr = 0, cnt_rec = n, cur_rec = 0\<rparr>))"

text \<open>\<open>adapter_next\<close>: \<open>None\<close> is the result -1, which leaves the record \<open>p\<close> of the caller as it was.\<close>

definition adapter_next :: "adapter_t \<Rightarrow> (tuple_t \<times> adapter_t) option" where
  "adapter_next a =
     (if cur_rec a = cnt_rec a then None
      else Some (bytes_tuple (take 26 (drop (ptr a) (trace_buf a))),
                 a\<lparr>cur_rec := cur_rec a + 1, ptr := ptr a + 26\<rparr>))"

text \<open>The records a loop \<open>while (adapter_next(adapter, &t) != -1)\<close> gets, in order.\<close>

fun replay :: "nat \<Rightarrow> adapter_t \<Rightarrow> tuple_t list" where
  "replay 0 a = []"
| "replay (Suc n) a = (case adapter_next a of None \<Rightarrow> [] | Some (t, a') \<Rightarrow> t # replay n a')"

definition adapter_records :: "adapter_t \<Rightarrow> tuple_t list" where
  "adapter_records a = replay (cnt_rec a - cur_rec a) a"

lemma load_records_tuples:
  assumes "length buf = sz" "p \<le> sz"
  shows "\<exists>buf'. load_records sz buf p n (concat (map tuple_bytes ts)) =
      (buf', n + min (length ts) ((sz - p) div 26)) \<and> length buf' = sz \<and> take p buf' = take p buf \<and>
      take (26 * min (length ts) ((sz - p) div 26)) (drop p buf') =
        concat (map tuple_bytes (take ((sz - p) div 26) ts))"
  using assms
proof (induction ts arbitrary: buf p n)
  case Nil
  then show ?case
    by (subst load_records.simps) (auto simp: store_def)
next
  case (Cons t ts)
  show ?case
  proof (cases "p + 26 \<le> sz")
    case True
    let ?buf = "store buf p (tuple_bytes t)"
    have l: "length ?buf = sz" "take p ?buf = take p buf"
      using Cons.prems True by (simp_all add: store_def)
    have m: "take 26 (drop p ?buf) = tuple_bytes t" using Cons.prems by (simp add: store_def)
    have k: "(sz - p) div 26 = Suc ((sz - (p + 26)) div 26)"
      using le_div_geq [of 26 "sz - p"] True by simp
    from Cons.IH [OF l(1) True, of "n + 1"] obtain buf' where b:
      "load_records sz ?buf (p + 26) (n + 1) (concat (map tuple_bytes ts)) =
        (buf', n + 1 + min (length ts) ((sz - (p + 26)) div 26))" "length buf' = sz"
      "take (p + 26) buf' = take (p + 26) ?buf"
      "take (26 * min (length ts) ((sz - (p + 26)) div 26)) (drop (p + 26) buf') =
        concat (map tuple_bytes (take ((sz - (p + 26)) div 26) ts))" by blast
    have d: "take 26 (drop p buf') = tuple_bytes t"
      using arg_cong [OF b(3), of "drop p"] m by (simp add: drop_take)
    have "take p buf' = take p buf"
      using arg_cong [OF b(3), of "take p"] l(2) by (simp add: min_absorb1)
    moreover have "take (26 * Suc j) (drop p buf') = tuple_bytes t @ take (26 * j) (drop (p + 26) buf')" for j
      using take_add [of 26 "26 * j" "drop p buf'"] d by (simp add: add.commute)
    ultimately show ?thesis
      using b(1,2,4) True k by (subst load_records.simps) simp
  next
    case False
    then have "(sz - p) div 26 = 0" by simp
    then show ?thesis using False by (subst load_records.simps) (simp add: Cons.prems)
  qed
qed

lemma replay_records:
  assumes "cur_rec a + n = cnt_rec a" "26 * n \<le> length (drop (ptr a) (trace_buf a))"
    and "take (26 * n) (drop (ptr a) (trace_buf a)) = concat (map tuple_bytes ts)" "length ts = n"
    and "\<forall>t \<in> set ts. wf_dbl (pkt_ts t)"
  shows "replay n a = ts"
  using assms
proof (induction n arbitrary: a ts)
  case (Suc n)
  obtain t ts' where ts: "ts = t # ts'" using Suc.prems(4) by (cases ts) auto
  let ?b = "drop (ptr a) (trace_buf a)"
  have b: "take 26 ?b = tuple_bytes t"
    using arg_cong [OF Suc.prems(3), of "take 26"] ts by (simp add: min_absorb1)
  have d: "take (26 * n) (drop (ptr a + 26) (trace_buf a)) = concat (map tuple_bytes ts')"
    using arg_cong [OF Suc.prems(3), of "drop 26"] ts by (simp add: drop_take add.commute)
  let ?a = "a\<lparr>cur_rec := cur_rec a + 1, ptr := ptr a + 26\<rparr>"
  have "replay n ?a = ts'"
    by (rule Suc.IH) (use Suc.prems d ts in auto)
  moreover have "adapter_next a = Some (t, ?a)"
    using Suc.prems(1,5) b ts by (simp add: adapter_next_def bytes_tuple_tuple_bytes)
  ultimately show ?case using ts by simp
qed simp

lemma adapter_replays_gen:
  assumes "fopen (dir @ file) = Some (concat (map tuple_bytes ts))" "length dir + length file < 1024"
    and "\<forall>t \<in> set ts. wf_dbl (pkt_ts t)"
  shows "\<exists>a. adapter_init fopen (Some dir) (Some file) buf_size = Inr a \<and>
    adapter_records a = take (unat buf_size div 26) ts"
proof -
  let ?z = "replicate (unat buf_size) (0 :: byte)" and ?n = "min (length ts) (unat buf_size div 26)"
  obtain buf where b: "load_records (unat buf_size) ?z 0 0 (concat (map tuple_bytes ts)) = (buf, ?n)"
    "length buf = unat buf_size" "take (26 * ?n) buf = concat (map tuple_bytes (take (unat buf_size div 26) ts))"
    using load_records_tuples [of ?z "unat buf_size" 0 0 ts] by auto
  let ?a = "\<lparr>trace_buf = buf, ptr = 0, cnt_rec = ?n, cur_rec = 0\<rparr>"
  have "26 * ?n \<le> unat buf_size" by (simp add: min_def) (metis div_times_less_eq_dividend linorder_not_le
      mult.commute mult_le_mono2 order_trans nat_le_linear)
  then have "replay ?n ?a = take (unat buf_size div 26) ts"
    by (intro replay_records) (use assms(3) b in \<open>auto dest: in_set_takeD\<close>)
  moreover have "adapter_init fopen (Some dir) (Some file) buf_size = Inr ?a"
    using assms(1,2) b(1) by (simp add: adapter_init_def)
  ultimately show ?thesis by (simp add: adapter_records_def)
qed

text \<open>what is replayed is what the file holds. From a file of records the loop over \<open>adapter_next\<close>
  gets these records, in order and unchanged, up to the number that fits into the buffer.
\<close>

theorem adapter_replays:
  assumes "fopen (dir @ file) = Some (concat (map tuple_bytes ts))" "length dir + length file < 1024"
    and "\<forall>t \<in> set ts. wf_dbl (pkt_ts t)"
  shows "\<exists>a. adapter_init fopen (Some dir) (Some file) buf_size = Inr a \<and>
    adapter_records a = take (unat buf_size div 26) ts"
  using assms by (rule adapter_replays_gen)

lemma adapter_replays_witness:
  "\<exists>a. adapter_init (\<lambda>name. Some (tuple_bytes zero_tuple @ tuple_bytes zero_tuple)) (Some ''d'') (Some ''f'') 51 = Inr a \<and>
    adapter_records a = [zero_tuple]"
  using adapter_replays [of "\<lambda>name. Some (tuple_bytes zero_tuple @ tuple_bytes zero_tuple)" "''d''" "''f''"
      "[zero_tuple, zero_tuple]" 51] by (simp add: zero_tuple_def zero_dbl_def)

section \<open>Packet captures\<close>

text \<open>
  What the program uses of libpcap: opening a capture file, and the next packet with its header
  (\<open>ts_sec\<close> and \<open>ts_usec\<close> are the two fields of the time stamp).
\<close>

record pcap_pkthdr =
  ts_sec :: "64 word"
  ts_usec :: "64 word"
  hdr_caplen :: u32
  hdr_len :: u32

record 'p pcap_lib =
  pcap_open_offline :: "string \<Rightarrow> 'p option"
  pcap_next :: "'p \<Rightarrow> (pcap_pkthdr \<times> byte list) option \<times> 'p"

definition MAX_FILE :: nat where "MAX_FILE = 1024"
definition MAX_FILE_LEN :: nat where "MAX_FILE_LEN = 1024"
definition MAX_CAPLEN :: u32 where "MAX_CAPLEN = 1500"

record 'p dir_adapter =
  file_num :: nat
  file_cur :: nat
  filename :: "string list"
  pcap :: 'p

text \<open>The lines of the list of captures, as the loop over \<open>fgets\<close> with a buffer of \<open>n\<close> bytes gets them.\<close>

function fgets_lines :: "nat \<Rightarrow> string \<Rightarrow> string list" where
  "fgets_lines n s =
     (case fgets n s of None \<Rightarrow> []
      | Some (l, r) \<Rightarrow> if length r < length s then l # fgets_lines n r else [])"
  by auto
termination by (relation "measure (\<lambda>(n, s). length s)") auto

declare fgets_lines.simps [simp del]

text \<open>
  The last character of a line is cut off, whether or not it is a newline. The table of names has
  \<open>MAX_FILE\<close> rows; a name that \<open>strconcat\<close> accepts fits into a row.
\<close>

fun list_files :: "string option \<Rightarrow> string list \<Rightarrow> nat \<Rightarrow> string list \<Rightarrow> (nat \<times> string list) res" where
  "list_files dir [] n fs = Inr (n, fs)"
| "list_files dir (l # ls) n fs =
     rbind (strconcat dir (Some (butlast l))) (\<lambda>name.
       case name of None \<Rightarrow> Inl OutOfBounds
       | Some f \<Rightarrow> rbind (arr_set fs n f) (list_files dir ls (n + 1)))"

definition dir_adapter_init ::
    "(string \<Rightarrow> string option) \<Rightarrow> 'p pcap_lib \<Rightarrow> string option \<Rightarrow> string option \<Rightarrow> 'p dir_adapter res" where
  "dir_adapter_init fopen lib dir file =
     rbind (strconcat dir file) (\<lambda>path.
       case path of None \<Rightarrow> Inl OutOfBounds
       | Some name \<Rightarrow>
           (case fopen name of None \<Rightarrow> Inl OutOfBounds
            | Some input \<Rightarrow>
                rbind (list_files dir (fgets_lines MAX_FILE_LEN input) 0 (replicate MAX_FILE [])) (\<lambda>(n, fs).
                  case pcap_open_offline lib (fs ! 0) of None \<Rightarrow> Inl ExitError
                  | Some p \<Rightarrow> Inr \<lparr>file_num = n, file_cur = 0, filename = fs, pcap = p\<rparr>)))"

text \<open>
  A packet is copied to the start of an array on the stack (\<open>junk\<close> is what the array held) and
  decoded there. libpcap promises \<open>caplen\<close> bytes; copying from fewer leaves the packet.
\<close>

definition pkt_time :: "pcap_pkthdr \<Rightarrow> dbl" where
  "pkt_time hdr = dbl_of_int (sint (ts_usec hdr)) div dbl_of_int 1000000 + dbl_of_int (sint (ts_sec hdr))"

definition decode_packet ::
    "byte list \<Rightarrow> pcap_pkthdr \<times> byte list \<Rightarrow> tuple_t \<Rightarrow> packet_stat \<Rightarrow> (packet_status \<times> tuple_t \<times> packet_stat) res" where
  "decode_packet junk = (\<lambda>(hdr, pkt) p st.
     let pkt_len = (if hdr_caplen hdr < MAX_CAPLEN then hdr_caplen hdr else MAX_CAPLEN)
     in if length pkt < unat pkt_len then Inl OutOfBounds
        else decode (take (unat pkt_len) pkt @ drop (unat pkt_len) junk) pkt_len (hdr_len hdr) (pkt_time hdr) p st)"

text \<open>
  \<open>adapter_next\<close>: the next packet of the current capture, or the first one of the next capture;
  \<open>None\<close> is the result -1.
\<close>

definition next_packet ::
    "'p pcap_lib \<Rightarrow> 'p dir_adapter \<Rightarrow> ((pcap_pkthdr \<times> byte list) option \<times> 'p dir_adapter) res" where
  "next_packet lib a =
     (case pcap_next lib (pcap a) of
        (Some pkt, p) \<Rightarrow> Inr (Some pkt, a\<lparr>pcap := p\<rparr>)
      | (None, p) \<Rightarrow>
          (let a1 = a\<lparr>pcap := p, file_cur := file_cur a + 1\<rparr>
           in if file_cur a1 < file_num a1 then
                (case pcap_open_offline lib (filename a1 ! file_cur a1) of None \<Rightarrow> Inl ExitError
                 | Some q \<Rightarrow> (let (r, q') = pcap_next lib q in Inr (r, a1\<lparr>pcap := q'\<rparr>)))
              else Inr (None, a1)))"

definition dir_adapter_next ::
    "'p pcap_lib \<Rightarrow> byte list \<Rightarrow> 'p dir_adapter \<Rightarrow> tuple_t \<Rightarrow> packet_stat \<Rightarrow>
     ((packet_status \<times> tuple_t \<times> packet_stat) option \<times> 'p dir_adapter) res" where
  "dir_adapter_next lib junk a p st =
     rbind (next_packet lib a) (\<lambda>(r, a').
       case r of None \<Rightarrow> Inr (None, a')
       | Some pkt \<Rightarrow> rbind (decode_packet junk pkt p st) (\<lambda>d. Inr (Some d, a')))"

section \<open>Preprocessing a trace\<close>

text \<open>
  The loop of \<^verbatim>\<open>trace_preprocess.c\<close>: the records of the valid packets go to the output file. It
  returns when the library runs out of packets; \<open>None\<close> is a loop that goes on forever. \<open>junk k\<close> is
  the content of the stack array when packet \<open>k\<close> is copied.
\<close>

partial_function (option) preprocess_loop ::
    "'p pcap_lib \<Rightarrow> (nat \<Rightarrow> byte list) \<Rightarrow> nat \<Rightarrow> 'p dir_adapter \<Rightarrow> tuple_t \<Rightarrow> packet_stat \<Rightarrow> byte list \<Rightarrow>
     (byte list \<times> packet_stat) res option" where
  [code]: "preprocess_loop lib junk k a p st out =
     (case dir_adapter_next lib (junk k) a p st of
        Inl e \<Rightarrow> Some (Inl e)
      | Inr (None, a') \<Rightarrow> Some (Inr (out, st))
      | Inr (Some (status, p', st'), a') \<Rightarrow>
          preprocess_loop lib junk (k + 1) a' p' st'
            (if status = STATUS_VALID then out @ tuple_bytes p' else out))"

definition trace_preprocess ::
    "'d iniparser \<Rightarrow> (string \<Rightarrow> string option) \<Rightarrow> 'p pcap_lib \<Rightarrow> (string \<Rightarrow> bool) \<Rightarrow> (nat \<Rightarrow> byte list) \<Rightarrow>
     packet_stat \<Rightarrow> string list \<Rightarrow> (string \<times> byte list \<times> packet_stat) res option" where
  "trace_preprocess ini fopen lib writable junk st argv =
     (let setup =
        (if length argv \<noteq> 2 then Inl ExitError
         else
           rbind (Config_Init ini (Some (argv ! 1))) (\<lambda>conf.
           rbind (conf_common_trace_dir ini conf) (\<lambda>dir.
           rbind (conf_common_pcap_list ini conf) (\<lambda>pcap_list.
           rbind (dir_adapter_init fopen lib dir pcap_list) (\<lambda>a.
           rbind (conf_common_record_file ini conf) (\<lambda>output_name.
           rbind (str_arg dir) (\<lambda>d. rbind (str_arg output_name) (\<lambda>f.
           rbind (sprintf_100 [St, St] [d, f]) (\<lambda>tmp.
             if writable tmp then Inr (a, tmp) else Inl ExitError)))))))))
      in case setup of
           Inl e \<Rightarrow> Some (Inl e)
         | Inr (a, tmp) \<Rightarrow>
             map_option (\<lambda>r. rbind r (\<lambda>(out, st'). Inr (tmp, out, st')))
               (preprocess_loop lib junk 0 a zero_tuple st []))"

section \<open>The preprocessed trace holds the valid packets\<close>

type_synonym packet = "pcap_pkthdr \<times> byte list"

text \<open>The packets of an opened capture, and those of the current capture and the ones after it.\<close>

fun delivers :: "'p pcap_lib \<Rightarrow> 'p \<Rightarrow> packet list \<Rightarrow> bool" where
  "delivers lib p [] \<longleftrightarrow> fst (pcap_next lib p) = None"
| "delivers lib p (x # xs) \<longleftrightarrow> fst (pcap_next lib p) = Some x \<and> delivers lib (snd (pcap_next lib p)) xs"

fun captures :: "'p pcap_lib \<Rightarrow> 'p dir_adapter \<Rightarrow> packet list \<Rightarrow> packet list list \<Rightarrow> bool" where
  "captures lib a ps [] \<longleftrightarrow> delivers lib (pcap a) ps \<and> file_num a \<le> file_cur a + 1"
| "captures lib a ps (qs # pss) \<longleftrightarrow> delivers lib (pcap a) ps \<and> file_cur a + 1 < file_num a \<and> qs \<noteq> [] \<and>
     (\<exists>q. pcap_open_offline lib (filename a ! (file_cur a + 1)) = Some q \<and>
        captures lib (a\<lparr>pcap := q, file_cur := file_cur a + 1\<rparr>) qs pss)"

text \<open>The records of the valid packets of a list, decoded one after the other.\<close>

fun decode_stream ::
    "(nat \<Rightarrow> byte list) \<Rightarrow> nat \<Rightarrow> packet list \<Rightarrow> tuple_t \<Rightarrow> packet_stat \<Rightarrow> (tuple_t list \<times> packet_stat) res" where
  "decode_stream junk k [] p st = Inr ([], st)"
| "decode_stream junk k (pkt # pkts) p st =
     rbind (decode_packet (junk k) pkt p st) (\<lambda>(status, p', st').
     rbind (decode_stream junk (k + 1) pkts p' st') (\<lambda>(ts, st'').
       Inr (if status = STATUS_VALID then p' # ts else ts, st'')))"

lemma captures_pcap:
  "captures lib a ps pss \<Longrightarrow> delivers lib p qs \<Longrightarrow> captures lib (a\<lparr>pcap := p\<rparr>) qs pss"
  by (cases pss) auto

lemma next_packet_captures:
  assumes "captures lib a ps pss" "ps @ concat pss = x # xs"
  shows "\<exists>a' ps' pss'. next_packet lib a = Inr (Some x, a') \<and> captures lib a' ps' pss' \<and> ps' @ concat pss' = xs"
proof (cases ps)
  case (Cons y ys)
  then have "delivers lib (pcap a) (y # ys)" using assms(1) by (cases pss) auto
  then obtain p where n: "pcap_next lib (pcap a) = (Some y, p)" "delivers lib p ys"
    by (cases "pcap_next lib (pcap a)") auto
  then have "next_packet lib a = Inr (Some y, a\<lparr>pcap := p\<rparr>)" by (simp add: next_packet_def)
  then show ?thesis using captures_pcap [OF assms(1) n(2)] assms(2) Cons by auto
next
  case Nil
  then obtain qs pss' where pss: "pss = qs # pss'" using assms(2) by (cases pss) auto
  then obtain q where c: "pcap_open_offline lib (filename a ! (file_cur a + 1)) = Some q"
    "captures lib (a\<lparr>pcap := q, file_cur := file_cur a + 1\<rparr>) qs pss'" "file_cur a + 1 < file_num a" "qs \<noteq> []"
    "fst (pcap_next lib (pcap a)) = None" using assms(1) Nil by auto
  obtain y ys where qs: "qs = y # ys" using c(4) by (cases qs) auto
  let ?a = "a\<lparr>pcap := q, file_cur := file_cur a + 1\<rparr>"
  have "delivers lib q (y # ys)" using c(2) qs by (cases pss') auto
  then have n: "fst (pcap_next lib q) = Some y" "delivers lib (snd (pcap_next lib q)) ys" by auto
  have "next_packet lib a = Inr (Some y, ?a\<lparr>pcap := snd (pcap_next lib q)\<rparr>)"
    using c(1,3,5) n(1) by (simp add: next_packet_def case_prod_beta Let_def split: option.split)
  then show ?thesis using captures_pcap [OF c(2) n(2)] assms(2) Nil pss qs by auto
qed

lemma next_packet_end:
  assumes "captures lib a [] []"
  shows "\<exists>a'. next_packet lib a = Inr (None, a')"
  using assms by (auto simp: next_packet_def case_prod_beta Let_def split: option.split)

lemma preprocess_loop_stream:
  assumes "captures lib a ps pss"
  shows "preprocess_loop lib junk k a p st out =
    Some (rbind (decode_stream junk k (ps @ concat pss) p st) (\<lambda>(ts, st'). Inr (out @ concat (map tuple_bytes ts), st')))"
  using assms
proof (induction "ps @ concat pss" arbitrary: a ps pss k p st out)
  case Nil
  then obtain a' where "next_packet lib a = Inr (None, a')"
    using next_packet_end [of lib a] by (cases pss) auto
  then show ?case by (subst preprocess_loop.simps) (simp add: dir_adapter_next_def flip: Nil.hyps)
next
  case (Cons x xs)
  obtain a' ps' pss' where n: "next_packet lib a = Inr (Some x, a')" "captures lib a' ps' pss'" "xs = ps' @ concat pss'"
    using next_packet_captures [OF Cons.prems Cons.hyps(2) [symmetric]] by blast
  show ?case
  proof (cases "decode_packet (junk k) x p st")
    case (Inl e)
    then show ?thesis using n(1) Cons.hyps(2)
      by (subst preprocess_loop.simps) (simp add: dir_adapter_next_def flip: Cons.hyps(2))
  next
    case (Inr d)
    obtain status p' st' where d: "d = (status, p', st')" by (cases d)
    show ?thesis using n(1) Inr d Cons.hyps(1) [OF n(3,2), of "k + 1" p' st'] n(3)
      by (subst preprocess_loop.simps)
        (auto simp: dir_adapter_next_def rbind_def case_prod_beta split: sum.split simp flip: Cons.hyps(2))
  qed
qed

lemma decode_record:
  assumes "decode pkt c l ts p st = Inr (status, p', st')"
  shows "flag p' = flag p" "status = STATUS_VALID \<Longrightarrow> pkt_ts p' = ts" "valid_pkt_cnt st' =
    valid_pkt_cnt st + (if status = STATUS_VALID then 1 else 0)"
proof -
  show "flag p' = flag p" "status = STATUS_VALID \<Longrightarrow> pkt_ts p' = ts"
    using assms unfolding decode_eq assign_fields_def by (auto simp: Let_def split: if_splits)
  have "valid_pkt_cnt (count_arrival c l ts st) = valid_pkt_cnt st" by (simp add: count_arrival_def Let_def)
  then show "valid_pkt_cnt st' = valid_pkt_cnt st + (if status = STATUS_VALID then 1 else 0)"
    using decode_statE(2) [OF assms] by (cases status) simp_all
qed

lemma decode_packet_decode:
  assumes "decode_packet junk pkt p st = Inr x"
  obtains bs c l where "decode bs c l (pkt_time (fst pkt)) p st = Inr x"
  using assms that unfolding decode_packet_def by (cases pkt) (fastforce simp: Let_def split: if_splits)

lemma decode_stream_records:
  assumes "decode_stream junk k pkts p st = Inr (ts, st')"
  shows "(\<forall>t \<in> set ts. flag t = flag p \<and> wf_dbl (pkt_ts t)) \<and>
    valid_pkt_cnt st' = valid_pkt_cnt st + of_nat (length ts)"
  using assms
proof (induction junk k pkts p st arbitrary: ts rule: decode_stream.induct)
  case (2 junk k pkt pkts p st)
  from 2(2) obtain status p' st1 where d: "decode_packet (junk k) pkt p st = Inr (status, p', st1)"
    and r: "rbind (decode_stream junk (k + 1) pkts p' st1) (\<lambda>(ts, st''). Inr (if status = STATUS_VALID then p' # ts else ts, st''))
      = Inr (ts, st')" by auto
  then obtain ts1 where s: "decode_stream junk (k + 1) pkts p' st1 = Inr (ts1, st')"
    "ts = (if status = STATUS_VALID then p' # ts1 else ts1)" by auto
  have "flag p' = flag p \<and> (status = STATUS_VALID \<longrightarrow> wf_dbl (pkt_ts p')) \<and>
      valid_pkt_cnt st1 = valid_pkt_cnt st + (if status = STATUS_VALID then 1 else 0)"
  proof -
    obtain bs c l where "decode bs c l (pkt_time (fst pkt)) p st = Inr (status, p', st1)"
      by (rule decode_packet_decode [OF d])
    moreover have "wf_dbl (pkt_time (fst pkt))" by (simp add: pkt_time_def plus_dbl_def wf_dadd)
    ultimately show ?thesis using decode_record by metis
  qed
  then show ?case using "2.IH" [OF s(1)] s(2) by auto
qed simp

text \<open>C23: preprocessing returns, and what it writes is read back. When libpcap delivers the packets of
  each capture of the list (none of them empty, except perhaps the first) and every packet is
  decoded, the loop ends, the output is the valid packets in the order of the captures, as many as
  the statistics count, every record has the flag of a normal record, and the replay of the
  output file gets exactly these records, as far as its buffer reaches.
\<close>

theorem preprocess_then_replay:
  assumes "captures lib a ps pss" "decode_stream junk 0 (ps @ concat pss) zero_tuple st = Inr (ts, st')"
  shows "preprocess_loop lib junk 0 a zero_tuple st [] = Some (Inr (concat (map tuple_bytes ts), st')) \<and>
    valid_pkt_cnt st' = valid_pkt_cnt st + of_nat (length ts) \<and> (\<forall>t \<in> set ts. flag t = TUPLE_NORMAL) \<and>
    (fopen (dir @ file) = Some (concat (map tuple_bytes ts)) \<and> length dir + length file < 1024 \<longrightarrow>
       (\<exists>ad. adapter_init fopen (Some dir) (Some file) buf_size = Inr ad \<and>
          adapter_records ad = take (unat buf_size div 26) ts))"
proof -
  have r: "\<forall>t \<in> set ts. flag t = TUPLE_NORMAL \<and> wf_dbl (pkt_ts t)"
    "valid_pkt_cnt st' = valid_pkt_cnt st + of_nat (length ts)"
    using decode_stream_records [OF assms(2)] by (auto simp: zero_tuple_def TUPLE_NORMAL_def)
  then show ?thesis
    using preprocess_loop_stream [OF assms(1), of junk 0 zero_tuple st "[]"] assms(2)
      adapter_replays_gen [of fopen dir "file" ts buf_size] by auto
qed

text \<open>Two captures of one UDP frame each.\<close>

definition demo_packet :: packet where
  "demo_packet = (\<lparr>ts_sec = 1, ts_usec = 0, hdr_caplen = 28, hdr_len = 28\<rparr>, udp_frame)"

definition demo_pcap :: "packet list pcap_lib" where
  "demo_pcap = \<lparr>pcap_open_offline = (\<lambda>name. Some [demo_packet]),
     pcap_next = (\<lambda>ps. case ps of [] \<Rightarrow> (None, []) | x # xs \<Rightarrow> (Some x, xs))\<rparr>"

definition demo_adapter :: "packet list dir_adapter" where
  "demo_adapter = \<lparr>file_num = 2, file_cur = 0, filename = [''a'', ''b''], pcap = [demo_packet]\<rparr>"

lemma demo_pkt_time: "pkt_time (fst demo_packet) = 1"
  by code_simp

lemma assign_fields_other:
  assumes "flag q = flag p"
  shows "assign_fields h ts q = assign_fields h ts p"
  using assms by (cases p; cases q) (simp add: assign_fields_def Let_def)

lemma decode_other:
  assumes "decode pkt c l ts p st = Inr (STATUS_VALID, p', st1)" "flag q = flag p"
  shows "\<exists>st2. decode pkt c l ts q st' = Inr (STATUS_VALID, p', st2)"
  using assms(1) unfolding decode_eq Let_def by (auto simp: assign_fields_other [OF assms(2)] split: if_splits)

lemma demo_decode:
  assumes "flag p = 0"
  shows "\<exists>st'. decode_packet (replicate 28 0) demo_packet p st = Inr (STATUS_VALID, udp_tuple, st')"
proof -
  have f: "take 28 udp_frame = udp_frame" "length udp_frame = 28" by (simp_all add: udp_frame_def)
  have "\<exists>st'. decode udp_frame 28 28 1 p st = Inr (STATUS_VALID, udp_tuple, st')"
    using decode_udp_frame decode_other assms by (fastforce simp: zero_tuple_def)
  then show ?thesis
    using demo_pkt_time f by (simp add: decode_packet_def demo_packet_def MAX_CAPLEN_def)
qed

lemma demo_decode_stream:
  "\<exists>st'. decode_stream (\<lambda>k. replicate 28 0) 0 [demo_packet, demo_packet] zero_tuple reset_stat =
    Inr ([udp_tuple, udp_tuple], st')"
proof -
  obtain st1 where "decode_packet (replicate 28 0) demo_packet zero_tuple reset_stat = Inr (STATUS_VALID, udp_tuple, st1)"
    using demo_decode [of zero_tuple reset_stat] by (auto simp: zero_tuple_def)
  moreover obtain st2 where "decode_packet (replicate 28 0) demo_packet udp_tuple st1 = Inr (STATUS_VALID, udp_tuple, st2)"
    using demo_decode [of udp_tuple st1] by (auto simp: udp_tuple_def)
  ultimately show ?thesis by simp
qed

lemma preprocess_then_replay_witness:
  "\<exists>st'. preprocess_loop demo_pcap (\<lambda>k. replicate 28 0) 0 demo_adapter zero_tuple reset_stat [] =
      Some (Inr (tuple_bytes udp_tuple @ tuple_bytes udp_tuple, st')) \<and>
    (\<exists>ad. adapter_init (\<lambda>name. Some (tuple_bytes udp_tuple @ tuple_bytes udp_tuple)) (Some ''d'') (Some ''f'') 1000
        = Inr ad \<and> adapter_records ad = [udp_tuple, udp_tuple])"
proof -
  have c: "captures demo_pcap demo_adapter [demo_packet] [[demo_packet]]"
    by (simp add: demo_pcap_def demo_adapter_def)
  obtain st' where "decode_stream (\<lambda>k. replicate 28 0) 0 [demo_packet, demo_packet] zero_tuple reset_stat =
    Inr ([udp_tuple, udp_tuple], st')" using demo_decode_stream by blast
  then show ?thesis
    using preprocess_then_replay [OF c, of "\<lambda>k. replicate 28 0" reset_stat "[udp_tuple, udp_tuple]" st'
        "\<lambda>name. Some (tuple_bytes udp_tuple @ tuple_bytes udp_tuple)" "''d''" "''f''" 1000]
    by simp
qed

end
