(* ===== verification/Driver.thy ===== *)
theory Driver
  imports Pipeline Adapter
begin

text \<open>
  What the data-plane programs \<^verbatim>\<open>dp_simulate.c\<close> and \<^verbatim>\<open>true_flows.c\<close> share: the loop of the main
  thread, which sends every record to the worker and marks the end of a time interval with a
  record of flag \<open>TUPLE_PUNC\<close> and the end of the trace with one of flag \<open>TUPLE_TERM\<close>, and the
  protocol of the worker; and the table of processors of \<^verbatim>\<open>cpu.c\<close>. \<open>cut\<close> is what the loop does to a trace: a list of groups of records, one
  for each output of the worker.

  Each program runs with one worker. The clock readings and the local sums of the loop go into
  nothing but a statistic that is not printed, and are left out.
\<close>

section \<open>Processors\<close>

text \<open>The initialiser names eight of the fifteen elements, the others are zero.\<close>

definition pin_array :: "int list" where
  "pin_array = [0, 4, 1, 5, 2, 6, 3, 7] @ replicate 7 0"

text \<open>The processor a thread is pinned to; setting the affinity is a system call.\<close>

definition pin_thread :: "int \<Rightarrow> int res" where
  "pin_thread i = (if i < 0 \<or> int (length pin_array) \<le> i then Inl OutOfBounds else Inr (pin_array ! nat i))"

text \<open>\<open>if (is_pin_cpu) pin_thread(i)\<close>, as the main thread and the workers do.\<close>

definition pin_if :: "bool \<Rightarrow> int \<Rightarrow> int res" where
  "pin_if is_pin i = (if is_pin then pin_thread i else Inr 0)"

section \<open>The main thread\<close>

text \<open>
  \<open>(unsigned long long)(t.pkt_ts * 1000 / interval_len)\<close>: all in \<open>double\<close>; a value the type cannot
  hold is undefined.
\<close>

fun u64_of_dbl :: "dbl \<Rightarrow> u64 res" where
  "u64_of_dbl (Fin s m e) =
     (let k = dtrunc s m e in if 0 \<le> k \<and> k < 2 ^ 64 then Inr (word_of_int k) else Inl OutOfBounds)"
| "u64_of_dbl x = Inl OutOfBounds"

definition interval_of :: "u64 \<Rightarrow> tuple_t \<Rightarrow> u64 res" where
  "interval_of interval_len t =
     u64_of_dbl (pkt_ts t * dbl_of_int 1000 div dbl_of_int (uint interval_len))"

text \<open>
  The loop over the records: the actions of the main thread, and the record in its variable \<open>t\<close> at
  the end. \<open>prev\<close> is \<open>last_interval\<close>.
\<close>

fun send_records ::
    "u64 \<Rightarrow> u64 \<Rightarrow> tuple_t \<Rightarrow> tuple_t list \<Rightarrow> (tuple_t pact list \<times> tuple_t) res" where
  "send_records interval_len prev t0 [] = Inr ([], t0)"
| "send_records interval_len prev t0 (t # ts) =
     rbind (interval_of interval_len t) (\<lambda>cur.
       if prev = 0 then
         rbind (send_records interval_len cur t ts) (\<lambda>(as, t'). Inr (PWrite t # as, t'))
       else if prev < cur then
         let p = t\<lparr>flag := TUPLE_PUNC\<rparr>; n = p\<lparr>flag := TUPLE_NORMAL\<rparr>
         in rbind (send_records interval_len cur n ts) (\<lambda>(as, t').
              Inr (PWrite p # PFlush # PWait # PWrite n # as, t'))
       else rbind (send_records interval_len prev t ts) (\<lambda>(as, t'). Inr (PWrite t # as, t')))"

definition main_actions :: "u64 \<Rightarrow> tuple_t list \<Rightarrow> tuple_t pact list res" where
  "main_actions interval_len ts =
     rbind (send_records interval_len 0 zero_tuple ts) (\<lambda>(as, t).
       Inr (as @ [PWrite (t\<lparr>flag := TUPLE_TERM\<rparr>), PFlush]))"

section \<open>The trace in groups\<close>

fun push :: "'a \<Rightarrow> 'a list list \<Rightarrow> 'a list list" where
  "push x [] = [[x]]"
| "push x (g # gs) = (x # g) # gs"

fun cut :: "('a \<Rightarrow> u64) \<Rightarrow> u64 \<Rightarrow> 'a list \<Rightarrow> 'a list list" where
  "cut f prev [] = [[]]"
| "cut f prev (t # ts) =
     (if prev = 0 then push t (cut f (f t) ts)
      else if prev < f t then [] # push t (cut f (f t) ts)
      else push t (cut f prev ts))"

lemma push_Cons: "gs \<noteq> [] \<Longrightarrow> push x gs = (x # hd gs) # tl gs"
  by (cases gs) auto

lemma cut_nonempty [simp]: "cut f prev ts \<noteq> []"
  by (cases ts) (auto simp: push_Cons elim: push.elims)

lemma concat_push [simp]: "concat (push x gs) = x # concat gs"
  by (cases gs) auto

lemma concat_cut [simp]: "concat (cut f prev ts) = ts"
  by (induction f prev ts rule: cut.induct) auto

text \<open>
  On a trace in time order without records of interval 0, the groups are the intervals: within a
  group the interval is the same, from a group to the next it grows, and no group is empty (unless
  the trace is).
\<close>

fun grouped :: "('a \<Rightarrow> u64) \<Rightarrow> 'a list list \<Rightarrow> bool" where
  "grouped f [] = True"
| "grouped f (g # gs) \<longleftrightarrow> g \<noteq> [] \<and> grouped f gs \<and>
     (\<exists>v. (\<forall>t \<in> set g. f t = v) \<and> (\<forall>h \<in> set gs. \<forall>t \<in> set h. v < f t))"

definition group_of :: "('a \<Rightarrow> u64) \<Rightarrow> u64 \<Rightarrow> 'a list list \<Rightarrow> bool" where
  "group_of f v gs \<longleftrightarrow> (\<exists>g gs'. gs = g # gs' \<and> (\<forall>t \<in> set g. f t = v) \<and> grouped f gs' \<and>
     (\<forall>h \<in> set gs'. \<forall>t \<in> set h. v < f t))"

lemma group_of_push: "group_of f v gs \<Longrightarrow> f t = v \<Longrightarrow> group_of f v (push t gs) \<and> grouped f (push t gs)"
  unfolding group_of_def by force

lemma group_of_Nil: "group_of f v gs \<Longrightarrow> grouped f gs \<Longrightarrow> u < v \<Longrightarrow> group_of f u ([] # gs)"
  unfolding group_of_def by auto (metis less_trans)

lemma cut_group_of:
  assumes "prev \<noteq> 0" "sorted (map f ts)" "\<forall>t \<in> set ts. prev \<le> f t"
  shows "group_of f prev (cut f prev ts)"
  using assms
proof (induction ts arbitrary: prev)
  case Nil
  show ?case by (simp add: group_of_def)
next
  case (Cons t ts)
  have s: "sorted (map f ts)" "\<forall>u \<in> set ts. f t \<le> f u" using Cons.prems(2) by auto
  show ?case
  proof (cases "prev < f t")
    case True
    then have "f t \<noteq> 0" by auto
    from group_of_push [OF Cons.IH [OF this s] refl] show ?thesis
      using True Cons.prems(1) group_of_Nil [of f "f t" _ prev] by simp
  next
    case False
    with Cons.prems(3) have "f t = prev" by auto
    with Cons.IH [OF Cons.prems(1) s(1)] s(2) have "group_of f prev (push t (cut f prev ts))"
      using group_of_push by metis
    then show ?thesis using False Cons.prems(1) by simp
  qed
qed

lemma cut_grouped:
  assumes "sorted (map f ts)" "0 \<notin> f ` set ts" "ts \<noteq> []"
  shows "grouped f (cut f 0 ts)"
proof -
  obtain t us where ts: "ts = t # us" using assms(3) by (cases ts) auto
  have "f t \<noteq> 0" "sorted (map f us)" "\<forall>u \<in> set us. f t \<le> f u"
    using assms(1,2) ts by (auto simp: image_iff)
  from group_of_push [OF cut_group_of [OF this] refl] show ?thesis using ts by simp
qed

section \<open>The actions, group by group\<close>

text \<open>
  \<open>actions g0 pgs\<close>: the records of the first group, then for each further group the record that
  ends the previous one, a flush, a wait, and its own records.
\<close>

fun actions :: "'a list \<Rightarrow> ('a \<times> 'a list) list \<Rightarrow> 'a pact list" where
  "actions g0 [] = map PWrite g0"
| "actions g0 ((p, g) # pgs) = map PWrite g0 @ PWrite p # PFlush # PWait # actions g pgs"

fun records :: "'a list \<Rightarrow> ('a \<times> 'a list) list \<Rightarrow> 'a list" where
  "records g0 [] = g0"
| "records g0 ((p, g) # pgs) = g0 @ p # records g pgs"

lemma writes_PWrite [simp]: "writes (map PWrite xs) = xs" "waits (map PWrite xs) = 0"
  by (induction xs) auto

lemma writes_actions [simp]: "writes (actions g0 pgs) = records g0 pgs" "waits (actions g0 pgs) = length pgs"
  by (induction g0 pgs rule: actions.induct) auto

lemma actions_Cons: "actions (x # g0) pgs = PWrite x # actions g0 pgs"
  by (cases pgs) auto

definition cur_of :: "u64 \<Rightarrow> tuple_t \<Rightarrow> u64" where
  "cur_of interval_len t = projr (interval_of interval_len t)"

lemma send_records_actions:
  assumes "send_records len prev t0 ts = Inr (as, t')" "\<forall>t \<in> set ts. flag t = TUPLE_NORMAL"
  shows "\<exists>g0 pgs. as = actions g0 pgs \<and> cut (cur_of len) prev ts = g0 # map snd pgs \<and>
    (\<forall>(p, g) \<in> set pgs. flag p = TUPLE_PUNC)"
  using assms
proof (induction ts arbitrary: prev t0 as)
  case Nil
  then show ?case by (intro exI [of _ "[]"]) auto
next
  case (Cons t ts)
  from Cons.prems(1) obtain cur where cur: "interval_of len t = Inr cur" by (auto simp: rbind_Inr_iff)
  then have c: "cur_of len t = cur" by (simp add: cur_of_def)
  have n: "\<forall>t \<in> set ts. flag t = TUPLE_NORMAL" and t: "t\<lparr>flag := TUPLE_PUNC\<rparr>\<lparr>flag := TUPLE_NORMAL\<rparr> = t"
    using Cons.prems(2) by auto
  consider "prev = 0" | "prev \<noteq> 0" "prev < cur" | "prev \<noteq> 0" "\<not> prev < cur" by blast
  then show ?case
  proof cases
    case 1
    with Cons.prems(1) cur obtain bs where b: "send_records len cur t ts = Inr (bs, t')" "as = PWrite t # bs" by auto
    from Cons.IH [OF b(1) n] obtain g0 pgs where g: "bs = actions g0 pgs"
      "cut (cur_of len) cur ts = g0 # map snd pgs" "\<forall>(p, g) \<in> set pgs. flag p = TUPLE_PUNC" by blast
    then show ?thesis using 1 c b(2) by (intro exI [of _ "t # g0"] exI [of _ pgs]) (simp add: actions_Cons)
  next
    case 2
    with Cons.prems(1) cur t obtain bs where b: "send_records len cur t ts = Inr (bs, t')"
      "as = PWrite (t\<lparr>flag := TUPLE_PUNC\<rparr>) # PFlush # PWait # PWrite t # bs"
      by (auto simp: Let_def)
    from Cons.IH [OF b(1) n] obtain g0 pgs where g: "bs = actions g0 pgs"
      "cut (cur_of len) cur ts = g0 # map snd pgs" "\<forall>(p, g) \<in> set pgs. flag p = TUPLE_PUNC" by blast
    then show ?thesis using 2 c b(2)
      by (intro exI [of _ "[]"] exI [of _ "(t\<lparr>flag := TUPLE_PUNC\<rparr>, t # g0) # pgs"]) (simp add: actions_Cons)
  next
    case 3
    with Cons.prems(1) cur obtain bs where b: "send_records len prev t ts = Inr (bs, t')" "as = PWrite t # bs" by auto
    from Cons.IH [OF b(1) n] obtain g0 pgs where g: "bs = actions g0 pgs"
      "cut (cur_of len) prev ts = g0 # map snd pgs" "\<forall>(p, g) \<in> set pgs. flag p = TUPLE_PUNC" by blast
    then show ?thesis using 3 c b(2) by (intro exI [of _ "t # g0"] exI [of _ pgs]) (simp add: actions_Cons)
  qed
qed

lemma split_at_first:
  assumes "xs @ y # zs = a @ y # b" "y \<notin> set xs"
  shows "a = xs \<or> (\<exists>a'. a = xs @ y # a' \<and> zs = a' @ y # b)"
  using assms by (induction xs arbitrary: a) (auto simp: Cons_eq_append_conv)

lemma actions_wait:
  assumes "actions g0 pgs @ [PWrite x, PFlush] = a @ PWait # b"
  shows "\<exists>us p g vs. pgs = us @ (p, g) # vs \<and> a = actions g0 us @ [PWrite p, PFlush]"
  using assms
proof (induction pgs arbitrary: g0 a)
  case Nil
  have "PWait \<in> set (a @ PWait # b)" by simp
  then show ?case unfolding Nil [symmetric] by auto
next
  case (Cons pg pgs)
  obtain p g where pg: "pg = (p, g)" by fastforce
  have "(map PWrite g0 @ [PWrite p, PFlush]) @ PWait # (actions g pgs @ [PWrite x, PFlush]) = a @ PWait # b"
    using Cons.prems pg by simp
  from split_at_first [OF this] consider "a = map PWrite g0 @ [PWrite p, PFlush]"
    | a' where "a = map PWrite g0 @ [PWrite p, PFlush] @ PWait # a'" "actions g pgs @ [PWrite x, PFlush] = a' @ PWait # b"
    by fastforce
  then show ?case
  proof cases
    case 1
    then show ?thesis using pg by (intro exI [of _ "[]"]) auto
  next
    case 2
    from Cons.IH [OF 2(2)] obtain us q h vs where "pgs = us @ (q, h) # vs" "a' = actions g us @ [PWrite q, PFlush]" by blast
    then show ?thesis using 2(1) pg by (intro exI [of _ "(p, g) # us"]) auto
  qed
qed

section \<open>The worker's protocol\<close>

text \<open>
  What the main thread relies on: the worker goes on after a normal record without a post, posts
  once after the record that ends an interval, and stops at the record that ends the trace (or the
  process ends).
\<close>

locale interval_worker =
  fixes handle :: "'w \<Rightarrow> tuple_t \<Rightarrow> 'w outcome"
  assumes on_term: "flag t = TUPLE_TERM \<Longrightarrow> (\<exists>w'. handle w t = Stop w') \<or> (\<exists>e. handle w t = Crash e)"
    and on_punc: "flag t = TUPLE_PUNC \<Longrightarrow> (\<exists>w'. handle w t = Go w' 1) \<or> (\<exists>e. handle w t = Crash e)"
    and on_record: "flag t = TUPLE_NORMAL \<Longrightarrow> \<exists>w'. handle w t = Go w' 0 \<or> (\<exists>e. handle w t = Crash e)"
begin

lemma run_group:
  "\<forall>t \<in> set g. flag t = TUPLE_NORMAL \<Longrightarrow>
    (\<exists>w'. run_worker handle (Running w) g = (Running w', 0)) \<or> (\<exists>e n. run_worker handle (Running w) g = (Failed e, n))"
proof (induction g arbitrary: w)
  case (Cons t g)
  then consider w' where "handle w t = Go w' 0" | e where "handle w t = Crash e" using on_record by fastforce
  then show ?case
  proof cases
    case (1 w')
    then show ?thesis using Cons.IH [of w'] Cons.prems by auto
  qed simp
qed simp

lemma run_records:
  assumes "\<forall>t \<in> set g0. flag t = TUPLE_NORMAL" "\<forall>(p, g) \<in> set pgs. flag p = TUPLE_PUNC \<and> (\<forall>t \<in> set g. flag t = TUPLE_NORMAL)"
  shows "(\<exists>w'. run_worker handle (Running w) (records g0 pgs) = (Running w', length pgs)) \<or>
    (\<exists>e n. run_worker handle (Running w) (records g0 pgs) = (Failed e, n))"
  using assms
proof (induction pgs arbitrary: g0 w)
  case Nil
  then show ?case using run_group by simp
next
  case (Cons pg pgs)
  obtain p g where pg: "pg = (p, g)" by fastforce
  from run_group [OF Cons.prems(1), of w] show ?case
  proof (elim disjE exE)
    fix w1 assume r: "run_worker handle (Running w) g0 = (Running w1, 0)"
    consider w2 where "handle w1 p = Go w2 1" | e where "handle w1 p = Crash e"
      using on_punc [of p w1] Cons.prems(2) pg by auto
    then show ?thesis
    proof cases
      case (1 w2)
      with Cons.IH [of g w2] Cons.prems(2) pg r show ?thesis by (auto simp: run_worker_append)
    next
      case 2
      with r pg show ?thesis by (simp add: run_worker_append)
    qed
  next
    fix e n assume "run_worker handle (Running w) g0 = (Failed e, n)"
    then show ?thesis using pg by (simp add: run_worker_append run_worker_done)
  qed
qed

text \<open>The records sent so far never stop the worker.\<close>

lemma run_prefix:
  assumes "\<forall>t \<in> set xs. flag t \<in> {TUPLE_NORMAL, TUPLE_PUNC}"
  shows "fst (run_worker handle (Running w) xs) \<noteq> Finished w'"
  using assms
proof (induction xs arbitrary: w)
  case (Cons t xs)
  then show ?case using on_punc [of t w] on_record [of t w] by (fastforce simp: case_prod_beta Let_def)
qed simp

lemma main_feeds:
  assumes "\<forall>t \<in> set g0. flag t = TUPLE_NORMAL" "\<forall>(p, g) \<in> set pgs. flag p = TUPLE_PUNC \<and> (\<forall>t \<in> set g. flag t = TUPLE_NORMAL)"
    and "flag x = TUPLE_TERM"
  shows "feeds handle (Running w) (actions g0 pgs @ [PWrite x, PFlush])"
proof -
  let ?as = "actions g0 pgs @ [PWrite x, PFlush]" and ?run = "run_worker handle (Running w)"
  have "(\<exists>a'. a = a' @ [PFlush]) \<and> (\<not> alive (fst (?run (writes a))) \<or> waits a < snd (?run (writes a)))"
    if ab: "?as = a @ PWait # b" for a b
  proof -
    obtain us p g vs where u: "pgs = us @ (p, g) # vs" "a = actions g0 us @ [PWrite p, PFlush]"
      using actions_wait [OF ab] by blast
    have us: "\<forall>(p, g) \<in> set us. flag p = TUPLE_PUNC \<and> (\<forall>t \<in> set g. flag t = TUPLE_NORMAL)"
      using assms(2) u(1) by auto
    have "\<not> alive (fst (?run (records g0 us @ [p]))) \<or> length us < snd (?run (records g0 us @ [p]))"
      using run_records [OF assms(1) us, of w]
    proof (elim disjE exE)
      fix w' assume "?run (records g0 us) = (Running w', length us)"
      moreover have "(\<exists>w2. handle w' p = Go w2 1) \<or> (\<exists>e. handle w' p = Crash e)"
        using on_punc [of p w'] assms(2) u(1) by auto
      ultimately show ?thesis by (auto simp: run_worker_append)
    next
      fix e n assume "?run (records g0 us) = (Failed e, n)"
      then show ?thesis by (simp add: run_worker_append run_worker_done)
    qed
    then show ?thesis using u(2) by simp
  qed
  moreover have "fst (?run (writes ?as)) \<noteq> Running w'" for w'
    using run_records [OF assms(1,2), of w]
  proof (elim disjE exE)
    fix w1 assume "?run (records g0 pgs) = (Running w1, length pgs)"
    then show ?thesis using on_term [OF assms(3), of w1] by (auto simp: run_worker_append)
  next
    fix e n assume "?run (records g0 pgs) = (Failed e, n)"
    then show ?thesis by (simp add: run_worker_append run_worker_done)
  qed
  moreover have "fst (?run xs) \<noteq> Finished w'" if "writes ?as = xs @ y # ys" for xs y ys w'
  proof (rule run_prefix)
    have "xs @ butlast (y # ys) = records g0 pgs"
      using arg_cong [OF that, of butlast] by (simp add: butlast_append)
    moreover have "\<forall>t \<in> set (records g0 pgs). flag t \<in> {TUPLE_NORMAL, TUPLE_PUNC}"
      using assms(1,2) by (induction g0 pgs rule: records.induct) auto
    ultimately show "\<forall>t \<in> set xs. flag t \<in> {TUPLE_NORMAL, TUPLE_PUNC}" by (metis UnCI set_append)
  qed
  ultimately show ?thesis unfolding feeds_def fed_waits_def runs_on_def by (intro conjI allI impI) simp_all
qed

end

section \<open>Workers that write a file for each group\<close>

text \<open>
  \<open>mid i g fs w\<close>: the worker has handled the records \<open>g\<close> of group \<open>i\<close> and written \<open>fs\<close>;
  \<open>fits i g\<close>: the group can be handled without ending the process; \<open>good_file i g f\<close>: \<open>f\<close> is a right
  file for it.
\<close>

locale group_worker = interval_worker handle
  for handle :: "'w \<Rightarrow> tuple_t \<Rightarrow> 'w outcome" +
  fixes mid :: "nat \<Rightarrow> tuple_t list \<Rightarrow> 'f list \<Rightarrow> 'w \<Rightarrow> bool"
    and fits :: "nat \<Rightarrow> tuple_t list \<Rightarrow> bool"
    and good_file :: "nat \<Rightarrow> tuple_t list \<Rightarrow> 'f \<Rightarrow> bool"
    and written :: "'w \<Rightarrow> 'f list"
  assumes mid_record: "mid i g fs w \<Longrightarrow> fits i (g @ [t]) \<Longrightarrow> flag t = TUPLE_NORMAL \<Longrightarrow>
      \<exists>w'. handle w t = Go w' 0 \<and> mid i (g @ [t]) fs w'"
    and fits_prefix: "fits i (g @ h) \<Longrightarrow> fits i g"
    and mid_punc: "mid i g fs w \<Longrightarrow> fits i g \<Longrightarrow> flag t = TUPLE_PUNC \<Longrightarrow>
      \<exists>w' f. handle w t = Go w' 1 \<and> good_file i g f \<and> mid (Suc i) [] (fs @ [f]) w'"
    and mid_term: "mid i g fs w \<Longrightarrow> fits i g \<Longrightarrow> flag t = TUPLE_TERM \<Longrightarrow>
      \<exists>w' f. handle w t = Stop w' \<and> good_file i g f \<and> written w' = fs @ [f]"
begin

lemma mid_records:
  assumes "mid i g fs w" "fits i (g @ h)" "\<forall>t \<in> set h. flag t = TUPLE_NORMAL"
  shows "\<exists>w'. run_worker handle (Running w) h = (Running w', 0) \<and> mid i (g @ h) fs w'"
  using assms
proof (induction h arbitrary: g w)
  case (Cons t h)
  have "fits i (g @ [t])" using fits_prefix [of i "g @ [t]" h] Cons.prems(2) by simp
  then obtain w1 where "handle w t = Go w1 0" "mid i (g @ [t]) fs w1"
    using mid_record [OF Cons.prems(1)] Cons.prems(3) by auto
  then show ?case using Cons.IH [of "g @ [t]" w1] Cons.prems(2,3) by auto
qed auto

lemma groups_written:
  assumes "mid i [] fs w" "\<forall>k < Suc (length pgs). fits (i + k) ((g0 # map snd pgs) ! k)"
    and "\<forall>t \<in> set g0. flag t = TUPLE_NORMAL"
    and "\<forall>(p, g) \<in> set pgs. flag p = TUPLE_PUNC \<and> (\<forall>t \<in> set g. flag t = TUPLE_NORMAL)" "flag x = TUPLE_TERM"
  shows "\<exists>w' hs. fst (run_worker handle (Running w) (records g0 pgs @ [x])) = Finished w' \<and>
    written w' = fs @ hs \<and> length hs = Suc (length pgs) \<and>
    (\<forall>k < Suc (length pgs). good_file (i + k) ((g0 # map snd pgs) ! k) (hs ! k))"
  using assms
proof (induction pgs arbitrary: i g0 fs w)
  case Nil
  then have o: "fits i g0" by simp
  obtain w1 where w1: "run_worker handle (Running w) g0 = (Running w1, 0)" "mid i g0 fs w1"
    using mid_records [OF Nil.prems(1), of g0] o Nil.prems(3) by auto
  from mid_term [OF w1(2) o Nil.prems(5)] obtain w' f where
    "handle w1 x = Stop w'" "good_file i g0 f" "written w' = fs @ [f]" by blast
  then show ?case using w1(1) by (intro exI [of _ w'] exI [of _ "[f]"]) (simp add: run_worker_append)
next
  case (Cons pg pgs)
  obtain p g where pg: "pg = (p, g)" by fastforce
  have o: "fits i g0" using Cons.prems(2) by fastforce
  obtain w1 where w1: "run_worker handle (Running w) g0 = (Running w1, 0)" "mid i g0 fs w1"
    using mid_records [OF Cons.prems(1), of g0] o Cons.prems(3) by auto
  have p: "flag p = TUPLE_PUNC" using Cons.prems(4) pg by auto
  from mid_punc [OF w1(2) o p] obtain w2 f where
    w2: "handle w1 p = Go w2 1" "good_file i g0 f" "mid (Suc i) [] (fs @ [f]) w2" by blast
  have rest: "\<forall>k < Suc (length pgs). fits (Suc i + k) ((g # map snd pgs) ! k)"
  proof (intro allI impI)
    fix k assume "k < Suc (length pgs)"
    then show "fits (Suc i + k) ((g # map snd pgs) ! k)" using Cons.prems(2) [rule_format, of "Suc k"] pg by simp
  qed
  from Cons.IH [OF w2(3) rest] Cons.prems(4,5) pg obtain w' hs where
    r: "fst (run_worker handle (Running w2) (records g pgs @ [x])) = Finished w'" "written w' = (fs @ [f]) @ hs"
    "length hs = Suc (length pgs)" "\<forall>k < Suc (length pgs). good_file (Suc i + k) ((g # map snd pgs) ! k) (hs ! k)" by auto
  have "good_file (i + k) ((g0 # map snd (pg # pgs)) ! k) ((f # hs) ! k)" if "k < Suc (length (pg # pgs))" for k
    using that r(4) w2(2) pg by (cases k) auto
  then show ?case using w1(1) w2(1) r(1-3) pg
    by (intro exI [of _ w'] exI [of _ "f # hs"]) (auto simp: run_worker_append case_prod_beta Let_def)
qed

end

section \<open>Data planes\<close>

lemma main_actions_shape:
  assumes "main_actions len ts = Inr as" "\<forall>t \<in> set ts. flag t = TUPLE_NORMAL"
  shows "\<exists>g0 pgs x. as = actions g0 pgs @ [PWrite x, PFlush] \<and> cut (cur_of len) 0 ts = g0 # map snd pgs \<and>
    (\<forall>t \<in> set g0. flag t = TUPLE_NORMAL) \<and>
    (\<forall>(p, g) \<in> set pgs. flag p = TUPLE_PUNC \<and> (\<forall>t \<in> set g. flag t = TUPLE_NORMAL)) \<and> flag x = TUPLE_TERM"
proof -
  obtain bs t' where b: "send_records len 0 zero_tuple ts = Inr (bs, t')"
    "as = bs @ [PWrite (t'\<lparr>flag := TUPLE_TERM\<rparr>), PFlush]" using assms(1) by (auto simp: main_actions_def)
  from send_records_actions [OF b(1) assms(2)] obtain g0 pgs where g: "bs = actions g0 pgs"
    "cut (cur_of len) 0 ts = g0 # map snd pgs" "\<forall>(p, g) \<in> set pgs. flag p = TUPLE_PUNC" by blast
  have "ts = concat (g0 # map snd pgs)" unfolding g(2) [symmetric] by simp
  then have "set ts = set g0 \<union> (\<Union>pg \<in> set pgs. set (snd pg))" by simp
  then show ?thesis using assms(2) g b(2)
    by (intro exI [of _ g0] exI [of _ pgs] exI [of _ "t'\<lparr>flag := TUPLE_TERM\<rparr>"]) fastforce
qed

lemma length_send_records:
  "send_records len prev t0 ts = Inr (as, t') \<Longrightarrow> length as \<le> 4 * length ts"
proof (induction ts arbitrary: prev t0 as)
  case (Cons t ts)
  from Cons.prems show ?case
    by (auto simp: Let_def rbind_Inr_iff split: if_splits dest!: Cons.IH)
qed simp

text \<open>A relation without long runs gets to an end.\<close>

lemma bounded_run_ends:
  assumes "\<And>n u. (R ^^ n) x u \<Longrightarrow> n \<le> k \<and> (P u \<or> (\<exists>v. R u v))"
  shows "\<exists>u. R\<^sup>*\<^sup>* x u \<and> P u"
proof (rule ccontr)
  assume none: "\<not> ?thesis"
  have "\<exists>u. (R ^^ n) x u" for n
  proof (induction n)
    case (Suc n)
    then obtain u where u: "(R ^^ n) x u" by blast
    then have "\<not> P u" using none by (metis relpowp_imp_rtranclp)
    then obtain v where "R u v" using assms [OF u] by blast
    then show ?case using u by auto
  qed simp
  then have "Suc k \<le> k" using assms by blast
  then show False by simp
qed

locale data_plane = pipeline inv contents visible send recv flush handle + interval_worker handle
  for inv :: "'s \<Rightarrow> bool" and contents :: "'s \<Rightarrow> tuple_t list" and visible :: "'s \<Rightarrow> nat"
    and send :: "'s \<Rightarrow> tuple_t \<Rightarrow> int \<times> 's" and recv :: "'s \<Rightarrow> tuple_t \<Rightarrow> int \<times> tuple_t \<times> 's"
    and flush :: "'s \<Rightarrow> 's" and handle :: "'w \<Rightarrow> tuple_t \<Rightarrow> 'w outcome"
begin

lemma program_runs:
  assumes "main_actions len ts = Inr as" "\<forall>t \<in> set ts. flag t = TUPLE_NORMAL"
    and "(sys_step send recv flush handle ^^ n) (init_sys c b w as) s" "inv c" "contents c = []"
  shows "n \<le> 2 * length as \<and> (at_end s \<or> (\<exists>t. sys_step send recv flush handle s t))"
proof -
  have "feeds handle (Running w) as" using main_actions_shape [OF assms(1,2)] main_feeds by blast
  then show ?thesis by (rule completes [OF assms(3-5)])
qed

lemma program_bound:
  assumes "main_actions len ts = Inr as" "\<forall>t \<in> set ts. flag t = TUPLE_NORMAL"
    and "(sys_step send recv flush handle ^^ n) (init_sys c b w as) s" "inv c" "contents c = []"
  shows "n \<le> 8 * length ts + 4 \<and> (at_end s \<or> (\<exists>t. sys_step send recv flush handle s t))"
proof -
  obtain bs t' where "send_records len 0 zero_tuple ts = Inr (bs, t')" "length as = length bs + 2"
    using assms(1) by (auto simp: main_actions_def)
  then have "length as \<le> 4 * length ts + 2" using length_send_records by fastforce
  then show ?thesis using program_runs [OF assms] by auto
qed

lemma program_ends:
  assumes "main_actions len ts = Inr as" "\<forall>t \<in> set ts. flag t = TUPLE_NORMAL" "inv c" "contents c = []"
  shows "\<exists>s. (sys_step send recv flush handle)\<^sup>*\<^sup>* (init_sys c b w as) s \<and> at_end s"
  by (rule bounded_run_ends) (rule program_bound [OF assms(1,2) _ assms(3,4)])

lemma program_result:
  assumes "(sys_step send recv flush handle)\<^sup>*\<^sup>* (init_sys c b w as) s" "inv c" "contents c = []" "at_end s"
  shows "fst (run_worker handle (Running w) (writes as)) = wk s"
  using worker_result [OF assms(1-3)] assms(4) by (auto simp: at_end_def)

end

end
