(* ===== verification/Hash.thy ===== *)
theory Hash
  imports Bytes
begin

text \<open>
  \<^verbatim>\<open>hash.c\<close>: the hash function, the seed generator with its process-wide seed, the byte
  permutation, and the search for the next prime. Pointers to byte arrays are the lists of the
  bytes they point to; \<open>rand()\<close> is a parameter (its first result), read once per process.
\<close>

section \<open>AwareHash\<close>

primrec aware_loop :: "byte list \<Rightarrow> u64 \<Rightarrow> u64 \<Rightarrow> u64" where
  "aware_loop [] scale hash = hash"
| "aware_loop (b # data) scale hash = aware_loop data scale (hash * scale + ucast b)"

definition AwareHash :: "byte list \<Rightarrow> nat \<Rightarrow> u64 \<Rightarrow> u64 \<Rightarrow> u64 \<Rightarrow> u64" where
  "AwareHash data n hash scale hardener = aware_loop (take n data) scale hash XOR hardener"

text \<open>
  The debug variant also prints, before each step, the remaining count, the hash, the scale and
  the byte, and the hash after it.
\<close>

fun aware_debug_loop ::
  "byte list \<Rightarrow> nat \<Rightarrow> u64 \<Rightarrow> u64 \<Rightarrow> (nat \<times> u64 \<times> u64 \<times> byte \<times> u64) list \<times> u64" where
  "aware_debug_loop (b # data) (Suc n) scale hash =
     (let hash' = hash * scale + ucast b; (out, h) = aware_debug_loop data n scale hash'
      in ((Suc n, hash, scale, b, hash') # out, h))"
| "aware_debug_loop data n scale hash = ([], hash)"

definition AwareHash_debug ::
  "byte list \<Rightarrow> nat \<Rightarrow> u64 \<Rightarrow> u64 \<Rightarrow> u64 \<Rightarrow> (nat \<times> u64 \<times> u64 \<times> byte \<times> u64) list \<times> u64" where
  "AwareHash_debug data n hash scale hardener =
     (let (out, h) = aware_debug_loop data n scale hash in (out, h XOR hardener))"

lemma aware_debug_loop_hash:
  "snd (aware_debug_loop data n scale hash) = aware_loop (take n data) scale hash"
  by (induction data n scale hash rule: aware_debug_loop.induct) (auto simp: Let_def split: prod.splits)

lemma AwareHash_take [simp]: "AwareHash (take n data) n = AwareHash data n"
  by (simp add: AwareHash_def fun_eq_iff)

text \<open>The loop is Horner's scheme: the state at the end is a polynomial in the scale.\<close>

primrec horner :: "byte list \<Rightarrow> u64 \<Rightarrow> u64" where
  "horner [] s = 0"
| "horner (b # bs) s = ucast b * s ^ length bs + horner bs s"

lemma aware_loop_horner: "aware_loop bs s h = h * s ^ length bs + horner bs s"
  by (induction bs arbitrary: h) (simp_all add: algebra_simps)

lemma horner_append: "horner (xs @ ys) s = horner xs s * s ^ length ys + horner ys s"
  by (induction xs) (simp_all add: algebra_simps power_add)

lemma xor_right_cancel: "a XOR k = b XOR k \<longleftrightarrow> a = b" for a b k :: u64
proof
  assume "a XOR k = b XOR k"
  then have "a XOR (k XOR k) = b XOR (k XOR k)" by (simp only: xor.assoc [symmetric])
  then show "a = b" by simp
qed simp

lemma AwareHash_eq_iff:
  "AwareHash xs n h s k = AwareHash ys n h s k \<longleftrightarrow>
     aware_loop (take n xs) s h = aware_loop (take n ys) s h"
  by (simp add: AwareHash_def xor_right_cancel)

lemma odd_word_power_cancel:
  fixes a b s :: u64
  assumes "odd s" and "a * s ^ k = b * s ^ k"
  shows "a = b"
proof -
  have "(a - b) * s ^ k = 0" using assms(2) by (simp add: algebra_simps)
  then have "word_of_int (uint (a - b) * uint (s ^ k)) = (0 :: u64)" by simp
  then have "2 ^ 64 dvd uint (a - b) * uint (s ^ k)"
    by (simp only: word_of_int_eq_0_iff take_bit_eq_0_iff) simp
  moreover have "odd (s ^ k)" using assms(1) by simp
  then have "bit (s ^ k) 0" by (simp only: bit_0 not_False_eq_True)
  then have "bit (uint (s ^ k)) 0" by (simp add: bit_unsigned_iff del: bit_0)
  then have "odd (uint (s ^ k))" by (simp only: bit_0 not_False_eq_True)
  ultimately have "2 ^ 64 dvd uint (a - b)"
    using odd_mult_dvd_pow2 by blast
  then have "uint (a - b) = 0"
    using uint_lt2p [of "a - b"] by (auto dest: zdvd_imp_le simp: less_le_not_le)
  then show ?thesis by (metis eq_iff_diff_eq_0 unsigned_eq_0_iff)
qed

lemma ucast_byte_inject: "ucast b = (ucast c :: u64) \<longleftrightarrow> b = c" for b c :: byte
proof
  assume eq: "ucast b = (ucast c :: u64)"
  show "b = c"
  proof (rule bit_word_eqI)
    fix n assume "n < LENGTH(8)"
    then show "bit b n = bit c n"
      using arg_cong [OF eq, of "\<lambda>w. bit w n"] by (simp add: bit_ucast_iff)
  qed
qed simp

lemma aware_loop_inj_hash:
  assumes "odd s" and "aware_loop bs s h = aware_loop bs s h'"
  shows "h = h'"
  using assms odd_word_power_cancel [OF assms(1), of h "length bs" h'] by (simp add: aware_loop_horner)

lemma AwareHash_one_byte_differs:
  assumes "odd s" "b \<noteq> c" "n = length p + Suc (length q)"
  shows "AwareHash (p @ b # q) n h s k \<noteq> AwareHash (p @ c # q) n h s k"
proof
  assume "AwareHash (p @ b # q) n h s k = AwareHash (p @ c # q) n h s k"
  then have "aware_loop q s (aware_loop p s h * s + ucast b)
    = aware_loop q s (aware_loop p s h * s + ucast c)"
    using assms(3) by (simp add: AwareHash_eq_iff aware_loop_horner horner_append algebra_simps)
  then have "aware_loop p s h * s + ucast b = aware_loop p s h * s + ucast c"
    by (rule aware_loop_inj_hash [OF assms(1)])
  with assms(2) show False by (simp add: ucast_byte_inject)
qed

section \<open>The byte permutation\<close>

text \<open>
  Both functions first reverse the key into the result and, for a 13-byte key, then overwrite
  all of it with a fixed permutation. \<open>ret\<close> is the caller's result buffer.
\<close>

definition mangle :: "byte list \<Rightarrow> byte list \<Rightarrow> nat \<Rightarrow> byte list" where
  "mangle key ret nbytes =
     (let r = for_upto nbytes (\<lambda>i r. r[i := key ! (nbytes - i - 1)]) ret
      in if nbytes = 13 then
        r[0 := key ! 5, 1 := key ! 11, 2 := key ! 7, 3 := key ! 6, 4 := key ! 1, 5 := key ! 9,
          6 := key ! 10, 7 := key ! 4, 8 := key ! 2, 9 := key ! 8, 10 := key ! 12,
          11 := key ! 0, 12 := key ! 3]
      else r)"

definition unmangle :: "byte list \<Rightarrow> byte list \<Rightarrow> nat \<Rightarrow> byte list" where
  "unmangle key ret nbytes =
     (let r = for_upto nbytes (\<lambda>i r. r[i := key ! (nbytes - i - 1)]) ret
      in if nbytes = 13 then
        r[0 := key ! 11, 1 := key ! 4, 2 := key ! 8, 3 := key ! 12, 4 := key ! 7, 5 := key ! 0,
          6 := key ! 3, 7 := key ! 2, 8 := key ! 9, 9 := key ! 5, 10 := key ! 6,
          11 := key ! 1, 12 := key ! 10]
      else r)"

lemma reverse_loop:
  assumes "length key = n" "length ret = n"
  shows "for_upto n (\<lambda>i r. r[i := key ! (n - i - 1)]) ret = rev key"
proof -
  have "for_upto n (\<lambda>i r. r[i := key ! (n - i - 1)]) ret = map (\<lambda>i. key ! (n - i - 1)) [0..<n]"
    using assms for_upto_list_update [of n ret "\<lambda>i _. key ! (n - i - 1)"] by simp
  also have "\<dots> = rev key"
    using assms(1) by (intro nth_equalityI) (auto simp: rev_nth)
  finally show ?thesis .
qed

lemma list13:
  assumes "length xs = 13"
  obtains a b c d e f g h i j k l m where "xs = [a, b, c, d, e, f, g, h, i, j, k, l, m]"
proof -
  have "xs = map ((!) xs) [0..<13]" using list_eq_upt_map [OF assms] by simp
  also have "[0..<13] = [0, 1, 2, 3, 4, 5, 6, 7, 8, 9, 10, 11, 12 :: nat]" by (simp add: upt_rec)
  finally show ?thesis by (intro that) simp
qed

lemma unmangle_mangle_id:
  assumes "length key = n" "length ret = n" "length ret' = n"
  shows "unmangle (mangle key ret n) ret' n = key"
proof (cases "n = 13")
  case True
  with assms(1) have "length key = 13" by simp
  then obtain a b c d e f g h i j k l m
    where key: "key = [a, b, c, d, e, f, g, h, i, j, k, l, m]" by (rule list13)
  have "mangle key ret n = [f, l, h, g, b, j, k, e, c, i, m, a, d]"
    unfolding mangle_def using reverse_loop [OF assms(1,2)] True key by simp
  moreover from this have "for_upto n (\<lambda>i r. r[i := mangle key ret n ! (n - i - 1)]) ret' =
    rev (mangle key ret n)"
    using True assms(3) by (intro reverse_loop) simp_all
  ultimately show ?thesis
    unfolding unmangle_def using True key by simp
next
  case False
  then have "mangle key ret n = rev key"
    unfolding mangle_def using reverse_loop [OF assms(1,2)] by simp
  moreover have "for_upto n (\<lambda>i r. r[i := rev key ! (n - i - 1)]) ret' = rev (rev key)"
    using assms by (intro reverse_loop) simp_all
  ultimately show ?thesis
    unfolding unmangle_def using False by simp
qed

section \<open>Seeds\<close>

text \<open>
  \<open>GenHashSeed\<close> fixes the global \<open>seed\<close> from \<open>rand()\<close> when it is still zero, then hashes the
  eight bytes of \<open>seed + index\<close> (\<open>index\<close> is an \<open>int\<close>, sign-extended). The permuted copy \<open>x\<close> is
  computed and never read. The result is the seed value and the new global.
\<close>

definition GenHashSeed :: "u64 \<Rightarrow> u64 \<Rightarrow> i32 \<Rightarrow> u64 \<times> u64" where
  "GenHashSeed rand seed index =
     (let seed' = (if seed = 0 then rand else seed);
          y = seed' + scast index;
          x = mangle (le_bytes 8 y) (replicate 8 0) 8
      in (AwareHash (le_bytes 8 y) 8 388650253 388650319 1176845762, seed'))"

lemma GenHashSeed_seed: "snd (GenHashSeed r seed index) = (if seed = 0 then r else seed)"
  by (simp add: GenHashSeed_def Let_def)

lemma GenHashSeed_fixed: "seed \<noteq> 0 \<Longrightarrow> GenHashSeed r seed index = GenHashSeed r' seed index"
  by (simp add: GenHashSeed_def)

lemma GenHashSeed_fixed_seed: "seed \<noteq> 0 \<Longrightarrow> snd (GenHashSeed r seed index) = seed"
  by (simp add: GenHashSeed_seed)

section \<open>Primes\<close>

text \<open>
  \<open>prime_loop num i\<close> is the loop of \<open>is_prime\<close> from \<open>i\<close> on: the value of \<open>i\<close> at its end.
  \<open>calc_next_prime\<close> increments an \<open>int\<close>; an increment of \<open>INT_MAX\<close> is undefined in C and is
  the error value here.
\<close>

function prime_loop :: "int \<Rightarrow> int \<Rightarrow> int" where
  "prime_loop num i =
     (if i < num then if num mod i = 0 then i else prime_loop num (i + 1) else i)"
  by pat_completeness auto
termination
  by (relation "measure (\<lambda>(num, i). nat (num - i))") auto

declare prime_loop.simps [simp del]

definition is_prime :: "int \<Rightarrow> int" where
  "is_prime num = (if prime_loop num 2 = num then 1 else 0)"

definition INT_MAX :: int where
  "INT_MAX = 2147483647"

function calc_next_prime :: "int \<Rightarrow> int res" where
  "calc_next_prime num =
     (if is_prime num \<noteq> 0 then Inr num
      else if num \<ge> INT_MAX then Inl OutOfBounds else calc_next_prime (num + 1))"
  by pat_completeness auto
termination
  by (relation "measure (\<lambda>num. nat (INT_MAX - num))") auto

declare calc_next_prime.simps [simp del]

text \<open>The specification: a prime is at least two and has no divisor in between.\<close>

definition prime_int :: "int \<Rightarrow> bool" where
  "prime_int p \<longleftrightarrow> 2 \<le> p \<and> (\<forall>d. 2 \<le> d \<longrightarrow> d < p \<longrightarrow> \<not> d dvd p)"

lemma prime_loop_result:
  "2 \<le> i \<Longrightarrow> i \<le> num \<Longrightarrow> prime_loop num i = num \<longleftrightarrow> (\<forall>d. i \<le> d \<longrightarrow> d < num \<longrightarrow> \<not> d dvd num)"
proof (induction num i rule: prime_loop.induct)
  case (1 num i)
  show ?case
  proof (cases "i < num \<and> num mod i \<noteq> 0")
    case True
    then have "prime_loop num i = prime_loop num (i + 1)" by (simp add: prime_loop.simps [of num i])
    moreover have "\<not> i dvd num" using True by (simp add: dvd_eq_mod_eq_0)
    then have "(\<forall>d. i \<le> d \<longrightarrow> d < num \<longrightarrow> \<not> d dvd num) \<longleftrightarrow>
      (\<forall>d. i + 1 \<le> d \<longrightarrow> d < num \<longrightarrow> \<not> d dvd num)"
      by (metis add1_zle_eq order_le_less)
    ultimately show ?thesis using "1.IH" "1.prems" True by auto
  next
    case False
    with "1.prems" show ?thesis
      by (auto simp: prime_loop.simps [of num i] dvd_eq_mod_eq_0)
  qed
qed

lemma prime_loop_small: "num < 2 \<Longrightarrow> prime_loop num 2 = 2"
  by (subst prime_loop.simps) simp

lemma is_prime_iff: "is_prime num = (if prime_int num then 1 else 0)"
  using prime_loop_result [of 2 num] prime_loop_small [of num]
  by (auto simp: is_prime_def prime_int_def not_le)

section \<open>What the hash component promises\<close>

text \<open>Keys that differ in exactly one of the hashed bytes never collide before the reduction
  modulo the table size, for any start value and mask, when the scale is odd.\<close>

theorem AwareHash_distinguishes_byte:
  assumes "odd scale" "b \<noteq> c" "n = length p + Suc (length q)"
  shows "AwareHash (p @ b # q) n h scale k \<noteq> AwareHash (p @ c # q) n h scale k"
  using assms by (rule AwareHash_one_byte_differs)

lemma AwareHash_distinguishes_byte_witness:
  "AwareHash ([1] @ 2 # [3]) 3 7 5 9 \<noteq> AwareHash ([1] @ 4 # [3]) 3 7 5 9"
  by (rule AwareHash_distinguishes_byte) simp_all

text \<open>\<open>unmangle\<close> undoes \<open>mangle\<close> for keys of every length, the 13-byte permutation included.\<close>

theorem unmangle_mangle:
  assumes "length key = n" "length ret = n" "length ret' = n"
  shows "unmangle (mangle key ret n) ret' n = key"
  using assms by (rule unmangle_mangle_id)

lemma unmangle_mangle_witness:
  "unmangle (mangle [1, 2, 3, 4, 5, 6, 7, 8, 9, 10, 11, 12, 13] (replicate 13 0) 13) (replicate 13 0) 13 =
    [1, 2, 3, 4, 5, 6, 7, 8, 9, 10, 11, 12, 13]"
  by (rule unmangle_mangle) simp_all

text \<open>The search for a prime returns the least one from its argument on, and it ends without
  overflow for every table size up to the prime 65537.\<close>

lemma calc_next_prime_least:
  "calc_next_prime num = Inr p \<Longrightarrow>
     prime_int p \<and> num \<le> p \<and> (\<forall>q. num \<le> q \<longrightarrow> q < p \<longrightarrow> \<not> prime_int q)"
proof (induction num rule: calc_next_prime.induct)
  case (1 num)
  show ?case
  proof (cases "is_prime num \<noteq> 0")
    case True
    then have "p = num" using "1.prems" by (simp add: calc_next_prime.simps [of num])
    then show ?thesis using True by (simp add: is_prime_iff split: if_splits)
  next
    case False
    then have n: "\<not> num \<ge> INT_MAX" "calc_next_prime (num + 1) = Inr p" "\<not> prime_int num"
      using "1.prems" by (auto simp: calc_next_prime.simps [of num] is_prime_iff split: if_splits)
    have "\<not> is_prime num \<noteq> 0" using False by simp
    note ih = "1.IH" [OF this n(1,2)]
    have "\<not> prime_int q" if "num \<le> q" "q < p" for q
      using ih n(3) that by (cases "q = num") auto
    then show ?thesis using ih by auto
  qed
qed

fun no_divisor :: "nat \<Rightarrow> int \<Rightarrow> bool" where
  "no_divisor 0 p = True"
| "no_divisor (Suc n) p = (p mod (int n + 2) \<noteq> 0 \<and> no_divisor n p)"

lemma no_divisor_less:
  "no_divisor n p \<Longrightarrow> 2 \<le> d \<Longrightarrow> d < int n + 2 \<Longrightarrow> \<not> d dvd p"
proof (induction n)
  case (Suc n)
  show ?case
  proof (cases "d = int n + 2")
    case True
    then have "p mod d \<noteq> 0" using Suc.prems(1) by simp
    then show ?thesis by (simp add: dvd_eq_mod_eq_0)
  next
    case False
    then have "d < int n + 2" using Suc.prems(3) by linarith
    then show ?thesis using Suc by simp
  qed
qed simp

lemma prime_int_65537: "prime_int 65537"
proof -
  have nd: "no_divisor 255 65537" by code_simp
  have "\<not> d dvd 65537" if d: "2 \<le> d" "d < 65537" for d :: int
  proof
    assume "d dvd 65537"
    then obtain e where e: "65537 = d * e" by (elim dvdE)
    have "0 < d * e" "0 < d" using e d by simp_all
    then have "0 < e" by (simp only: zero_less_mult_iff) auto
    have "e \<noteq> 1" using e d by auto
    then have e2: "2 \<le> e" using \<open>0 < e\<close> by simp
    have "d \<le> 256 \<or> e \<le> 256"
    proof (rule ccontr)
      assume "\<not> ?thesis"
      then have "257 * 257 \<le> d * e" by (intro mult_mono) auto
      then show False using e by simp
    qed
    moreover have "e dvd 65537" unfolding e by simp
    ultimately show False
      using no_divisor_less [OF nd, of d] no_divisor_less [OF nd, of e] \<open>d dvd 65537\<close> d(1) e2 by auto
  qed
  then show ?thesis by (simp add: prime_int_def)
qed

lemma calc_next_prime_ends:
  assumes "prime_int q" "q \<le> INT_MAX" "num \<le> q"
  shows "\<exists>p. calc_next_prime num = Inr p \<and> p \<le> q"
  using assms(3)
proof (induction num rule: calc_next_prime.induct)
  case (1 num)
  show ?case
  proof (cases "is_prime num \<noteq> 0")
    case True
    then show ?thesis using "1.prems" by (simp add: calc_next_prime.simps [of num])
  next
    case False
    then have "num \<noteq> q" using assms(1) by (auto simp: is_prime_iff)
    then have n: "\<not> num \<ge> INT_MAX" "num + 1 \<le> q" using "1.prems" assms(2) by auto
    have f: "\<not> is_prime num \<noteq> 0" using False by simp
    show ?thesis using "1.IH" [OF f n] n False by (simp add: calc_next_prime.simps [of num])
  qed
qed

text \<open>C40: For every requested size up to 65537 \<open>calc_next_prime\<close> returns, without an overflow, the
  least prime that is not smaller than the request.\<close>

theorem calc_next_prime_correct:
  assumes "num \<le> 65537"
  shows "\<exists>p. calc_next_prime num = Inr p \<and> prime_int p \<and> num \<le> p \<and> p \<le> 65537 \<and>
    (\<forall>q. num \<le> q \<longrightarrow> q < p \<longrightarrow> \<not> prime_int q)"
proof -
  have "(65537 :: int) \<le> INT_MAX" by (simp add: INT_MAX_def)
  from calc_next_prime_ends [OF prime_int_65537 this assms] show ?thesis
    using calc_next_prime_least by blast
qed

lemma calc_next_prime_correct_witness: "\<exists>p. calc_next_prime 1000 = Inr p \<and> prime_int p"
  using calc_next_prime_correct [of 1000] by auto

end
