(* ===== verification/Key_Table.thy ===== *)
theory Key_Table
  imports Hash Packet
begin

text \<open>
  \<^verbatim>\<open>alg_keytbl.c\<close>: the bucketed table of flows that collects exact per-flow totals. A pointer to
  an entry is the pair of its bucket and its index there. The interface \<open>flow_counter\<close> is what
  the callers rely on: adding a size to a key changes that key's total only. The table is an
  instance of it as long as no entry expires, which is how every caller sets it up
  (\<open>entry_to = -1\<close>, time stamp \<open>-1\<close>). Every field of an entry that an update adds to gives such an
  instance (\<open>entry_total\<close>).
\<close>

section \<open>State\<close>

record key_tbl_entry =
  tuple :: tuple_t
  old_ts :: dbl
  new_ts :: dbl
  drop_index :: i32
  low :: u64
  high :: u64

record key_tbl =
  tlist :: "key_tbl_entry list list"
  list_len :: "nat list"
  kbits :: nat
  entry_to :: dbl
  tbl_list_size :: nat
  tbl_list_len :: nat
  num_key :: i32
  khash :: u64
  kscale :: u64
  khardner :: u64

definition zero_entry :: key_tbl_entry where
  "zero_entry =
     \<lparr>tuple = zero_tuple, old_ts = 0, new_ts = 0, drop_index = 0, low = 0, high = 0\<rparr>"

text \<open>The sum of the characters of \<open>"keytbl"\<close> selects the three hash parameters.\<close>

definition keytbl_seed :: i32 where
  "keytbl_seed = foldl (\<lambda>s c. s + of_char c) 0 ''keytbl''"

definition key_tbl_init ::
    "u64 \<Rightarrow> u64 \<Rightarrow> nat \<Rightarrow> int \<Rightarrow> nat \<Rightarrow> dbl \<Rightarrow> (key_tbl \<times> u64) res" where
  "key_tbl_init rand seed n sz len to =
     rbind (calc_next_prime sz) (\<lambda>sz'.
       let (h, seed1) = GenHashSeed rand seed (keytbl_seed + of_char (CHR ''h''));
           (s, seed2) = GenHashSeed rand seed1 (keytbl_seed + of_char (CHR ''s''));
           (a, seed3) = GenHashSeed rand seed2 (keytbl_seed + of_char (CHR ''a''))
       in Inr (\<lparr>tlist = replicate (nat sz') (replicate len zero_entry),
                list_len = replicate (nat sz') 0, kbits = n, entry_to = to,
                tbl_list_size = nat sz', tbl_list_len = len, num_key = 0,
                khash = h, kscale = s, khardner = a\<rparr>, seed3))"

section \<open>Operations\<close>

text \<open>The bytes of a key that the table compares, and the bucket they hash to.\<close>

definition kbytes :: "key_tbl \<Rightarrow> flow_key \<Rightarrow> byte list" where
  "kbytes tbl k = take (kbits tbl div 8) (key_bytes k)"

definition bucket_no :: "key_tbl \<Rightarrow> flow_key \<Rightarrow> nat" where
  "bucket_no tbl k =
     unat (AwareHash (key_bytes k) (kbits tbl div 8) (khash tbl) (kscale tbl) (khardner tbl)
       mod of_nat (tbl_list_size tbl))"

definition live :: "key_tbl \<Rightarrow> nat \<Rightarrow> key_tbl_entry list" where
  "live tbl b = take (list_len tbl ! b) (tlist tbl ! b)"

text \<open>
  The search loop of \<open>key_tbl_record\<close>: \<open>cur_ind\<close> and \<open>rep_ind\<close> when it ends (\<open>None\<close> is -1).
  An expired entry is remembered only while no match has been found, the first one wins.
\<close>

fun scan_bucket :: "key_tbl \<Rightarrow> flow_key \<Rightarrow> dbl \<Rightarrow> key_tbl_entry list \<Rightarrow> nat \<Rightarrow> nat option \<Rightarrow>
    nat option \<times> nat option" where
  "scan_bucket tbl k ts [] i rep = (None, rep)"
| "scan_bucket tbl k ts (e # es) i rep =
     (if kbytes tbl (tkey (tuple e)) = kbytes tbl k then (Some i, rep)
      else scan_bucket tbl k ts es (Suc i)
        (if \<not> deq (entry_to tbl) (- 1) \<and> rep = None \<and> entry_to tbl < ts - new_ts e
         then Some i else rep))"

definition upd_entry :: "key_tbl \<Rightarrow> nat \<times> nat \<Rightarrow> (key_tbl_entry \<Rightarrow> key_tbl_entry) \<Rightarrow> key_tbl" where
  "upd_entry tbl = (\<lambda>(b, i) f.
     tbl\<lparr>tlist := (tlist tbl)[b := (tlist tbl ! b)[i := f (tlist tbl ! b ! i)]]\<rparr>)"

text \<open>
  A write through the pointer to an entry: the pair must lie inside the allocated arrays.
\<close>

definition in_table :: "key_tbl \<Rightarrow> nat \<times> nat \<Rightarrow> bool" where
  "in_table tbl = (\<lambda>(b, i). b < length (tlist tbl) \<and> i < length (tlist tbl ! b))"

definition put_entry :: "key_tbl \<Rightarrow> nat \<times> nat \<Rightarrow> (key_tbl_entry \<Rightarrow> key_tbl_entry) \<Rightarrow> key_tbl res" where
  "put_entry tbl p f = (if in_table tbl p then Inr (upd_entry tbl p f) else Inl OutOfBounds)"

definition get_entry :: "key_tbl \<Rightarrow> nat \<times> nat \<Rightarrow> key_tbl_entry" where
  "get_entry tbl = (\<lambda>(b, i). tlist tbl ! b ! i)"

text \<open>
  The update of the common fields of the returned entry: the compared bytes of the key are
  copied, the time stamps move on, and the size restarts at zero when the old stamp is zero.
\<close>

definition touch :: "key_tbl \<Rightarrow> flow_key \<Rightarrow> dbl \<Rightarrow> key_tbl_entry \<Rightarrow> key_tbl_entry" where
  "touch tbl k ts e =
     (let m = kbits tbl div 8;
          t1 = (tuple e)\<lparr>tkey :=
                 bytes_key (take m (key_bytes k) @ drop m (key_bytes (tkey (tuple e))))\<rparr>;
          t2 = (if deq (new_ts e) 0 then t1\<lparr>tsize := 0\<rparr> else t1)
      in e\<lparr>tuple := t2, old_ts := new_ts e, new_ts := ts\<rparr>)"

text \<open>
  The reads are checked too: the bucket's length word, and every entry the search loop compares.
\<close>

definition key_tbl_record :: "key_tbl \<Rightarrow> flow_key \<Rightarrow> dbl \<Rightarrow> (key_tbl \<times> (nat \<times> nat)) res" where
  "key_tbl_record tbl k ts =
     (let b = bucket_no tbl k; len = list_len tbl ! b
      in if 13 < kbits tbl div 8 \<or> length (list_len tbl) \<le> b \<or> length (tlist tbl) \<le> b \<or>
            length (tlist tbl ! b) < len
         then Inl OutOfBounds
         else
           let (cur, rep) = scan_bucket tbl k ts (live tbl b) 0 None
           in case cur of
                Some i \<Rightarrow> rbind (put_entry tbl (b, i) (touch tbl k ts)) (\<lambda>t. Inr (t, (b, i)))
              | None \<Rightarrow>
                  (case rep of
                     Some i \<Rightarrow>
                       rbind (put_entry tbl (b, i) (\<lambda>e. touch tbl k ts (e\<lparr>new_ts := 0\<rparr>)))
                         (\<lambda>t. Inr (t, (b, i)))
                   | None \<Rightarrow>
                       if tbl_list_len tbl \<le> len then Inl ExitError
                       else
                         let tbl' = tbl\<lparr>num_key := num_key tbl + 1,
                                        list_len := (list_len tbl)[b := len + 1]\<rparr>
                         in rbind (put_entry tbl' (b, len) (touch tbl k ts))
                              (\<lambda>t. Inr (t, (b, len)))))"

fun find_bucket :: "key_tbl \<Rightarrow> flow_key \<Rightarrow> key_tbl_entry list \<Rightarrow> nat \<Rightarrow> nat option" where
  "find_bucket tbl k [] i = None"
| "find_bucket tbl k (e # es) i =
     (if kbytes tbl (tkey (tuple e)) = kbytes tbl k then Some i else find_bucket tbl k es (Suc i))"

definition key_tbl_find :: "key_tbl \<Rightarrow> flow_key \<Rightarrow> (nat \<times> nat) option" where
  "key_tbl_find tbl k =
     (let b = bucket_no tbl k in map_option (\<lambda>i. (b, i)) (find_bucket tbl k (live tbl b) 0))"

definition key_tbl_get_all :: "key_tbl \<Rightarrow> tuple_t list" where
  "key_tbl_get_all tbl = concat (map (\<lambda>b. map tuple (live tbl b)) [0..<tbl_list_size tbl])"

definition key_tbl_num_key :: "key_tbl \<Rightarrow> i32" where
  "key_tbl_num_key tbl =
     for_upto (tbl_list_size tbl) (\<lambda>i ret. ret + of_nat (list_len tbl ! i)) 0"

definition key_tbl_reset :: "key_tbl \<Rightarrow> key_tbl" where
  "key_tbl_reset tbl =
     for_upto (tbl_list_size tbl)
       (\<lambda>i t. t\<lparr>tlist := (tlist t)[i := replicate (tbl_list_len t) zero_entry],
                list_len := (list_len t)[i := 0]\<rparr>)
       (tbl\<lparr>num_key := 0\<rparr>)"

text \<open>
  Changing the entry of a key: \<open>key_tbl_record\<close> at time stamp -1, then an assignment through the
  pointer it returns. Adding a size, \<open>record->tuple.size += size\<close>, is how every caller uses it.
\<close>

definition key_tbl_upd :: "key_tbl \<Rightarrow> flow_key \<Rightarrow> (key_tbl_entry \<Rightarrow> key_tbl_entry) \<Rightarrow> key_tbl res" where
  "key_tbl_upd tbl k f = rbind (key_tbl_record tbl k (- 1)) (\<lambda>(tbl', p). put_entry tbl' p f)"

definition add_size :: "i32 \<Rightarrow> key_tbl_entry \<Rightarrow> key_tbl_entry" where
  "add_size s e = e\<lparr>tuple := (tuple e)\<lparr>tsize := tsize (tuple e) + s\<rparr>\<rparr>"

definition key_tbl_add :: "key_tbl \<Rightarrow> flow_key \<Rightarrow> i32 \<Rightarrow> key_tbl res" where
  "key_tbl_add tbl k s = key_tbl_upd tbl k (add_size s)"

fun add_all :: "key_tbl \<Rightarrow> tuple_t list \<Rightarrow> key_tbl res" where
  "add_all tbl [] = Inr tbl"
| "add_all tbl (t # ts) = rbind (key_tbl_add tbl (tkey t) (tsize t)) (\<lambda>tbl'. add_all tbl' ts)"

definition key_tbl_copy :: "key_tbl \<Rightarrow> key_tbl \<Rightarrow> key_tbl res" where
  "key_tbl_copy dst src = add_all dst (key_tbl_get_all src)"

section \<open>Files\<close>

definition cmp_tuple :: "tuple_t \<Rightarrow> tuple_t \<Rightarrow> int" where
  "cmp_tuple a b = cmp (tkey a, tsize a) (tkey b, tsize b)"

definition key_tbl_print :: "key_tbl \<Rightarrow> string" where
  "key_tbl_print tbl = concat (map print_tuple (qsort cmp_tuple (key_tbl_get_all tbl)))"

text \<open>
  The loop over the lines of a file: the record \<open>p\<close> on the stack is overwritten line by line,
  and \<open>tot\<close> is a 64-bit sum.
\<close>

fun read_lines :: "u32 \<Rightarrow> string list \<Rightarrow> tuple_t \<Rightarrow> u64 \<Rightarrow> key_tbl \<Rightarrow> (u64 \<times> key_tbl) res" where
  "read_lines junk [] p tot tbl = Inr (tot, tbl)"
| "read_lines junk (l # ls) p tot tbl =
     (let p' = read_tuple junk l p
      in rbind (key_tbl_add tbl (tkey p') (tsize p')) (\<lambda>tbl'.
           read_lines junk ls p' (tot + scast (tsize p')) tbl'))"

text \<open>A file that does not open is reported, and the read that follows uses a null stream.\<close>

definition key_tbl_read_file ::
    "u32 \<Rightarrow> tuple_t \<Rightarrow> string option \<Rightarrow> key_tbl \<Rightarrow> (u64 \<times> key_tbl) res" where
  "key_tbl_read_file junk p file tbl =
     (case file of None \<Rightarrow> Inl OutOfBounds | Some f \<Rightarrow> read_lines junk (lines_100 f) p 0 tbl)"

text \<open>
  \<open>key_tbl_write\<close>: the number of keys, then for each entry the key bytes and eight bytes from the
  four-byte \<open>size\<close> on, so that the flag and the first bytes of the time stamp go along;
  \<open>ts_bytes\<close> is the memory of a time stamp.
\<close>

definition key_tbl_write :: "(dbl \<Rightarrow> byte list) \<Rightarrow> key_tbl \<Rightarrow> byte list" where
  "key_tbl_write ts_bytes tbl =
     le_bytes 4 (of_nat (sum_list (map ((!) (list_len tbl)) [0..<tbl_list_size tbl])) :: i32) @
     concat (map (\<lambda>t. kbytes tbl (tkey t) @
       take 8 (le_bytes 4 (tsize t) @ [flag t] @ ts_bytes (pkt_ts t))) (key_tbl_get_all tbl))"

section \<open>The interface of a flow counter\<close>

text \<open>
  \<open>kid\<close> is what the store distinguishes of a key, \<open>amt\<close> what an update counts. The laws say what
  one update does; the lemmas about whole streams of updates are proved from them.
\<close>

primrec run_adds :: "('t \<Rightarrow> 'k \<Rightarrow> 'x \<Rightarrow> 't res) \<Rightarrow> 't \<Rightarrow> ('k \<times> 'x) list \<Rightarrow> 't res" where
  "run_adds add t [] = Inr t"
| "run_adds add t (kv # kvs) = rbind (add t (fst kv) (snd kv)) (\<lambda>t'. run_adds add t' kvs)"

lemma run_adds_append:
  "run_adds add t (xs @ ys) = rbind (run_adds add t xs) (\<lambda>t'. run_adds add t' ys)"
  by (induction xs arbitrary: t) (auto simp: rbind_def split: sum.split)

locale flow_counter =
  fixes add :: "'t \<Rightarrow> 'k \<Rightarrow> 'x \<Rightarrow> 't res"
    and amt :: "'x \<Rightarrow> 'v::comm_monoid_add"
    and look :: "'t \<Rightarrow> 'k \<Rightarrow> 'v option"
    and kid :: "'k \<Rightarrow> 'i"
    and inv :: "'t \<Rightarrow> bool"
  assumes add_inv: "inv t \<Longrightarrow> add t k v = Inr t' \<Longrightarrow> inv t'"
    and look_add: "inv t \<Longrightarrow> add t k v = Inr t' \<Longrightarrow> kid j = kid k \<Longrightarrow>
      look t' j = Some ((case look t k of None \<Rightarrow> 0 | Some w \<Rightarrow> w) + amt v)"
    and look_add_other: "inv t \<Longrightarrow> add t k v = Inr t' \<Longrightarrow> kid j \<noteq> kid k \<Longrightarrow> look t' j = look t j"
    and look_kid: "inv t \<Longrightarrow> kid j = kid k \<Longrightarrow> look t j = look t k"
begin

lemma run_inv: "run_adds add t kvs = Inr t' \<Longrightarrow> inv t \<Longrightarrow> inv t'"
  by (induction kvs arbitrary: t) (auto dest: add_inv)

lemma look_run:
  assumes "run_adds add t kvs = Inr t'" "inv t"
  shows "look t' j =
    (let vs = map (\<lambda>kv. amt (snd kv)) (filter (\<lambda>kv. kid (fst kv) = kid j) kvs)
     in if vs = [] then look t j
        else Some ((case look t j of None \<Rightarrow> 0 | Some w \<Rightarrow> w) + sum_list vs))"
  using assms
proof (induction kvs arbitrary: t)
  case Nil
  then show ?case by simp
next
  case (Cons kv kvs)
  then obtain t1 where t1: "add t (fst kv) (snd kv) = Inr t1" "run_adds add t1 kvs = Inr t'" by auto
  have i: "inv t1" using add_inv [OF Cons.prems(2) t1(1)] .
  show ?case
  proof (cases "kid (fst kv) = kid j")
    case True
    have "look t1 j = Some ((case look t j of None \<Rightarrow> 0 | Some w \<Rightarrow> w) + amt (snd kv))"
      using look_add [OF Cons.prems(2) t1(1), of j] look_kid [OF Cons.prems(2), of j "fst kv"] True
      by simp
    then show ?thesis using Cons.IH [OF t1(2) i] True by (simp add: Let_def add.assoc)
  next
    case False
    then have "look t1 j = look t j" using look_add_other [OF Cons.prems(2) t1(1), of j] by auto
    then show ?thesis using Cons.IH [OF t1(2) i] False by simp
  qed
qed

text \<open>The totals do not depend on the order in which the packets arrive.\<close>

lemma look_run_perm:
  assumes "run_adds add t xs = Inr t1" "run_adds add t ys = Inr t2" "inv t" "mset xs = mset ys"
  shows "look t1 j = look t2 j"
proof -
  let ?f = "\<lambda>kvs. map (\<lambda>kv. amt (snd kv)) (filter (\<lambda>kv. kid (fst kv) = kid j) kvs)"
  have m: "mset (?f xs) = mset (?f ys)"
    using assms(4) by (simp add: mset_map mset_filter)
  then have "sum_list (?f xs) = sum_list (?f ys)" by (metis sum_mset_sum_list)
  moreover have "?f xs = [] \<longleftrightarrow> ?f ys = []" using m by (metis mset_zero_iff)
  ultimately show ?thesis
    unfolding look_run [OF assms(1,3)] look_run [OF assms(2,3)] Let_def by simp
qed

end

section \<open>The table as a flow counter\<close>

definition ebytes :: "key_tbl \<Rightarrow> key_tbl_entry \<Rightarrow> byte list" where
  "ebytes tbl e = kbytes tbl (tkey (tuple e))"

definition bucket_ok :: "key_tbl \<Rightarrow> nat \<Rightarrow> bool" where
  "bucket_ok tbl b \<longleftrightarrow>
     length (tlist tbl ! b) = tbl_list_len tbl \<and> list_len tbl ! b \<le> tbl_list_len tbl \<and>
     drop (list_len tbl ! b) (tlist tbl ! b) =
       replicate (tbl_list_len tbl - list_len tbl ! b) zero_entry \<and>
     distinct (map (ebytes tbl) (live tbl b)) \<and>
     (\<forall>e\<in>set (live tbl b). bucket_no tbl (tkey (tuple e)) = b)"

definition kt_inv :: "key_tbl \<Rightarrow> bool" where
  "kt_inv tbl \<longleftrightarrow>
     kbits tbl div 8 \<le> 13 \<and> 0 < tbl_list_size tbl \<and> tbl_list_size tbl < 2 ^ 31 \<and>
     length (tlist tbl) = tbl_list_size tbl \<and> length (list_len tbl) = tbl_list_size tbl \<and>
     num_key tbl = of_nat (sum_list (list_len tbl)) \<and> (\<forall>b<tbl_list_size tbl. bucket_ok tbl b)"

text \<open>The callers' discipline: no expiry, and only time stamps that differ from zero.\<close>

definition kt_acc :: "key_tbl \<Rightarrow> bool" where
  "kt_acc tbl \<longleftrightarrow> kt_inv tbl \<and> deq (entry_to tbl) (- 1) \<and>
     (\<forall>b<tbl_list_size tbl. \<forall>e\<in>set (live tbl b). \<not> deq (new_ts e) 0)"

definition kt_total :: "key_tbl \<Rightarrow> flow_key \<Rightarrow> i32 option" where
  "kt_total tbl k = map_option (\<lambda>p. tsize (tuple (get_entry tbl p))) (key_tbl_find tbl k)"

lemma bucket_no_kbytes: "kbytes tbl j = kbytes tbl k \<Longrightarrow> bucket_no tbl j = bucket_no tbl k"
  unfolding bucket_no_def kbytes_def by (metis AwareHash_take)

lemma bucket_no_less:
  assumes "0 < tbl_list_size tbl" "tbl_list_size tbl < 2 ^ 31"
  shows "bucket_no tbl k < tbl_list_size tbl"
proof -
  have "unat (of_nat (tbl_list_size tbl) :: u64) = tbl_list_size tbl"
    using assms(2) by (simp add: unat_of_nat)
  then show ?thesis
    using assms(1) unfolding bucket_no_def unat_mod by simp
qed

primrec index_of :: "'a \<Rightarrow> 'a list \<Rightarrow> nat option" where
  "index_of x [] = None"
| "index_of x (y # ys) = (if y = x then Some 0 else map_option Suc (index_of x ys))"

lemma index_of_None: "index_of x xs = None \<longleftrightarrow> x \<notin> set xs"
  by (induction xs) auto

lemma index_of_Some: "index_of x xs = Some i \<Longrightarrow> i < length xs \<and> xs ! i = x"
  by (induction xs arbitrary: i) (auto split: if_splits)

lemma index_of_append: "index_of x (xs @ ys) =
   (case index_of x xs of Some i \<Rightarrow> Some i | None \<Rightarrow> map_option ((+) (length xs)) (index_of x ys))"
  by (induction xs) (cases "index_of x ys"; auto split: option.splits)+

lemma find_bucket_index:
  "find_bucket tbl k es i = map_option ((+) i) (index_of (kbytes tbl k) (map (ebytes tbl) es))"
  by (induction es arbitrary: i)
    (auto simp: ebytes_def option.map_comp comp_def intro!: option.map_cong)

lemma scan_bucket_fst: "fst (scan_bucket tbl k ts es i rep) = find_bucket tbl k es i"
  by (induction es arbitrary: i rep) auto

lemma scan_bucket_no_expiry:
  "deq (entry_to tbl) (- 1) \<Longrightarrow> snd (scan_bucket tbl k ts es i None) = None"
  by (induction es arbitrary: i) auto

lemma key_tbl_find_index: "key_tbl_find tbl k =
   map_option (\<lambda>i. (bucket_no tbl k, i))
     (index_of (kbytes tbl k) (map (ebytes tbl) (live tbl (bucket_no tbl k))))"
  by (simp add: key_tbl_find_def Let_def find_bucket_index option.map_comp comp_def)

text \<open>What an update of a live entry, and the opening of a new one, do to the live entries.\<close>

lemma upd_entry_sel [simp]:
  "list_len (upd_entry tbl p f) = list_len tbl" "kbits (upd_entry tbl p f) = kbits tbl"
  "entry_to (upd_entry tbl p f) = entry_to tbl" "tbl_list_size (upd_entry tbl p f) = tbl_list_size tbl"
  "tbl_list_len (upd_entry tbl p f) = tbl_list_len tbl" "num_key (upd_entry tbl p f) = num_key tbl"
  "khash (upd_entry tbl p f) = khash tbl" "kscale (upd_entry tbl p f) = kscale tbl"
  "khardner (upd_entry tbl p f) = khardner tbl" "length (tlist (upd_entry tbl p f)) = length (tlist tbl)"
  by (simp_all add: upd_entry_def split: prod.split)

lemma upd_entry_keys [simp]:
  "kbytes (upd_entry tbl p f) = kbytes tbl" "bucket_no (upd_entry tbl p f) = bucket_no tbl"
  "ebytes (upd_entry tbl p f) = ebytes tbl"
  by (simp_all add: kbytes_def bucket_no_def ebytes_def fun_eq_iff)

lemma tlist_upd_entry: "b < length (tlist tbl) \<Longrightarrow> tlist (upd_entry tbl (b, i) f) ! c =
   (if c = b then (tlist tbl ! b)[i := f (tlist tbl ! b ! i)] else tlist tbl ! c)"
  by (auto simp: upd_entry_def)

lemma live_upd_entry:
  "b < length (tlist tbl) \<Longrightarrow> live (upd_entry tbl (b, i) f) c =
     (if c = b then (live tbl b)[i := f (tlist tbl ! b ! i)] else live tbl c)"
  by (simp add: live_def tlist_upd_entry take_update_swap)

lemma upd_entry_upd_entry:
  "upd_entry (upd_entry tbl p f) p g = upd_entry tbl p (\<lambda>e. g (f e))"
  if "fst p < length (tlist tbl)" "snd p < length (tlist tbl ! fst p)"
  using that by (cases p) (simp add: upd_entry_def)

lemma kbytes_touch:
  "kbits tbl div 8 \<le> 13 \<Longrightarrow> kbytes tbl (tkey (tuple (touch tbl k ts e))) = kbytes tbl k"
  by (simp add: kbytes_def touch_def Let_def key_bytes_bytes_key min_def)

lemma new_ts_touch [simp]: "new_ts (touch tbl k ts e) = ts"
  by (simp add: touch_def Let_def)

lemma add_size_sel [simp]: "tkey (tuple (add_size s e)) = tkey (tuple e)" "new_ts (add_size s e) = new_ts e"
  "tsize (tuple (add_size s e)) = tsize (tuple e) + s"
  by (simp_all add: add_size_def)

lemma tsize_touch: "tsize (tuple (touch tbl k ts e)) = (if deq (new_ts e) 0 then 0 else tsize (tuple e))"
  by (simp add: touch_def Let_def)

definition open_entry :: "key_tbl \<Rightarrow> nat \<Rightarrow> key_tbl" where
  "open_entry tbl b = tbl\<lparr>num_key := num_key tbl + 1,
     list_len := (list_len tbl)[b := list_len tbl ! b + 1]\<rparr>"

lemma open_entry_sel [simp]:
  "tlist (open_entry tbl b) = tlist tbl" "kbits (open_entry tbl b) = kbits tbl"
  "entry_to (open_entry tbl b) = entry_to tbl" "tbl_list_size (open_entry tbl b) = tbl_list_size tbl"
  "tbl_list_len (open_entry tbl b) = tbl_list_len tbl" "khash (open_entry tbl b) = khash tbl"
  "kscale (open_entry tbl b) = kscale tbl" "khardner (open_entry tbl b) = khardner tbl"
  "list_len (open_entry tbl b) = (list_len tbl)[b := list_len tbl ! b + 1]"
  "num_key (open_entry tbl b) = num_key tbl + 1"
  by (simp_all add: open_entry_def)

lemma open_entry_keys [simp]:
  "kbytes (open_entry tbl b) = kbytes tbl" "bucket_no (open_entry tbl b) = bucket_no tbl"
  "ebytes (open_entry tbl b) = ebytes tbl"
  by (simp_all add: kbytes_def bucket_no_def ebytes_def fun_eq_iff)

lemma kt_inv_bucket: "kt_inv tbl \<Longrightarrow> b < tbl_list_size tbl \<Longrightarrow> bucket_ok tbl b"
  by (simp add: kt_inv_def)

lemma kt_inv_bucket_no: "kt_inv tbl \<Longrightarrow> bucket_no tbl k < tbl_list_size tbl"
  by (simp add: kt_inv_def bucket_no_less)

lemma live_length: "bucket_ok tbl b \<Longrightarrow> length (live tbl b) = list_len tbl ! b"
  by (simp add: bucket_ok_def live_def)

lemma live_nth: "bucket_ok tbl b \<Longrightarrow> i < list_len tbl ! b \<Longrightarrow> live tbl b ! i = tlist tbl ! b ! i"
  by (simp add: live_def)

lemma kbytes_bucket: "ebytes tbl e = kbytes tbl k \<Longrightarrow> bucket_no tbl (tkey (tuple e)) = bucket_no tbl k"
  unfolding ebytes_def by (rule bucket_no_kbytes)

lemma live_hit:
  assumes "kt_inv tbl" "b < tbl_list_size tbl" "i < list_len tbl ! b"
  shows "live (upd_entry tbl (b, i) f) c =
    (if c = b then (live tbl b)[i := f (live tbl b ! i)] else live tbl c)"
  using assms live_nth [OF kt_inv_bucket [OF assms(1,2)] assms(3)]
  by (simp add: live_upd_entry kt_inv_def)

lemma live_open:
  assumes "kt_inv tbl" "b < tbl_list_size tbl" "list_len tbl ! b < tbl_list_len tbl"
  shows "live (upd_entry (open_entry tbl b) (b, list_len tbl ! b) f) c =
    (if c = b then live tbl b @ [f zero_entry] else live tbl c)"
proof -
  have b: "bucket_ok tbl b" using assms by (simp add: kt_inv_def)
  then have l: "list_len tbl ! b < length (tlist tbl ! b)" using assms(3) by (simp add: bucket_ok_def)
  have "tlist tbl ! b ! (list_len tbl ! b) = drop (list_len tbl ! b) (tlist tbl ! b) ! 0"
    using l by simp
  also have "\<dots> = zero_entry" using b assms(3) by (simp add: bucket_ok_def)
  finally have z: "tlist tbl ! b ! (list_len tbl ! b) = zero_entry" .
  have "b < length (tlist tbl)" "b < length (list_len tbl)" using assms by (simp_all add: kt_inv_def)
  then show ?thesis using l z
    by (auto simp: live_def tlist_upd_entry take_Suc_conv_app_nth nth_list_update)
qed

lemma kt_inv_hit:
  assumes inv: "kt_inv tbl" and b: "b < tbl_list_size tbl" and i: "i < list_len tbl ! b"
    and same: "ebytes tbl (f (live tbl b ! i)) = ebytes tbl (live tbl b ! i)"
  shows "kt_inv (upd_entry tbl (b, i) f)"
proof -
  have ok: "bucket_ok tbl b" by (rule kt_inv_bucket [OF inv b])
  have il: "i < length (live tbl b)" using i live_length [OF ok] by simp
  have m: "map (ebytes tbl) ((live tbl b)[i := f (live tbl b ! i)]) = map (ebytes tbl) (live tbl b)"
    using same il by (simp add: map_update) (metis length_map list_update_id nth_map)
  have h: "\<forall>e\<in>set ((live tbl b)[i := f (live tbl b ! i)]). bucket_no tbl (tkey (tuple e)) = b"
  proof
    fix e assume "e \<in> set ((live tbl b)[i := f (live tbl b ! i)])"
    then have "e = f (live tbl b ! i) \<or> e \<in> set (live tbl b)"
      using set_update_subset_insert by fastforce
    moreover have "bucket_no tbl (tkey (tuple (f (live tbl b ! i)))) = b"
      using kbytes_bucket [OF same [unfolded ebytes_def [of tbl "live tbl b ! i"]]] ok il
      by (simp add: bucket_ok_def)
    ultimately show "bucket_no tbl (tkey (tuple e)) = b" using ok by (auto simp: bucket_ok_def)
  qed
  have "bucket_ok (upd_entry tbl (b, i) f) c" if "c < tbl_list_size tbl" for c
  proof (cases "c = b")
    case True
    have "b < length (tlist tbl)" using inv b by (simp add: kt_inv_def)
    then show ?thesis using ok m h i True
      by (simp add: bucket_ok_def live_hit [OF inv b i] tlist_upd_entry)
  next
    case False
    have "b < length (tlist tbl)" using inv b by (simp add: kt_inv_def)
    then show ?thesis using kt_inv_bucket [OF inv that] False
      by (simp add: bucket_ok_def live_hit [OF inv b i] tlist_upd_entry)
  qed
  then show ?thesis using inv by (simp add: kt_inv_def)
qed

lemma kt_inv_open:
  assumes inv: "kt_inv tbl" and b: "b = bucket_no tbl k" and room: "list_len tbl ! b < tbl_list_len tbl"
    and new: "key_tbl_find tbl k = None" and key: "ebytes tbl (f zero_entry) = kbytes tbl k"
  shows "kt_inv (upd_entry (open_entry tbl b) (b, list_len tbl ! b) f)" (is "kt_inv ?t")
proof -
  have bs: "b < tbl_list_size tbl" using kt_inv_bucket_no [OF inv] b by simp
  have ok: "bucket_ok tbl b" by (rule kt_inv_bucket [OF inv bs])
  have bl: "b < length (tlist tbl)" "b < length (list_len tbl)" using inv bs by (simp_all add: kt_inv_def)
  have n: "kbytes tbl k \<notin> set (map (ebytes tbl) (live tbl b))"
    using new by (simp add: key_tbl_find_index b index_of_None)
  have h: "bucket_no tbl (tkey (tuple (f zero_entry))) = b"
    using kbytes_bucket [OF key] b by simp
  have d: "drop (list_len tbl ! b + 1) ((tlist tbl ! b)[list_len tbl ! b := x]) =
      replicate (tbl_list_len tbl - (list_len tbl ! b + 1)) zero_entry" for x
  proof -
    have "drop (list_len tbl ! b + 1) (tlist tbl ! b) =
        drop 1 (drop (list_len tbl ! b) (tlist tbl ! b))" by simp
    also have "\<dots> = replicate (tbl_list_len tbl - (list_len tbl ! b + 1)) zero_entry"
      using ok by (simp add: bucket_ok_def del: drop_drop)
    finally show ?thesis by simp
  qed
  have "bucket_ok ?t c" if "c < tbl_list_size tbl" for c
  proof (cases "c = b")
    case True
    then show ?thesis using ok n h d bl key room
      by (simp add: bucket_ok_def live_open [OF inv bs room] tlist_upd_entry)
  next
    case False
    then show ?thesis using kt_inv_bucket [OF inv that] bl
      by (simp add: bucket_ok_def live_open [OF inv bs room] tlist_upd_entry)
  qed
  moreover have "sum_list ((list_len tbl)[b := list_len tbl ! b + 1]) = sum_list (list_len tbl) + 1"
    using bl(2) elem_le_sum_list [OF bl(2)] by (simp add: sum_list_update)
  ultimately show ?thesis using inv by (simp add: kt_inv_def)
qed

lemma find_hit:
  assumes "key_tbl_find tbl k = Some p" "kt_inv tbl"
  obtains i where "p = (bucket_no tbl k, i)" "i < list_len tbl ! bucket_no tbl k"
    "ebytes tbl (live tbl (bucket_no tbl k) ! i) = kbytes tbl k"
proof -
  have ok: "bucket_ok tbl (bucket_no tbl k)"
    using assms(2) kt_inv_bucket kt_inv_bucket_no by blast
  obtain i where i: "p = (bucket_no tbl k, i)"
    "index_of (kbytes tbl k) (map (ebytes tbl) (live tbl (bucket_no tbl k))) = Some i"
    using assms(1) by (auto simp: key_tbl_find_index)
  then have "i < length (live tbl (bucket_no tbl k))" using index_of_Some [OF i(2)] by simp
  then show ?thesis using that [OF i(1)] index_of_Some [OF i(2)] live_length [OF ok] by simp
qed

lemma get_entry_live:
  assumes "kt_inv tbl" "b < tbl_list_size tbl" "i < list_len tbl ! b"
  shows "get_entry tbl (b, i) = live tbl b ! i"
  using live_nth [OF kt_inv_bucket [OF assms(1,2)] assms(3)] by (simp add: get_entry_def)

text \<open>A change, case by case: the entry found, a new entry, or a full bucket.\<close>

lemma key_tbl_upd_cases:
  assumes acc: "kt_acc tbl"
  shows "key_tbl_upd tbl k f =
    (let b = bucket_no tbl k; g = (\<lambda>e. f (touch tbl k (- 1) e))
     in case key_tbl_find tbl k of
          Some p \<Rightarrow> Inr (upd_entry tbl p g)
        | None \<Rightarrow> if tbl_list_len tbl \<le> list_len tbl ! b then Inl ExitError
                  else Inr (upd_entry (open_entry tbl b) (b, list_len tbl ! b) g))"
proof -
  define b where "b = bucket_no tbl k"
  have inv: "kt_inv tbl" and to: "deq (entry_to tbl) (- 1)" using acc by (simp_all add: kt_acc_def)
  have bs: "b < tbl_list_size tbl" using kt_inv_bucket_no [OF inv] by (simp add: b_def)
  have bl: "b < length (tlist tbl)" "b < length (list_len tbl)" using inv bs by (simp_all add: kt_inv_def)
  have ok: "bucket_ok tbl b" by (rule kt_inv_bucket [OF inv bs])
  then have ll: "\<not> length (tlist tbl ! b) < list_len tbl ! b" by (simp add: bucket_ok_def)
  obtain cur rep where sc: "scan_bucket tbl k (- 1) (live tbl b) 0 None = (cur, rep)" by fastforce
  then have "cur = find_bucket tbl k (live tbl b) 0" "rep = None"
    using scan_bucket_fst [of tbl k "- 1" "live tbl b" 0 None]
      scan_bucket_no_expiry [OF to, of k "- 1" "live tbl b" 0] by simp_all
  then have c: "key_tbl_find tbl k = map_option (\<lambda>i. (b, i)) cur"
    and sc': "scan_bucket tbl k (- 1) (live tbl b) 0 None = (cur, None)"
    using sc by (simp_all add: key_tbl_find_def Let_def b_def)
  have m: "\<not> 13 < kbits tbl div 8" using inv by (simp add: kt_inv_def)
  show ?thesis
  proof (cases cur)
    case None
    have "list_len tbl ! b < length (tlist tbl ! b)" if "list_len tbl ! b < tbl_list_len tbl"
      using that ok by (simp add: bucket_ok_def)
    then show ?thesis using None c sc' m bl ll
      by (auto simp: key_tbl_upd_def key_tbl_record_def put_entry_def in_table_def tlist_upd_entry
          upd_entry_upd_entry open_entry_def Let_def simp flip: b_def)
  next
    case (Some i)
    then have "i < list_len tbl ! b" using c find_hit [of tbl k "(b, i)"] inv by auto
    then have "i < length (tlist tbl ! b)" using ok by (simp add: bucket_ok_def)
    then show ?thesis using Some c sc' m bl ll
      by (simp add: key_tbl_upd_def key_tbl_record_def put_entry_def in_table_def tlist_upd_entry
          upd_entry_upd_entry flip: b_def)
  qed
qed

lemmas key_tbl_add_cases = key_tbl_upd_cases [where f = "add_size s" for s, folded key_tbl_add_def]

lemma minus_one_not_zero: "\<not> deq (- 1) (0 :: dbl)"
  by code_simp

text \<open>What one component of the entries is for a key, and how the two kinds of change move it.\<close>

definition kt_proj :: "(key_tbl_entry \<Rightarrow> 'v) \<Rightarrow> key_tbl \<Rightarrow> flow_key \<Rightarrow> 'v option" where
  "kt_proj \<pi> tbl k = map_option (\<lambda>p. \<pi> (get_entry tbl p)) (key_tbl_find tbl k)"

lemma kt_total_proj: "kt_total = kt_proj (\<lambda>e. tsize (tuple e))"
  by (simp add: kt_total_def kt_proj_def fun_eq_iff)

lemma upd_hit:
  assumes inv: "kt_inv tbl" and f: "key_tbl_find tbl k = Some p"
    and ge: "\<And>e. ebytes tbl (g e) = kbytes tbl k"
  shows "kt_inv (upd_entry tbl p g)"
    and "get_entry tbl p \<in> set (live tbl (bucket_no tbl k))"
    and "e \<in> set (live (upd_entry tbl p g) c) \<Longrightarrow> e = g (get_entry tbl p) \<or> e \<in> set (live tbl c)"
    and "kt_proj \<pi> (upd_entry tbl p g) j =
      (if kbytes tbl j = kbytes tbl k then Some (\<pi> (g (get_entry tbl p))) else kt_proj \<pi> tbl j)"
proof -
  define b where "b = bucket_no tbl k"
  have bs: "b < tbl_list_size tbl" using kt_inv_bucket_no [OF inv] by (simp add: b_def)
  have ok: "bucket_ok tbl b" by (rule kt_inv_bucket [OF inv bs])
  have bl: "b < length (tlist tbl)" using inv bs by (simp add: kt_inv_def)
  obtain i where p: "p = (b, i)" and i: "i < list_len tbl ! b"
    and ei: "ebytes tbl (live tbl b ! i) = kbytes tbl k"
    using find_hit [OF f inv] unfolding b_def by metis
  have il: "i < length (live tbl b)" using i live_length [OF ok] by simp
  have gl: "get_entry tbl p = live tbl b ! i" using get_entry_live [OF inv bs i] p by simp
  note lv = live_hit [OF inv bs i, of g, folded p]
  show inv': "kt_inv (upd_entry tbl p g)" unfolding p by (rule kt_inv_hit [OF inv bs i]) (simp add: ge ei)
  show "get_entry tbl p \<in> set (live tbl (bucket_no tbl k))" using gl il by (simp add: b_def)
  show "e = g (get_entry tbl p) \<or> e \<in> set (live tbl c)" if "e \<in> set (live (upd_entry tbl p g) c)"
    using that set_update_subset_insert [of "live tbl b" i] by (auto simp: lv gl split: if_splits)
  have "map (ebytes tbl) (live (upd_entry tbl p g) c) = map (ebytes tbl) (live tbl c)" for c
    using il ge ei by (simp add: lv map_update) (metis length_map list_update_id nth_map)
  then have fd: "key_tbl_find (upd_entry tbl p g) j = key_tbl_find tbl j"
    by (simp add: key_tbl_find_index p)
  show "kt_proj \<pi> (upd_entry tbl p g) j =
      (if kbytes tbl j = kbytes tbl k then Some (\<pi> (g (get_entry tbl p))) else kt_proj \<pi> tbl j)"
  proof (cases "kbytes tbl j = kbytes tbl k")
    case True
    then have "key_tbl_find tbl j = Some p"
      using f bucket_no_kbytes [OF True] by (simp add: key_tbl_find_index)
    moreover have "get_entry (upd_entry tbl p g) p = g (get_entry tbl p)"
      using bl i ok by (simp add: p get_entry_def tlist_upd_entry bucket_ok_def)
    ultimately show ?thesis using True by (simp add: kt_proj_def fd)
  next
    case False
    have "get_entry (upd_entry tbl p g) q = get_entry tbl q" if q: "key_tbl_find tbl j = Some q" for q
    proof -
      from find_hit [OF q inv] ei False have "q \<noteq> (b, i)" by (metis prod.inject)
      then show ?thesis using bl by (cases q) (auto simp: get_entry_def p tlist_upd_entry)
    qed
    then show ?thesis using False by (cases "key_tbl_find tbl j") (simp_all add: kt_proj_def fd)
  qed
qed

lemma upd_open:
  assumes inv: "kt_inv tbl" and f: "key_tbl_find tbl k = None" and b: "b = bucket_no tbl k"
    and room: "list_len tbl ! b < tbl_list_len tbl" and ge: "\<And>e. ebytes tbl (g e) = kbytes tbl k"
    and t: "t = upd_entry (open_entry tbl b) (b, list_len tbl ! b) g"
  shows "kt_inv t"
    and "e \<in> set (live t c) \<Longrightarrow> e = g zero_entry \<or> e \<in> set (live tbl c)"
    and "kt_proj \<pi> t j = (if kbytes tbl j = kbytes tbl k then Some (\<pi> (g zero_entry)) else kt_proj \<pi> tbl j)"
proof -
  have bs: "b < tbl_list_size tbl" using kt_inv_bucket_no [OF inv] by (simp add: b)
  have ok: "bucket_ok tbl b" by (rule kt_inv_bucket [OF inv bs])
  have bl: "b < length (tlist tbl)" "b < length (list_len tbl)" using inv bs by (simp_all add: kt_inv_def)
  note lv = live_open [OF inv bs room, of g, folded t]
  have sel: "kbytes t = kbytes tbl" "bucket_no t = bucket_no tbl" "ebytes t = ebytes tbl"
    "tbl_list_size t = tbl_list_size tbl" "list_len t = (list_len tbl)[b := list_len tbl ! b + 1]" by (simp_all add: t)
  show inv': "kt_inv t" unfolding t by (rule kt_inv_open [OF inv b room f]) (simp add: ge)
  show "e = g zero_entry \<or> e \<in> set (live tbl c)" if "e \<in> set (live t c)"
    using that by (auto simp: lv split: if_splits)
  show "kt_proj \<pi> t j = (if kbytes tbl j = kbytes tbl k then Some (\<pi> (g zero_entry)) else kt_proj \<pi> tbl j)"
  proof (cases "kbytes tbl j = kbytes tbl k")
    case True
    have "index_of (kbytes tbl k) (map (ebytes tbl) (live tbl b)) = None"
      using f by (simp add: key_tbl_find_index b)
    moreover have "bucket_no tbl j = b" using bucket_no_kbytes [OF True] b by simp
    ultimately have "key_tbl_find t j = Some (b, list_len tbl ! b)"
      using True live_length [OF ok] by (simp add: key_tbl_find_index sel lv index_of_append ge)
    moreover have "get_entry t (b, list_len tbl ! b) = g zero_entry"
      using get_entry_live [OF inv', of b "list_len tbl ! b"] bs bl live_length [OF ok]
      by (simp add: sel lv nth_append)
    ultimately show ?thesis using True by (simp add: kt_proj_def)
  next
    case False
    have "index_of (kbytes tbl j) (map (ebytes tbl) (live t (bucket_no tbl j))) =
        index_of (kbytes tbl j) (map (ebytes tbl) (live tbl (bucket_no tbl j)))"
      using False by (auto simp: lv index_of_append ge split: option.split)
    then have fd: "key_tbl_find t j = key_tbl_find tbl j" by (simp add: key_tbl_find_index sel)
    have "get_entry t q = get_entry tbl q" if fq: "key_tbl_find tbl j = Some q" for q
    proof -
      obtain i where q: "q = (bucket_no tbl j, i)" "i < list_len tbl ! bucket_no tbl j"
        by (rule find_hit [OF fq inv])
      then show ?thesis using bl by (auto simp: get_entry_def t tlist_upd_entry)
    qed
    then show ?thesis using False by (cases "key_tbl_find tbl j") (simp_all add: kt_proj_def fd)
  qed
qed

text \<open>
  An assignment \<open>f x\<close> that leaves the key and the time stamp alone and adds \<open>amt x\<close> to the component
  \<open>\<pi>\<close> of the entry makes the table a flow counter for that component.
\<close>

locale entry_total =
  fixes f :: "'x \<Rightarrow> key_tbl_entry \<Rightarrow> key_tbl_entry"
    and amt :: "'x \<Rightarrow> 'v::comm_monoid_add"
    and \<pi> :: "key_tbl_entry \<Rightarrow> 'v"
  assumes key: "tkey (tuple (f x e)) = tkey (tuple e)"
    and stamp: "new_ts (f x e) = new_ts e"
    and amount: "\<pi> (f x e) = \<pi> e + amt x"
    and kept: "\<not> deq (new_ts e) 0 \<Longrightarrow> \<pi> (touch tbl k ts e) = \<pi> e"
    and fresh: "\<pi> (touch tbl k ts zero_entry) = 0"
begin

lemma upd_step:
  assumes acc: "kt_acc tbl" and r: "key_tbl_upd tbl k (f x) = Inr tbl'"
  shows "kt_acc tbl' \<and> kbits tbl' = kbits tbl \<and>
    (\<forall>j. kt_proj \<pi> tbl' j =
       (if kbytes tbl j = kbytes tbl k
        then Some ((case kt_proj \<pi> tbl k of None \<Rightarrow> 0 | Some w \<Rightarrow> w) + amt x) else kt_proj \<pi> tbl j))"
proof -
  define g where "g = (\<lambda>e. f x (touch tbl k (- 1) e))"
  have inv: "kt_inv tbl" using acc by (simp add: kt_acc_def)
  have "kbits tbl div 8 \<le> 13" using inv by (simp add: kt_inv_def)
  then have ge: "\<And>e. ebytes tbl (g e) = kbytes tbl k"
    by (simp add: ebytes_def g_def key kbytes_touch)
  have gn: "new_ts (g e) = - 1" for e by (simp add: g_def stamp)
  show ?thesis
  proof (cases "key_tbl_find tbl k")
    case (Some p)
    note h = upd_hit(1-3) [where g = g, OF inv Some ge] upd_hit(4) [where g = g and \<pi> = \<pi>, OF inv Some ge]
    have t': "tbl' = upd_entry tbl p g" using r Some by (simp add: key_tbl_upd_cases [OF acc] g_def)
    have "\<not> deq (new_ts (get_entry tbl p)) 0"
      using acc h(2) kt_inv_bucket_no [OF inv, of k] by (auto simp: kt_acc_def)
    then have "\<pi> (g (get_entry tbl p)) = \<pi> (get_entry tbl p) + amt x" by (simp add: g_def amount kept)
    moreover have "\<forall>b < tbl_list_size tbl. \<forall>e \<in> set (live tbl' b). \<not> deq (new_ts e) 0"
      using h(3) gn minus_one_not_zero acc unfolding t' kt_acc_def by metis
    moreover have "entry_to tbl' = entry_to tbl" "tbl_list_size tbl' = tbl_list_size tbl" "kbits tbl' = kbits tbl"
      by (cases p; simp add: t')+
    moreover have "(case kt_proj \<pi> tbl k of None \<Rightarrow> 0 | Some w \<Rightarrow> w) = \<pi> (get_entry tbl p)"
      using Some by (simp add: kt_proj_def)
    ultimately show ?thesis using h(1,4) acc unfolding t' by (simp add: kt_acc_def)
  next
    case None
    define b where "b = bucket_no tbl k"
    have room: "list_len tbl ! b < tbl_list_len tbl"
      and t': "tbl' = upd_entry (open_entry tbl b) (b, list_len tbl ! b) g"
      using r None by (auto simp: key_tbl_upd_cases [OF acc] Let_def g_def b_def split: if_splits)
    note h = upd_open(1,2) [where g = g, OF inv None b_def room ge t']
      upd_open(3) [where g = g and \<pi> = \<pi>, OF inv None b_def room ge t']
    have "\<pi> (g zero_entry) = amt x" by (simp add: g_def amount fresh)
    moreover have "\<forall>b < tbl_list_size tbl. \<forall>e \<in> set (live tbl' b). \<not> deq (new_ts e) 0"
      using h(2) gn minus_one_not_zero acc unfolding kt_acc_def by metis
    moreover have "(case kt_proj \<pi> tbl k of None \<Rightarrow> 0 | Some w \<Rightarrow> w) = 0" using None by (simp add: kt_proj_def)
    moreover have "entry_to tbl' = entry_to tbl" "tbl_list_size tbl' = tbl_list_size tbl" "kbits tbl' = kbits tbl"
      by (simp_all add: t')
    ultimately show ?thesis using h(1,3) acc by (simp add: kt_acc_def)
  qed
qed

end

sublocale entry_total \<subseteq> flow_counter "\<lambda>tbl k x. key_tbl_upd tbl k (f x)" amt "kt_proj \<pi>"
  "\<lambda>k. take m (key_bytes k)" "\<lambda>tbl. kt_acc tbl \<and> kbits tbl div 8 = m" for m
proof
  fix t k v t' j
  assume i: "kt_acc t \<and> kbits t div 8 = m"
  have kb: "kbytes t x = take m (key_bytes x)" for x using i by (simp add: kbytes_def)
  show "kt_proj \<pi> t j = kt_proj \<pi> t k" if "take m (key_bytes j) = take m (key_bytes k)"
    using that bucket_no_kbytes [of t j k] by (simp add: kt_proj_def key_tbl_find_index kb)
  assume "key_tbl_upd t k (f v) = Inr t'"
  with i upd_step [of t k v t'] have st: "kt_acc t' \<and> kbits t' = kbits t \<and>
    (\<forall>j. kt_proj \<pi> t' j =
       (if kbytes t j = kbytes t k
        then Some ((case kt_proj \<pi> t k of None \<Rightarrow> 0 | Some w \<Rightarrow> w) + amt v) else kt_proj \<pi> t j))" by blast
  then show "kt_acc t' \<and> kbits t' div 8 = m" using i by simp
  show "kt_proj \<pi> t' j = Some ((case kt_proj \<pi> t k of None \<Rightarrow> 0 | Some w \<Rightarrow> w) + amt v)"
    if "take m (key_bytes j) = take m (key_bytes k)" using st that by (simp add: kb)
  show "kt_proj \<pi> t' j = kt_proj \<pi> t j" if "take m (key_bytes j) \<noteq> take m (key_bytes k)"
    using st that by (simp add: kb)
qed

interpretation sizes: entry_total add_size "\<lambda>s. s" "\<lambda>e. tsize (tuple e)"
  by unfold_locales (simp_all add: tsize_touch zero_entry_def zero_tuple_def)

lemma key_tbl_add_upd: "key_tbl_add = (\<lambda>tbl k s. key_tbl_upd tbl k (add_size s))"
  by (simp add: key_tbl_add_def fun_eq_iff)

interpretation keytbl: flow_counter key_tbl_add "\<lambda>s. s" kt_total "\<lambda>k. take m (key_bytes k)"
  "\<lambda>tbl. kt_acc tbl \<and> kbits tbl div 8 = m" for m
  unfolding key_tbl_add_upd kt_total_proj by (rule sizes.flow_counter_axioms)

lemmas add_step = sizes.upd_step [folded key_tbl_add_def kt_total_proj]

lemma add_all_run: "add_all tbl ts = run_adds key_tbl_add tbl (map (\<lambda>t. (tkey t, tsize t)) ts)"
  by (induction ts arbitrary: tbl) simp_all

text \<open>For keys of 13 bytes the table distinguishes all flows.\<close>

definition kt_flows :: "key_tbl \<Rightarrow> bool" where
  "kt_flows tbl \<longleftrightarrow> kt_acc tbl \<and> kbits tbl div 8 = 13"

lemma kt_flows_find:
  "kt_flows tbl \<Longrightarrow> kbytes tbl k = key_bytes k"
  by (simp add: kt_flows_def kbytes_def)

lemma add_all_flows: "add_all tbl ts = Inr tbl' \<Longrightarrow> kt_flows tbl \<Longrightarrow> kt_flows tbl'"
  using keytbl.run_inv [of tbl "map (\<lambda>t. (tkey t, tsize t)) ts" tbl' 13]
  by (simp add: add_all_run kt_flows_def)

definition flow_sizes :: "tuple_t list \<Rightarrow> flow_key \<Rightarrow> i32 list" where
  "flow_sizes ts k = map tsize (filter (\<lambda>t. tkey t = k) ts)"

lemma add_all_total:
  assumes "add_all tbl ts = Inr tbl'" "kt_flows tbl"
  shows "kt_total tbl' k =
    (if flow_sizes ts k = [] then kt_total tbl k
     else Some ((case kt_total tbl k of None \<Rightarrow> 0 | Some w \<Rightarrow> w) + sum_list (flow_sizes ts k)))"
  using keytbl.look_run [of tbl "map (\<lambda>t. (tkey t, tsize t)) ts" tbl' 13 k] assms
  by (simp add: add_all_run kt_flows_def Let_def flow_sizes_def filter_map comp_def)

section \<open>Fresh tables\<close>

lemma calc_next_prime_bounds:
  "calc_next_prime num = Inr p \<Longrightarrow> num \<le> INT_MAX \<Longrightarrow> 2 \<le> p \<and> num \<le> p \<and> p \<le> INT_MAX"
proof (induction num rule: calc_next_prime.induct)
  case (1 num)
  show ?case
  proof (cases "is_prime num \<noteq> 0")
    case True
    then have "p = num" using 1(2) by (simp add: calc_next_prime.simps [of num])
    moreover have "2 \<le> num"
      using True is_prime_iff [of num] by (simp add: prime_int_def split: if_splits)
    ultimately show ?thesis using 1(3) by simp
  next
    case False
    then show ?thesis using 1 by (auto simp: calc_next_prime.simps [of num] split: if_splits)
  qed
qed

lemma key_tbl_init_fresh:
  assumes "key_tbl_init rand seed n sz len to = Inr (tbl, seed')" "sz \<le> INT_MAX"
  shows "\<exists>m. 2 \<le> m \<and> m < 2 ^ 31 \<and> tbl_list_size tbl = m \<and> tbl_list_len tbl = len \<and>
    tlist tbl = replicate m (replicate len zero_entry) \<and> list_len tbl = replicate m 0 \<and>
    kbits tbl = n \<and> entry_to tbl = to \<and> num_key tbl = 0"
proof -
  obtain q where q: "calc_next_prime sz = Inr q" using assms(1) by (auto simp: key_tbl_init_def)
  then have b: "2 \<le> q" "q \<le> INT_MAX" using calc_next_prime_bounds assms(2) by blast+
  show ?thesis using assms(1) q b
    by (intro exI [of _ "nat q"])
      (auto simp: key_tbl_init_def Let_def INT_MAX_def split: prod.splits)
qed

definition kt_empty :: "key_tbl \<Rightarrow> bool" where
  "kt_empty tbl \<longleftrightarrow> tlist tbl = replicate (tbl_list_size tbl) (replicate (tbl_list_len tbl) zero_entry) \<and>
     list_len tbl = replicate (tbl_list_size tbl) 0 \<and> num_key tbl = 0"

lemma kt_empty_live: "kt_empty tbl \<Longrightarrow> b < tbl_list_size tbl \<Longrightarrow> live tbl b = []"
  by (simp add: kt_empty_def live_def)

lemma kt_empty_acc:
  assumes "kt_empty tbl" "kbits tbl div 8 \<le> 13" "0 < tbl_list_size tbl" "tbl_list_size tbl < 2 ^ 31"
    "deq (entry_to tbl) (- 1)"
  shows "kt_acc tbl"
proof -
  have "sum_list (list_len tbl) = 0" "num_key tbl = 0"
    using assms(1) by (simp_all add: kt_empty_def sum_list_replicate)
  then have "num_key tbl = of_nat (sum_list (list_len tbl))" by (simp only: semiring_1_class.of_nat_0)
  moreover have "length (tlist tbl) = tbl_list_size tbl"
    "length (list_len tbl) = tbl_list_size tbl"
    using assms(1) by (simp_all add: kt_empty_def)
  moreover have "bucket_ok tbl b" if "b < tbl_list_size tbl" for b
    using assms(1) kt_empty_live [OF assms(1) that] that by (simp add: bucket_ok_def kt_empty_def)
  ultimately show ?thesis using assms kt_empty_live [OF assms(1)]
    by (simp add: kt_acc_def kt_inv_def)
qed

lemma kt_empty_total:
  assumes "kt_empty tbl" "0 < tbl_list_size tbl" "tbl_list_size tbl < 2 ^ 31"
  shows "kt_total tbl k = None"
  using kt_empty_live [OF assms(1) bucket_no_less [OF assms(2,3)]]
  by (simp add: kt_total_def key_tbl_find_index)

lemma init_flows:
  assumes "key_tbl_init rand seed 104 sz len (- 1) = Inr (tbl, seed')" "sz \<le> INT_MAX"
  shows "kt_empty tbl" "kt_flows tbl" "kt_total tbl k = None"
proof -
  have d: "deq (- 1) (- 1 :: dbl)" by code_simp
  note f = key_tbl_init_fresh [OF assms]
  then show e: "kt_empty tbl" by (auto simp: kt_empty_def)
  show "kt_flows tbl" using f d kt_empty_acc [OF e] by (auto simp: kt_flows_def)
  show "kt_total tbl k = None" using f kt_empty_total [OF e] by auto
qed

lemma key_tbl_reset_empty:
  assumes "kt_inv tbl"
  shows "kt_empty (key_tbl_reset tbl) \<and> kbits (key_tbl_reset tbl) = kbits tbl \<and>
    entry_to (key_tbl_reset tbl) = entry_to tbl \<and> tbl_list_size (key_tbl_reset tbl) = tbl_list_size tbl \<and>
    tbl_list_len (key_tbl_reset tbl) = tbl_list_len tbl \<and> bucket_no (key_tbl_reset tbl) = bucket_no tbl"
proof -
  define n where "n = tbl_list_size tbl"
  define l where "l = tbl_list_len tbl"
  have len: "length (tlist tbl) = n" "length (list_len tbl) = n"
    using assms by (simp_all add: kt_inv_def n_def)
  define I where "I i t \<longleftrightarrow> t = tbl\<lparr>num_key := 0,
      tlist := replicate i (replicate l zero_entry) @ drop i (tlist tbl),
      list_len := replicate i 0 @ drop i (list_len tbl)\<rparr>" for i t
  have u: "(replicate i x @ drop i xs)[i := x] = replicate (Suc i) x @ drop (Suc i) xs"
    if "i < length xs" for i x and xs :: "'z list"
    using that by (simp add: list_update_append Cons_nth_drop_Suc [symmetric] replicate_append_same)
  have "I n (key_tbl_reset tbl)"
    unfolding key_tbl_reset_def n_def [symmetric]
  proof (rule for_upto_rule)
    show "I 0 (tbl\<lparr>num_key := 0\<rparr>)" by (simp add: I_def)
    fix i t assume "i < n" "I i t"
    then show "I (Suc i) (t\<lparr>tlist := (tlist t)[i := replicate (tbl_list_len t) zero_entry],
        list_len := (list_len t)[i := 0]\<rparr>)"
      using u [of i "tlist tbl"] u [of i "list_len tbl"] len by (simp add: I_def l_def)
  qed
  then show ?thesis using len
    by (simp add: I_def kt_empty_def n_def l_def bucket_no_def fun_eq_iff)
qed

section \<open>The entries of a table\<close>

lemma find_live_iff:
  assumes "kt_inv tbl" "b < tbl_list_size tbl"
  shows "e \<in> set (live tbl b) \<longleftrightarrow>
    (\<exists>i. key_tbl_find tbl (tkey (tuple e)) = Some (b, i) \<and> get_entry tbl (b, i) = e)"
    (is "?l \<longleftrightarrow> ?r")
proof
  have ok: "bucket_ok tbl b" by (rule kt_inv_bucket [OF assms])
  assume ?l
  then obtain i where i: "i < length (live tbl b)" "live tbl b ! i = e" by (auto simp: in_set_conv_nth)
  have bn: "bucket_no tbl (tkey (tuple e)) = b" using \<open>?l\<close> ok by (simp add: bucket_ok_def)
  have "ebytes tbl e \<in> set (map (ebytes tbl) (live tbl b))" using \<open>?l\<close> by simp
  then obtain j where j: "index_of (ebytes tbl e) (map (ebytes tbl) (live tbl b)) = Some j"
    using index_of_None by fastforce
  have "j = i"
    using index_of_Some [OF j] i ok nth_eq_iff_index_eq [of "map (ebytes tbl) (live tbl b)" j i]
    by (simp add: bucket_ok_def)
  then have "key_tbl_find tbl (tkey (tuple e)) = Some (b, i)"
    using j bn by (simp add: key_tbl_find_index ebytes_def)
  moreover have "get_entry tbl (b, i) = e"
    using get_entry_live [OF assms] i live_length [OF ok] by simp
  ultimately show ?r by blast
next
  assume ?r
  then obtain i where i: "key_tbl_find tbl (tkey (tuple e)) = Some (b, i)" "get_entry tbl (b, i) = e"
    by blast
  have "i < list_len tbl ! b" by (rule find_hit [OF i(1) assms(1)]) (simp only: prod.inject)
  moreover have "i < length (live tbl b)"
    using calculation live_length [OF kt_inv_bucket [OF assms]] by simp
  moreover have "live tbl b ! i = e" using get_entry_live [OF assms calculation(1)] i(2) by simp
  ultimately show ?l using nth_mem by blast
qed

lemma get_all_live: "t \<in> set (key_tbl_get_all tbl) \<longleftrightarrow>
  (\<exists>b<tbl_list_size tbl. \<exists>e\<in>set (live tbl b). t = tuple e)"
  by (auto simp: key_tbl_get_all_def)

lemma get_all_distinct:
  assumes "kt_inv tbl"
  shows "distinct (map (\<lambda>t. kbytes tbl (tkey t)) (key_tbl_get_all tbl))"
proof -
  have "distinct (concat (map (\<lambda>b. map (ebytes tbl) (live tbl b)) [0..<n]))"
    if "n \<le> tbl_list_size tbl" for n
    using that
  proof (induction n)
    case (Suc n)
    have ok: "bucket_ok tbl n" using assms Suc.prems by (simp add: kt_inv_def)
    have "ebytes tbl e \<noteq> ebytes tbl f"
      if "b < n" "e \<in> set (live tbl b)" "f \<in> set (live tbl n)" for b e f
    proof
      assume "ebytes tbl e = ebytes tbl f"
      then have "bucket_no tbl (tkey (tuple e)) = bucket_no tbl (tkey (tuple f))"
        unfolding ebytes_def by (rule bucket_no_kbytes)
      moreover have "bucket_ok tbl b" using assms Suc.prems that(1) by (simp add: kt_inv_def)
      ultimately show False using ok that by (auto simp: bucket_ok_def)
    qed
    then have "set (map (ebytes tbl) (live tbl n)) \<inter>
        set (concat (map (\<lambda>b. map (ebytes tbl) (live tbl b)) [0..<n])) = {}"
      by fastforce
    then show ?case using Suc ok by (simp add: bucket_ok_def Int_commute)
  qed simp
  from this [of "tbl_list_size tbl"] show ?thesis
    by (simp add: key_tbl_get_all_def map_concat comp_def ebytes_def [abs_def])
qed

lemma get_all_total:
  assumes "kt_flows tbl"
  shows "t \<in> set (key_tbl_get_all tbl) \<longrightarrow> kt_total tbl (tkey t) = Some (tsize t)"
    and "kt_total tbl k = Some s \<longrightarrow> (\<exists>t\<in>set (key_tbl_get_all tbl). tkey t = k \<and> tsize t = s)"
proof -
  have inv: "kt_inv tbl" using assms by (simp add: kt_flows_def kt_acc_def)
  show "t \<in> set (key_tbl_get_all tbl) \<longrightarrow> kt_total tbl (tkey t) = Some (tsize t)"
    using find_live_iff [OF inv] by (auto simp: get_all_live kt_total_def)
  show "kt_total tbl k = Some s \<longrightarrow> (\<exists>t\<in>set (key_tbl_get_all tbl). tkey t = k \<and> tsize t = s)"
  proof
    assume "kt_total tbl k = Some s"
    then obtain p where p: "key_tbl_find tbl k = Some p" "tsize (tuple (get_entry tbl p)) = s"
      by (auto simp: kt_total_def)
    define b where "b = bucket_no tbl k"
    have b: "b < tbl_list_size tbl" using kt_inv_bucket_no [OF inv] by (simp add: b_def)
    obtain i where i: "p = (b, i)" "i < list_len tbl ! b" "ebytes tbl (live tbl b ! i) = kbytes tbl k"
      using find_hit [OF p(1) inv] unfolding b_def by metis
    have "live tbl b ! i \<in> set (live tbl b)" using i(2) live_length [OF kt_inv_bucket [OF inv b]] by simp
    moreover have "tkey (tuple (live tbl b ! i)) = k"
      using i(3) assms by (simp add: ebytes_def kt_flows_find)
    moreover have "tsize (tuple (live tbl b ! i)) = s"
      using p(2) get_entry_live [OF inv b i(2)] i(1) by simp
    moreover have "tuple (live tbl b ! i) \<in> set (key_tbl_get_all tbl)"
      using b calculation(1) get_all_live [of _ tbl] by blast
    ultimately show "\<exists>t\<in>set (key_tbl_get_all tbl). tkey t = k \<and> tsize t = s" by blast
  qed
qed

lemma get_all_keys_distinct:
  assumes "kt_flows tbl"
  shows "distinct (map tkey (key_tbl_get_all tbl))"
proof -
  have "distinct (map key_bytes (map tkey (key_tbl_get_all tbl)))"
    using get_all_distinct [of tbl] assms
    by (simp add: kt_flows_find [OF assms] comp_def) (simp add: kt_flows_def kt_acc_def)
  then show ?thesis by (simp only: distinct_map)
qed

lemma sum_distinct_group:
  fixes g :: "'a \<Rightarrow> 'b::comm_monoid_add"
  assumes "distinct ks" "\<forall>x\<in>set xs. f x \<in> set ks"
  shows "sum_list (map (\<lambda>k. sum_list (map g (filter (\<lambda>x. f x = k) xs))) ks) = sum_list (map g xs)"
  using assms(2)
proof (induction xs)
  case Nil
  then show ?case by (induction ks) auto
next
  case (Cons x xs)
  have "sum_list (map (\<lambda>k. (if f x = k then g x else 0)) ks) = g x"
    using assms(1) Cons.prems by (simp add: sum_list_distinct_conv_sum_set)
  moreover have "sum_list (map (\<lambda>k. sum_list (map g (filter (\<lambda>y. f y = k) (x # xs)))) ks) =
      sum_list (map (\<lambda>k. (if f x = k then g x else 0) + sum_list (map g (filter (\<lambda>y. f y = k) xs))) ks)"
    by (intro arg_cong [where f = sum_list] map_cong) auto
  ultimately show ?case using Cons by (simp add: sum_list_addf)
qed

lemma key_tbl_stream_totals_gen:
  assumes "add_all tbl ts = Inr tbl'" "kt_flows tbl"
  shows "kt_total tbl' k =
    (if k \<in> tkey ` set ts
     then Some ((case kt_total tbl k of None \<Rightarrow> 0 | Some w \<Rightarrow> w) + sum_list (flow_sizes ts k))
     else kt_total tbl k)"
proof -
  have "flow_sizes ts k = [] \<longleftrightarrow> k \<notin> tkey ` set ts"
    by (auto simp: flow_sizes_def filter_empty_conv)
  then show ?thesis using add_all_total [OF assms] by simp
qed

lemma sum_list_map_mset:
  "mset xs = mset ys \<Longrightarrow> sum_list (map f xs) = sum_list (map f ys)"
  for f :: "'a \<Rightarrow> 'b::comm_monoid_add"
  by (metis mset_map sum_mset_sum_list)

section \<open>What the table computes\<close>

text \<open>C19: After any packet stream, a table set up as the callers do it (104-bit keys, no expiry)
  returns for each flow exactly the sum of the sizes of its packets (modulo \<open>2^32\<close>), and finds
  no flow that did not occur.\<close>

theorem key_tbl_stream_totals:
  assumes "key_tbl_init rand seed 104 sz len (- 1) = Inr (tbl, seed')" "sz \<le> INT_MAX"
    and "add_all tbl ts = Inr tbl'"
  shows "kt_total tbl' k =
    (if k \<in> tkey ` set ts then Some (sum_list (flow_sizes ts k)) else None)"
  using key_tbl_stream_totals_gen [OF assms(3) init_flows(2) [OF assms(1,2)]]
    init_flows(3) [OF assms(1,2)] by simp

text \<open>Streams that cannot fill a bucket are recorded completely.\<close>

lemma key_tbl_add_room:
  assumes "kt_acc tbl" "list_len tbl ! bucket_no tbl k < tbl_list_len tbl"
  shows "\<exists>tbl'. key_tbl_add tbl k s = Inr tbl' \<and> tbl_list_len tbl' = tbl_list_len tbl \<and>
    tbl_list_size tbl' = tbl_list_size tbl \<and>
    (\<forall>b. b < tbl_list_size tbl \<longrightarrow> list_len tbl' ! b \<le> list_len tbl ! b + 1)"
proof -
  have "length (list_len tbl) = tbl_list_size tbl" "bucket_no tbl k < tbl_list_size tbl"
    using assms(1) kt_inv_bucket_no by (simp_all add: kt_acc_def kt_inv_def)
  then show ?thesis using assms(2)
    by (cases "key_tbl_find tbl k")
      (auto simp: key_tbl_add_cases [OF assms(1)] Let_def nth_list_update)
qed

lemma add_all_succeeds:
  assumes "kt_acc tbl" "\<forall>b<tbl_list_size tbl. list_len tbl ! b + length ts \<le> tbl_list_len tbl"
  shows "\<exists>tbl'. add_all tbl ts = Inr tbl'"
  using assms
proof (induction ts arbitrary: tbl)
  case (Cons t ts)
  have "bucket_no tbl (tkey t) < tbl_list_size tbl"
    using Cons.prems(1) kt_inv_bucket_no by (auto simp: kt_acc_def)
  then have "list_len tbl ! bucket_no tbl (tkey t) < tbl_list_len tbl"
    using Cons.prems(2) by (metis add_lessD1 length_Cons less_add_Suc1 order_less_le_trans add_Suc_right)
  from key_tbl_add_room [OF Cons.prems(1) this, of "tsize t"]
  obtain tbl1 where t1: "key_tbl_add tbl (tkey t) (tsize t) = Inr tbl1"
    "tbl_list_len tbl1 = tbl_list_len tbl" "tbl_list_size tbl1 = tbl_list_size tbl"
    "\<forall>b<tbl_list_size tbl. list_len tbl1 ! b \<le> list_len tbl ! b + 1" by blast
  have "\<forall>b<tbl_list_size tbl1. list_len tbl1 ! b + length ts \<le> tbl_list_len tbl1"
  proof (intro allI impI)
    fix b assume "b < tbl_list_size tbl1"
    then have "list_len tbl1 ! b \<le> list_len tbl ! b + 1"
      "list_len tbl ! b + length (t # ts) \<le> tbl_list_len tbl" using t1 Cons.prems(2) by simp_all
    then show "list_len tbl1 ! b + length ts \<le> tbl_list_len tbl1" using t1(2) by simp
  qed
  then show ?case using Cons.IH [of tbl1] add_step [OF Cons.prems(1) t1(1)] t1(1) by simp
qed simp

definition tuple_of :: "flow_key \<Rightarrow> i32 \<Rightarrow> tuple_t" where
  "tuple_of k s = zero_tuple\<lparr>tkey := k, tsize := s\<rparr>"

definition demo_stream :: "tuple_t list" where
  "demo_stream = [tuple_of zero_key 3, tuple_of (zero_key\<lparr>proto := 6\<rparr>) 4, tuple_of zero_key 5]"

lemma demo_init: "\<exists>tbl s. key_tbl_init 7 0 104 2 3 (- 1) = Inr (tbl, s)"
proof -
  have "calc_next_prime 2 = Inr 2" by code_simp
  then show ?thesis by (simp add: key_tbl_init_def Let_def split: prod.split)
qed

lemma demo_size: "(2::int) \<le> INT_MAX"
  by (simp add: INT_MAX_def)

lemma demo_add_all:
  assumes "key_tbl_init 7 0 104 2 3 (- 1) = Inr (tbl, s)"
  shows "\<exists>tbl'. add_all tbl demo_stream = Inr tbl'"
proof (rule add_all_succeeds)
  show "kt_acc tbl" using init_flows(2) [OF assms demo_size] by (simp add: kt_flows_def)
  show "\<forall>b<tbl_list_size tbl. list_len tbl ! b + length demo_stream \<le> tbl_list_len tbl"
    using key_tbl_init_fresh [OF assms demo_size] by (auto simp: demo_stream_def)
qed

lemma key_tbl_stream_totals_witness:
  "\<exists>tbl s tbl'. key_tbl_init 7 0 104 2 3 (- 1) = Inr (tbl, s) \<and> add_all tbl demo_stream = Inr tbl' \<and>
     kt_total tbl' zero_key = Some 8"
proof -
  obtain tbl s tbl' where h: "key_tbl_init 7 0 104 2 3 (- 1) = Inr (tbl, s)"
    "add_all tbl demo_stream = Inr tbl'" using demo_init demo_add_all by blast
  have "zero_key \<in> tkey ` set demo_stream" "sum_list (flow_sizes demo_stream zero_key) = 8"
    by code_simp+
  then show ?thesis
    using key_tbl_stream_totals [OF h(1) demo_size h(2), of zero_key] h by auto
qed

lemma get_all_keys_stream:
  assumes "add_all tbl ts = Inr tbl'" "kt_flows tbl" "\<And>k. kt_total tbl k = None"
  shows "tkey ` set (key_tbl_get_all tbl') = tkey ` set ts"
proof -
  have fl: "kt_flows tbl'" by (rule add_all_flows [OF assms(1,2)])
  have tot: "kt_total tbl' k =
      (if k \<in> tkey ` set ts then Some (sum_list (flow_sizes ts k)) else None)" for k
    using key_tbl_stream_totals_gen [OF assms(1,2)] assms(3) by simp
  show ?thesis
  proof
    show "tkey ` set (key_tbl_get_all tbl') \<subseteq> tkey ` set ts"
    proof
      fix k assume "k \<in> tkey ` set (key_tbl_get_all tbl')"
      then obtain t where "t \<in> set (key_tbl_get_all tbl')" "k = tkey t" by blast
      then show "k \<in> tkey ` set ts"
        using get_all_total(1) [OF fl, of t] tot [of k] by (simp split: if_splits)
    qed
    show "tkey ` set ts \<subseteq> tkey ` set (key_tbl_get_all tbl')"
    proof
      fix k assume "k \<in> tkey ` set ts"
      then have "kt_total tbl' k = Some (sum_list (flow_sizes ts k))" using tot [of k] by simp
      then show "k \<in> tkey ` set (key_tbl_get_all tbl')" using get_all_total(2) [OF fl] by blast
    qed
  qed
qed

lemma get_all_stream_gen:
  assumes "add_all tbl ts = Inr tbl'" "kt_flows tbl" "\<And>k. kt_total tbl k = None"
  shows "distinct (map tkey (key_tbl_get_all tbl')) \<and>
    (\<lambda>t. (tkey t, tsize t)) ` set (key_tbl_get_all tbl') =
      (\<lambda>k. (k, sum_list (flow_sizes ts k))) ` tkey ` set ts \<and>
    sum_list (map tsize (key_tbl_get_all tbl')) = sum_list (map tsize ts)"
proof -
  have fl: "kt_flows tbl'" by (rule add_all_flows [OF assms(1,2)])
  have "kt_total tbl' k = (if k \<in> tkey ` set ts then Some (sum_list (flow_sizes ts k)) else None)" for k
    using key_tbl_stream_totals_gen [OF assms(1,2)] assms(3) by simp
  note tot = this
  have d: "distinct (map tkey (key_tbl_get_all tbl'))" by (rule get_all_keys_distinct [OF fl])
  have sz: "tkey t \<in> tkey ` set ts \<and> tsize t = sum_list (flow_sizes ts (tkey t))"
    if "t \<in> set (key_tbl_get_all tbl')" for t
    using get_all_total(1) [OF fl, of t] that tot [of "tkey t"] by (auto split: if_splits)
  have ks: "tkey ` set (key_tbl_get_all tbl') = tkey ` set ts"
    by (rule get_all_keys_stream [OF assms])
  have img: "(\<lambda>t. (tkey t, tsize t)) ` set (key_tbl_get_all tbl') =
      (\<lambda>k. (k, sum_list (flow_sizes ts k))) ` tkey ` set (key_tbl_get_all tbl')"
    using sz unfolding image_image by (intro image_cong) auto
  have "sum_list (map tsize (key_tbl_get_all tbl')) =
      sum_list (map (\<lambda>k. sum_list (flow_sizes ts k)) (map tkey (key_tbl_get_all tbl')))"
    using sz by (intro arg_cong [where f = sum_list]) simp
  also have "\<dots> = sum_list (map tsize ts)"
    unfolding flow_sizes_def
    by (rule sum_distinct_group [OF d]) (use ks in auto)
  finally show ?thesis using d img ks by simp
qed

text \<open>C35: The table is complete and conserves bytes: the records \<open>key_tbl_get_all\<close> returns have
  pairwise different keys, are exactly the flows of the stream with their totals, and their
  sizes add up to the sizes of all packets (modulo \<open>2^32\<close>).\<close>

theorem key_tbl_get_all_stream:
  assumes "key_tbl_init rand seed 104 sz len (- 1) = Inr (tbl, seed')" "sz \<le> INT_MAX"
    and "add_all tbl ts = Inr tbl'"
  shows "distinct (map tkey (key_tbl_get_all tbl')) \<and>
    (\<lambda>t. (tkey t, tsize t)) ` set (key_tbl_get_all tbl') =
      (\<lambda>k. (k, sum_list (flow_sizes ts k))) ` tkey ` set ts \<and>
    sum_list (map tsize (key_tbl_get_all tbl')) = sum_list (map tsize ts)"
  by (rule get_all_stream_gen [OF assms(3) init_flows(2,3) [OF assms(1,2)]])

lemma key_tbl_get_all_stream_witness:
  "\<exists>tbl s tbl'. key_tbl_init 7 0 104 2 3 (- 1) = Inr (tbl, s) \<and> add_all tbl demo_stream = Inr tbl' \<and>
     sum_list (map tsize (key_tbl_get_all tbl')) = 12"
proof -
  obtain tbl s tbl' where h: "key_tbl_init 7 0 104 2 3 (- 1) = Inr (tbl, s)"
    "add_all tbl demo_stream = Inr tbl'" using demo_init demo_add_all by blast
  have "sum_list (map tsize demo_stream) = 12" by code_simp
  then show ?thesis using key_tbl_get_all_stream [OF h(1) demo_size h(2)] h by auto
qed

lemma add_exit_iff_gen:
  assumes "kt_acc tbl"
  shows "key_tbl_add tbl k s \<noteq> Inl OutOfBounds \<and>
    (key_tbl_add tbl k s = Inl ExitError \<longleftrightarrow>
      kt_total tbl k = None \<and> length (live tbl (bucket_no tbl k)) = tbl_list_len tbl)"
proof -
  have inv: "kt_inv tbl" using assms by (simp add: kt_acc_def)
  then have ok: "bucket_ok tbl (bucket_no tbl k)" using kt_inv_bucket kt_inv_bucket_no by blast
  then have "list_len tbl ! bucket_no tbl k \<le> tbl_list_len tbl" by (simp add: bucket_ok_def)
  then show ?thesis using live_length [OF ok]
    by (cases "key_tbl_find tbl k") (auto simp: key_tbl_add_cases [OF assms] Let_def kt_total_def)
qed

text \<open>C37: On a well-formed table in which no entry expires (\<open>entry_to = -1\<close>, additions at time
  stamp -1, as every caller has it), an addition never reads or writes outside the bucket's
  allocated entries or the array of lengths, whose bounds every access of the model checks, and it
  ends the process exactly when the flow is new and its bucket holds \<open>tbl_list_len\<close> flows.\<close>

theorem key_tbl_add_exit_iff:
  assumes "kt_acc tbl"
  shows "key_tbl_add tbl k s \<noteq> Inl OutOfBounds \<and>
    (key_tbl_add tbl k s = Inl ExitError \<longleftrightarrow>
      kt_total tbl k = None \<and> length (live tbl (bucket_no tbl k)) = tbl_list_len tbl)"
  using add_exit_iff_gen [OF assms] .

lemma key_tbl_add_exit_iff_witness:
  "\<exists>tbl s. key_tbl_init 7 0 104 2 0 (- 1) = Inr (tbl, s) \<and> key_tbl_add tbl zero_key 1 = Inl ExitError"
proof -
  have "calc_next_prime 2 = Inr 2" by code_simp
  then have "\<exists>tbl s. key_tbl_init 7 0 104 2 0 (- 1) = Inr (tbl, s)"
    by (simp add: key_tbl_init_def Let_def split: prod.split)
  then obtain tbl s where h: "key_tbl_init 7 0 104 2 0 (- 1) = Inr (tbl, s)" by blast
  have acc: "kt_acc tbl" using init_flows(2) [OF h demo_size] by (simp add: kt_flows_def)
  then have "bucket_no tbl zero_key < tbl_list_size tbl" using kt_inv_bucket_no by (simp add: kt_acc_def)
  then have "live tbl (bucket_no tbl zero_key) = []" "tbl_list_len tbl = 0"
    using kt_empty_live [OF init_flows(1) [OF h demo_size]] key_tbl_init_fresh [OF h demo_size] by auto
  then show ?thesis
    using key_tbl_add_exit_iff [OF acc, of zero_key 1] init_flows(3) [OF h demo_size, of zero_key] h
    by auto
qed

section \<open>Copies, resets and files\<close>

lemma flow_sizes_get_all:
  assumes "kt_flows tbl"
  shows "flow_sizes (key_tbl_get_all tbl) k = (case kt_total tbl k of None \<Rightarrow> [] | Some s \<Rightarrow> [s])"
proof (cases "kt_total tbl k")
  case None
  then have "\<forall>t\<in>set (key_tbl_get_all tbl). tkey t \<noteq> k" using get_all_total(1) [OF assms] by fastforce
  then show ?thesis using None by (simp add: flow_sizes_def filter_empty_conv)
next
  case (Some s)
  then obtain t where t: "t \<in> set (key_tbl_get_all tbl)" "tkey t = k" "tsize t = s"
    using get_all_total(2) [OF assms] by blast
  then have "filter (\<lambda>x. tkey x = k) (key_tbl_get_all tbl) = [t]"
    using get_all_keys_distinct [OF assms]
  proof (induction "key_tbl_get_all tbl" rule: rev_induct)
    case Nil
    then show ?case by simp
  next
    case (snoc x xs)
    have "filter (\<lambda>x. tkey x = k) ys = [t]" if "t \<in> set ys" "distinct (map tkey ys)" for ys
      using that t(2) by (induction ys) (auto simp: filter_empty_conv image_iff)
    then show ?case using snoc by blast
  qed
  then show ?thesis using Some t(3) by (simp add: flow_sizes_def)
qed

lemma add_get_all_total:
  assumes "add_all dst ts = Inr dst'" "kt_flows dst" "kt_flows src"
    and "mset ts = mset (key_tbl_get_all src)"
  shows "kt_total dst' k = (case kt_total src k of None \<Rightarrow> kt_total dst k
    | Some s \<Rightarrow> Some ((case kt_total dst k of None \<Rightarrow> 0 | Some w \<Rightarrow> w) + s))"
proof -
  have m: "mset (flow_sizes ts k) = mset (flow_sizes (key_tbl_get_all src) k)"
    using assms(4) by (simp add: flow_sizes_def mset_filter)
  then have "sum_list (flow_sizes ts k) = sum_list (flow_sizes (key_tbl_get_all src) k)"
    by (metis sum_mset_sum_list)
  moreover have "flow_sizes ts k = [] \<longleftrightarrow> flow_sizes (key_tbl_get_all src) k = []"
    using m by (metis mset_zero_iff)
  ultimately show ?thesis
    unfolding add_all_total [OF assms(1,2)] flow_sizes_get_all [OF assms(3)]
    by (cases "kt_total src k") simp_all
qed

text \<open>Copying a table into another adds the totals flow by flow; into an empty table it
  reproduces them.\<close>

theorem key_tbl_copy_totals:
  assumes "key_tbl_copy dst src = Inr dst'" "kt_flows dst" "kt_flows src"
  shows "kt_total dst' k = (case kt_total src k of None \<Rightarrow> kt_total dst k
    | Some s \<Rightarrow> Some ((case kt_total dst k of None \<Rightarrow> 0 | Some w \<Rightarrow> w) + s))"
  using assms unfolding key_tbl_copy_def by (intro add_get_all_total) simp_all

lemma read_lines_print:
  "read_lines junk (map print_tuple ts) p tot tbl =
    rbind (add_all tbl ts) (\<lambda>tbl'. Inr (tot + sum_list (map (\<lambda>t. scast (tsize t)) ts), tbl'))"
proof (induction ts arbitrary: p tot tbl)
  case (Cons t ts)
  then show ?case
    by (cases "key_tbl_add tbl (tkey t) (tsize t)") (simp_all add: read_print_tuple Let_def add.assoc)
qed simp

lemma print_read_gen:
  assumes "key_tbl_read_file junk p (Some (key_tbl_print tbl)) tbl0 = Inr (tot, tbl1)"
    and "kt_flows tbl" "kt_flows tbl0" "\<forall>k. kt_total tbl0 k = None"
  shows "kt_total tbl1 k = kt_total tbl k \<and>
    tot = sum_list (map (\<lambda>t. scast (tsize t)) (key_tbl_get_all tbl))"
proof -
  let ?ts = "qsort cmp_tuple (key_tbl_get_all tbl)"
  have "rbind (add_all tbl0 ?ts) (\<lambda>tbl'. Inr (0 + sum_list (map (\<lambda>t. scast (tsize t)) ?ts), tbl'))
      = Inr (tot, tbl1)"
    using assms(1)
    by (simp add: key_tbl_read_file_def key_tbl_print_def lines_print_tuples read_lines_print)
  then have a: "add_all tbl0 ?ts = Inr tbl1" and s: "tot = sum_list (map (\<lambda>t. scast (tsize t)) ?ts)"
    by auto
  have "kt_total tbl1 k = kt_total tbl k"
    using add_get_all_total [OF a assms(3,2) mset_qsort, of k] assms(4)
    by (simp split: option.splits)
  moreover have "sum_list (map (\<lambda>t. scast (tsize t)) ?ts) =
      sum_list (map (\<lambda>t. scast (tsize t) :: u64) (key_tbl_get_all tbl))"
    by (rule sum_list_map_mset [OF mset_qsort])
  ultimately show ?thesis using s by simp
qed

text \<open>C36: Printing a table and reading the file back into an empty table restores every total, and
  the sum returned is the sum of the sizes, sign-extended to 64 bits.\<close>

theorem key_tbl_print_read:
  assumes "key_tbl_read_file junk p (Some (key_tbl_print tbl)) tbl0 = Inr (tot, tbl1)"
    and "kt_flows tbl" "kt_flows tbl0" "\<forall>k. kt_total tbl0 k = None"
  shows "kt_total tbl1 k = kt_total tbl k \<and>
    tot = sum_list (map (\<lambda>t. scast (tsize t)) (key_tbl_get_all tbl))"
  using print_read_gen [OF assms] .

lemma reset_clears_gen:
  assumes "kt_flows tbl"
  shows "kt_flows (key_tbl_reset tbl) \<and> kt_total (key_tbl_reset tbl) k = None \<and>
    key_tbl_get_all (key_tbl_reset tbl) = [] \<and> num_key (key_tbl_reset tbl) = 0"
proof -
  have inv: "kt_inv tbl" using assms by (simp add: kt_flows_def kt_acc_def)
  note r = key_tbl_reset_empty [OF inv]
  have sz: "0 < tbl_list_size tbl" "tbl_list_size tbl < 2 ^ 31" "kbits tbl div 8 \<le> 13"
    using inv by (simp_all add: kt_inv_def)
  have e: "kt_empty (key_tbl_reset tbl)" using r by simp
  have "kt_acc (key_tbl_reset tbl)"
    using kt_empty_acc [OF e] r sz assms by (simp add: kt_flows_def kt_acc_def)
  moreover have "kt_total (key_tbl_reset tbl) k = None" using kt_empty_total [OF e] r sz by simp
  moreover have "key_tbl_get_all (key_tbl_reset tbl) = []"
    using kt_empty_live [OF e] by (simp add: key_tbl_get_all_def)
  moreover have "num_key (key_tbl_reset tbl) = 0" using e by (simp add: kt_empty_def)
  ultimately show ?thesis using r assms by (simp add: kt_flows_def)
qed

text \<open>A reset table finds no flow, counts none, and keeps working as a flow counter.\<close>

theorem key_tbl_reset_clears:
  assumes "kt_flows tbl"
  shows "kt_flows (key_tbl_reset tbl) \<and> kt_total (key_tbl_reset tbl) k = None \<and>
    key_tbl_get_all (key_tbl_reset tbl) = [] \<and> num_key (key_tbl_reset tbl) = 0"
  using reset_clears_gen [OF assms] .

text \<open>The running count \<open>num_key\<close>, the recount \<open>key_tbl_num_key\<close> and the number of records
  \<open>key_tbl_get_all\<close> returns agree (modulo \<open>2^32\<close>).\<close>

theorem key_tbl_num_key_agree:
  assumes "kt_inv tbl"
  shows "key_tbl_num_key tbl = num_key tbl \<and> num_key tbl = of_nat (length (key_tbl_get_all tbl))"
proof -
  have len: "length (list_len tbl) = tbl_list_size tbl" using assms by (simp add: kt_inv_def)
  have "for_upto n (\<lambda>i ret. ret + of_nat (list_len tbl ! i)) (0 :: i32) =
      of_nat (sum_list (map ((!) (list_len tbl)) [0..<n]))" for n
    by (induction n) simp_all
  then have k: "key_tbl_num_key tbl = of_nat (sum_list (list_len tbl))"
    using len by (simp add: key_tbl_num_key_def list_eq_upt_map)
  have "length (key_tbl_get_all tbl) = sum_list (map (\<lambda>b. length (live tbl b)) [0..<tbl_list_size tbl])"
    by (simp add: key_tbl_get_all_def length_concat comp_def)
  also have "\<dots> = sum_list (map ((!) (list_len tbl)) [0..<tbl_list_size tbl])"
    using live_length kt_inv_bucket [OF assms] by (intro arg_cong [where f = sum_list] map_cong) auto
  also have "\<dots> = sum_list (list_len tbl)" using len by (simp add: list_eq_upt_map)
  finally show ?thesis using k assms by (simp add: kt_inv_def)
qed

text \<open>One table set up, filled, printed, read back and copied discharges the hypotheses.\<close>

lemma demo_tables:
  obtains tbl s tbl' where "key_tbl_init 7 0 104 2 3 (- 1) = Inr (tbl, s)"
    "add_all tbl demo_stream = Inr tbl'" "kt_flows tbl" "kt_flows tbl'"
    "\<forall>k. kt_total tbl k = None" "kt_total tbl' zero_key = Some 8"
    "\<forall>ts. length ts \<le> 3 \<longrightarrow> (\<exists>u. add_all tbl ts = Inr u)" "length (key_tbl_get_all tbl') = 2"
proof -
  obtain tbl s tbl' where h: "key_tbl_init 7 0 104 2 3 (- 1) = Inr (tbl, s)"
    "add_all tbl demo_stream = Inr tbl'" using demo_init demo_add_all by blast
  note f = init_flows [OF h(1) demo_size]
  have fl: "kt_flows tbl'" by (rule add_all_flows [OF h(2) f(2)])
  have c: "zero_key \<in> tkey ` set demo_stream" "sum_list (flow_sizes demo_stream zero_key) = 8"
    "card (set (map tkey demo_stream)) = 2"
    by code_simp+
  have t: "kt_total tbl' zero_key = Some 8"
    using key_tbl_stream_totals_gen [OF h(2) f(2)] f(3) c by simp
  have "set (map tkey (key_tbl_get_all tbl')) = set (map tkey demo_stream)"
    using get_all_keys_stream [OF h(2) f(2,3)] by simp
  then have "card (set (map tkey (key_tbl_get_all tbl'))) = 2" using c(3) by (simp only:)
  then have l: "length (key_tbl_get_all tbl') = 2"
    using distinct_card [OF get_all_keys_distinct [OF fl]] by simp
  have "\<exists>u. add_all tbl ts = Inr u" if "length ts \<le> 3" for ts
  proof (rule add_all_succeeds)
    show "kt_acc tbl" using f(2) by (simp add: kt_flows_def)
    show "\<forall>b<tbl_list_size tbl. list_len tbl ! b + length ts \<le> tbl_list_len tbl"
      using key_tbl_init_fresh [OF h(1) demo_size] that by auto
  qed
  then show ?thesis using that [OF h f(2) fl _ t _ l] f(3) by blast
qed

lemma key_tbl_copy_totals_witness:
  "\<exists>dst src dst'. key_tbl_copy dst src = Inr dst' \<and> kt_total dst' zero_key = Some 8"
proof -
  obtain tbl s tbl' where d: "key_tbl_init 7 0 104 2 3 (- 1) = Inr (tbl, s)" "kt_flows tbl"
    "kt_flows tbl'" "\<forall>k. kt_total tbl k = None" "kt_total tbl' zero_key = Some 8"
    "\<forall>ts. length ts \<le> 3 \<longrightarrow> (\<exists>u. add_all tbl ts = Inr u)" "length (key_tbl_get_all tbl') = 2"
    by (rule demo_tables) blast
  then have "\<exists>u. add_all tbl (key_tbl_get_all tbl') = Inr u" by simp
  then obtain u where "key_tbl_copy tbl tbl' = Inr u" unfolding key_tbl_copy_def by blast
  then show ?thesis using key_tbl_copy_totals [of tbl tbl' u zero_key] d by auto
qed

lemma key_tbl_print_read_witness:
  "\<exists>tbl tbl0 tot tbl1. key_tbl_read_file 0 zero_tuple (Some (key_tbl_print tbl)) tbl0 =
     Inr (tot, tbl1) \<and> kt_total tbl1 zero_key = Some 8"
proof -
  obtain tbl s tbl' where d: "key_tbl_init 7 0 104 2 3 (- 1) = Inr (tbl, s)" "kt_flows tbl"
    "kt_flows tbl'" "\<forall>k. kt_total tbl k = None" "kt_total tbl' zero_key = Some 8"
    "\<forall>ts. length ts \<le> 3 \<longrightarrow> (\<exists>u. add_all tbl ts = Inr u)" "length (key_tbl_get_all tbl') = 2"
    by (rule demo_tables) blast
  then have "\<exists>u. add_all tbl (qsort cmp_tuple (key_tbl_get_all tbl')) = Inr u" by simp
  then obtain u where "add_all tbl (qsort cmp_tuple (key_tbl_get_all tbl')) = Inr u" by blast
  then have "\<exists>tot tbl1. key_tbl_read_file 0 zero_tuple (Some (key_tbl_print tbl')) tbl = Inr (tot, tbl1)"
    by (simp add: key_tbl_read_file_def key_tbl_print_def lines_print_tuples read_lines_print)
  then show ?thesis using key_tbl_print_read [of 0 zero_tuple tbl' tbl] d by fastforce
qed

lemma key_tbl_reset_clears_witness:
  "\<exists>tbl. kt_total tbl zero_key = Some 8 \<and> kt_total (key_tbl_reset tbl) zero_key = None"
proof -
  obtain tbl s tbl' where d: "kt_flows tbl'" "kt_total tbl' zero_key = Some 8"
    by (rule demo_tables) blast
  then show ?thesis using key_tbl_reset_clears [of tbl' zero_key] by blast
qed

lemma key_tbl_num_key_agree_witness: "\<exists>tbl. key_tbl_num_key tbl = 2 \<and> num_key tbl = 2"
proof -
  obtain tbl s tbl' where d: "kt_flows tbl'" "length (key_tbl_get_all tbl') = 2"
    by (rule demo_tables) blast
  then have "kt_inv tbl'" by (simp add: kt_flows_def kt_acc_def)
  then show ?thesis using key_tbl_num_key_agree [of tbl'] d(2) by auto
qed

end
