(* ===== verification/Sketch.thy ===== *)
theory Sketch
  imports Key_Table
begin

text \<open>
  The sketch of \<^verbatim>\<open>alg_sketchlearn.c\<close>: its counters and the operations that change them. A key is
  the list of the bytes it points to; \<open>counts\<close> is the array of buckets, each with the total at
  index 0, the counter of bit \<open>k\<close> at \<open>k\<close> (1 to \<open>lgn\<close>) and of its complement at \<open>k + lgn\<close>. The
  interface \<open>linear_sketch\<close> says that an update adds its size to the cells it selects; the
  results about streams, merging and differences are proved from it.
\<close>

section \<open>State\<close>

record skl_t =
  depth :: nat
  width :: nat
  lgn :: nat
  sk_size :: nat
  hash_a :: "u64 list"
  scale_a :: "u64 list"
  hardner_a :: "u64 list"
  counts :: "i32 list list"
  bit_mean :: "dbl list"
  bit_std :: "dbl list"

text \<open>\<open>depth\<close> consecutive seeds into an array; \<open>index\<close> counts up as the loop variable \<open>seed\<close>.\<close>

definition gen_seeds :: "u64 \<Rightarrow> nat \<Rightarrow> u64 \<Rightarrow> u64 \<Rightarrow> u64 list \<times> u64 \<times> u64" where
  "gen_seeds rand n glob index =
     for_upto n (\<lambda>i (xs, glob, index).
       let (v, glob') = GenHashSeed rand glob (ucast index) in (xs @ [v], glob', index + 1))
       ([], glob, index)"

definition deltoid_seed :: u64 where
  "deltoid_seed = AwareHash (map of_char ''deltoid'') 7 13091204281 228204732751 6620830889"

definition SKL_Init :: "u64 \<Rightarrow> u64 \<Rightarrow> int \<Rightarrow> nat \<Rightarrow> nat \<Rightarrow> (skl_t \<times> u64) res" where
  "SKL_Init rand glob w d n =
     rbind (calc_next_prime w) (\<lambda>w'.
       if INT_MAX < w' * int d then Inl OutOfBounds
       else
         let (hs, glob1, ix1) = gen_seeds rand d glob deltoid_seed;
             (ss, glob2, ix2) = gen_seeds rand d glob1 ix1;
             (ha, glob3, ix3) = gen_seeds rand d glob2 ix2
         in Inr (\<lparr>depth = d, width = nat w', lgn = n, sk_size = nat w' * d, hash_a = hs,
                  scale_a = ss, hardner_a = ha,
                  counts = replicate (nat w' * d) (replicate (1 + n * 2) 0),
                  bit_mean = replicate 104 0, bit_std = replicate 104 0\<rparr>, glob3))"

text \<open>The sizes as the code computes them: \<open>sizeof\<close> of the struct is a parameter.\<close>

definition SKL_Size :: "i32 \<Rightarrow> skl_t \<Rightarrow> i32" where
  "SKL_Size sizeof_skl skl =
     sizeof_skl + 3 * 4 * of_nat (depth skl) + of_nat (sk_size skl) * 8 +
     of_nat (sk_size skl) * (1 + of_nat (lgn skl)) * 4"

section \<open>Bits of a key\<close>

definition set_bit_at :: "byte list \<Rightarrow> nat \<Rightarrow> int \<Rightarrow> byte list" where
  "set_bit_at a pos v =
     (let i = pos div 8; b = pos mod 8
      in a[i := (if v = 1 then a ! i OR push_bit (7 - b) 1 else a ! i AND NOT (push_bit (7 - b) 1))])"

definition get_bit :: "byte list \<Rightarrow> nat \<Rightarrow> int" where
  "get_bit a pos =
     (let i = pos div 8; b = pos mod 8 in if a ! i AND push_bit (7 - b) 1 = 0 then 0 else 1)"

definition key_bit :: "byte list \<Rightarrow> nat \<Rightarrow> bool" where
  "key_bit a pos \<longleftrightarrow> bit (a ! (pos div 8)) (7 - pos mod 8)"

lemma and_push_bit_zero: "w AND push_bit n 1 = 0 \<longleftrightarrow> \<not> bit w n" if "n < 8" for w :: byte
  using that by (auto simp: and_exp_eq_0_iff_not_bit push_bit_eq_mult)

lemma get_bit_key_bit: "get_bit a pos = (if key_bit a pos then 1 else 0)"
  using and_push_bit_zero [of "7 - pos mod 8" "a ! (pos div 8)"]
  by (simp add: get_bit_def key_bit_def Let_def del: push_bit_of_1)

section \<open>Updating the counters of one bucket\<close>

text \<open>
  \<open>loginsert\<close> walks the key from its last byte and each byte from its lowest bit, with \<open>length\<close>
  counting down; the state of the two loops is the counters, the shifted byte and \<open>length\<close>.
\<close>

definition log_bit :: "i32 \<Rightarrow> i32 list \<times> byte \<times> nat \<Rightarrow> i32 list \<times> byte \<times> nat" where
  "log_bit diff = (\<lambda>(cs, val, len).
     (if val AND 1 = 1 then cs[len := cs ! len + diff] else cs, drop_bit 1 val, len - 1))"

definition log_byte :: "i32 \<Rightarrow> byte \<Rightarrow> i32 list \<times> nat \<Rightarrow> i32 list \<times> nat" where
  "log_byte diff val = (\<lambda>(cs, len).
     let (cs', val', len') = for_upto 8 (\<lambda>j. log_bit diff) (cs, val, len) in (cs', len'))"

definition loginsert :: "i32 list \<Rightarrow> byte list \<Rightarrow> nat \<Rightarrow> i32 \<Rightarrow> i32 list" where
  "loginsert cs key len diff =
     fst (for_upto (len div 8) (\<lambda>i. log_byte diff (key ! (len div 8 - 1 - i)))
       (cs[0 := cs ! 0 + diff], len))"

lemma and_one_odd: "v AND 1 = 1 \<longleftrightarrow> bit v 0" for v :: byte
  by (simp add: and_one_eq odd_iff_mod_2_eq_one bit_0)

lemma log_byte_cells:
  assumes "8 \<le> len" "len < length cs"
  shows "snd (log_byte diff val (cs, len)) = len - 8 \<and>
    length (fst (log_byte diff val (cs, len))) = length cs \<and>
    (\<forall>p < length cs. fst (log_byte diff val (cs, len)) ! p =
      cs ! p + (if len - 8 < p \<and> p \<le> len \<and> bit val (len - p) then diff else 0))"
proof -
  define I where "I j s \<longleftrightarrow> (case s of (l, v, n) \<Rightarrow> v = drop_bit j val \<and> n = len - j \<and>
      length l = length cs \<and> (\<forall>p < length cs. l ! p =
        cs ! p + (if len - j < p \<and> p \<le> len \<and> bit val (len - p) then diff else 0)))"
    for j :: nat and s :: "i32 list \<times> byte \<times> nat"
  have "I 8 (for_upto 8 (\<lambda>j. log_bit diff) (cs, val, len))"
  proof (rule for_upto_rule)
    show "I 0 (cs, val, len)" by (auto simp: I_def)
    fix j s assume j: "j < (8::nat)" and "I j s"
    then obtain l where s: "s = (l, drop_bit j val, len - j)" and l: "length l = length cs"
      "\<And>p. p < length cs \<Longrightarrow> l ! p =
        cs ! p + (if len - j < p \<and> p \<le> len \<and> bit val (len - p) then diff else 0)"
      by (cases s) (auto simp: I_def)
    have b: "drop_bit j val AND 1 = 1 \<longleftrightarrow> bit val j"
      unfolding and_one_odd by (simp add: bit_drop_bit_eq del: bit_0)
    have d: "drop_bit 1 (drop_bit j val) = drop_bit (Suc j) val" by (simp add: drop_bit_drop_bit)
    define l' where "l' = (if bit val j then l[len - j := l ! (len - j) + diff] else l)"
    have r: "log_bit diff s = (l', drop_bit (Suc j) val, len - Suc j)"
      unfolding s log_bit_def by (simp add: b l'_def d del: drop_bit_Suc)
    have "l' ! p = cs ! p + (if len - Suc j < p \<and> p \<le> len \<and> bit val (len - p) then diff else 0)"
      if p: "p < length cs" for p
    proof (cases "p = len - j")
      case True
      then have "len - p = j" "l ! p = cs ! p" using j assms(1) p l(2) [OF p] by auto
      then show ?thesis using True l(1) p j assms(1) by (auto simp: l'_def)
    next
      case False
      then have "len - j < p \<longleftrightarrow> len - Suc j < p" using j assms(1) by linarith
      then show ?thesis using False l(2) [OF p] by (auto simp: l'_def)
    qed
    then show "I (Suc j) (log_bit diff s)" unfolding r using l(1) by (simp add: I_def l'_def)
  qed
  then show ?thesis by (auto simp: I_def log_byte_def split: prod.splits)
qed

definition bit_selected :: "nat \<Rightarrow> byte list \<Rightarrow> nat \<Rightarrow> bool" where
  "bit_selected n key p \<longleftrightarrow> p = 0 \<or> (p \<le> n \<and> key_bit key (p - 1))"

lemma key_bit_in_byte:
  assumes "len = 8 * m" "i < m" "len - 8 * i - 8 < p" "p \<le> len - 8 * i"
  shows "bit (key ! (m - 1 - i)) (len - 8 * i - p) \<longleftrightarrow> key_bit key (p - 1)"
proof -
  define q where "q = p - 1"
  obtain r where m: "m = i + r + 1" using assms(2) less_imp_Suc_add by fastforce
  have "8 * r < p" "p \<le> 8 * r + 8" using assms m by auto
  moreover define t where "t = p - (8 * r + 1)"
  ultimately have t: "p = 8 * r + 1 + t" "t < 8" by linarith+
  then have "q div 8 = r" "q mod 8 = t" by (simp_all add: q_def)
  then have "q div 8 = m - 1 - i" "len - 8 * i - p = 7 - q mod 8"
    using m assms(1) t by auto
  then show ?thesis by (simp add: key_bit_def q_def)
qed

lemma loginsert_cells:
  assumes "len = 8 * m" "len < length cs"
  shows "length (loginsert cs key len diff) = length cs \<and>
    (\<forall>p < length cs. loginsert cs key len diff ! p =
      cs ! p + (if bit_selected len key p then diff else 0))"
proof -
  define l0 where "l0 = cs[0 := cs ! 0 + diff]"
  define I where "I i s \<longleftrightarrow> (case s of (l, n) \<Rightarrow> n = len - 8 * i \<and> length l = length cs \<and>
      (\<forall>p < length cs. l ! p =
        l0 ! p + (if len - 8 * i < p \<and> p \<le> len \<and> key_bit key (p - 1) then diff else 0)))"
    for i :: nat and s :: "i32 list \<times> nat"
  have "I (len div 8) (for_upto (len div 8) (\<lambda>i. log_byte diff (key ! (len div 8 - 1 - i))) (l0, len))"
  proof (rule for_upto_rule)
    show "I 0 (l0, len)" by (auto simp: I_def l0_def)
    fix i s assume i: "i < len div 8" and "I i s"
    then obtain l where s: "s = (l, len - 8 * i)" and l: "length l = length cs"
      "\<And>p. p < length cs \<Longrightarrow> l ! p =
        l0 ! p + (if len - 8 * i < p \<and> p \<le> len \<and> key_bit key (p - 1) then diff else 0)"
      by (cases s) (auto simp: I_def)
    have i8: "8 \<le> len - 8 * i" "len div 8 = m" using i assms(1) by auto
    note c = log_byte_cells [of "len - 8 * i" l diff "key ! (m - 1 - i)"]
    have cc: "snd (log_byte diff (key ! (m - 1 - i)) s) = len - 8 * Suc i"
      "length (fst (log_byte diff (key ! (m - 1 - i)) s)) = length cs"
      "\<And>p. p < length cs \<Longrightarrow> fst (log_byte diff (key ! (m - 1 - i)) s) ! p = l ! p +
        (if len - 8 * i - 8 < p \<and> p \<le> len - 8 * i \<and> bit (key ! (m - 1 - i)) (len - 8 * i - p)
         then diff else 0)"
      using c i8(1) assms(2) l(1) unfolding s by auto
    have kb: "bit (key ! (m - 1 - i)) (len - 8 * i - p) \<longleftrightarrow> key_bit key (p - 1)"
      if "len - 8 * i - 8 < p" "p \<le> len - 8 * i" for p
      using key_bit_in_byte [of len m i p key] that assms(1) i i8(2) by simp
    have "fst (log_byte diff (key ! (m - 1 - i)) s) ! p =
        l0 ! p + (if len - 8 * Suc i < p \<and> p \<le> len \<and> key_bit key (p - 1) then diff else 0)"
      if p: "p < length cs" for p
      using l(2) [OF p] cc(3) [OF p] kb [of p] i8(1) by auto
    then show "I (Suc i) (log_byte diff (key ! (len div 8 - 1 - i)) s)"
      using cc(1,2) i8(2) by (auto simp: I_def split: prod.splits)
  qed
  then have f: "length (loginsert cs key len diff) = length cs"
    "\<And>p. p < length cs \<Longrightarrow> loginsert cs key len diff ! p =
      l0 ! p + (if 0 < p \<and> p \<le> len \<and> key_bit key (p - 1) then diff else 0)"
    using assms(1) by (auto simp: I_def loginsert_def l0_def split: prod.splits)
  moreover have "l0 ! p = cs ! p + (if p = 0 then diff else 0)" if "p < length cs" for p
    using that by (auto simp: l0_def)
  ultimately show ?thesis by (auto simp: bit_selected_def)
qed

section \<open>Updates\<close>

text \<open>The bucket of a key in row \<open>i\<close>, and the update of one bucket.\<close>

definition bucket_of :: "skl_t \<Rightarrow> nat \<Rightarrow> byte list \<Rightarrow> nat" where
  "bucket_of skl i key =
     unat (AwareHash key (lgn skl div 8) (hash_a skl ! i) (scale_a skl ! i) (hardner_a skl ! i)
       mod of_nat (width skl))"

definition upd_bucket :: "skl_t \<Rightarrow> nat \<Rightarrow> byte list \<Rightarrow> i32 \<Rightarrow> skl_t" where
  "upd_bucket skl idx key diff =
     skl\<lparr>counts := (counts skl)[idx := loginsert (counts skl ! idx) key (lgn skl) diff]\<rparr>"

definition SKL_Update :: "skl_t \<Rightarrow> byte list \<Rightarrow> i32 \<Rightarrow> skl_t" where
  "SKL_Update skl key diff =
     for_upto (depth skl)
       (\<lambda>i s. upd_bucket s (i * width skl + bucket_of skl i key) key diff) skl"

text \<open>The vectorised insertion is commented out, so \<open>SKL_Update_Fast\<close> only computes the hashes.\<close>

definition SKL_Update_Fast :: "skl_t \<Rightarrow> byte list \<Rightarrow> i32 \<Rightarrow> skl_t" where
  "SKL_Update_Fast skl key diff =
     for_upto (depth skl) (\<lambda>i s. let hash = bucket_of skl i key in s) skl"

definition SKL_Update_Select ::
    "skl_t \<Rightarrow> byte list \<Rightarrow> i32 \<Rightarrow> nat \<Rightarrow> u64 \<Rightarrow> u64 \<Rightarrow> u64 \<Rightarrow> skl_t" where
  "SKL_Update_Select skl key diff select h s harder =
     (let select_hash = unat (AwareHash key (lgn skl div 8) h s harder mod of_nat (depth skl))
      in for_upto select
           (\<lambda>k t. let r = (select_hash + k) mod depth skl
                  in upd_bucket t (r * width skl + bucket_of skl r key) key diff) skl)"

section \<open>The interface of a linear sketch\<close>

definition run_sketch :: "('s \<Rightarrow> 'k \<Rightarrow> 'v \<Rightarrow> 's) \<Rightarrow> ('k \<times> 'v) list \<Rightarrow> 's \<Rightarrow> 's" where
  "run_sketch upd kvs s = fold (\<lambda>(k, v) s. upd s k v) kvs s"

lemma run_sketch_simps [simp]:
  "run_sketch upd [] s = s" "run_sketch upd (kv # kvs) s = run_sketch upd kvs (upd s (fst kv) (snd kv))"
  by (simp_all add: run_sketch_def split: prod.split)

locale linear_sketch =
  fixes upd :: "'s \<Rightarrow> 'k \<Rightarrow> 'v::comm_monoid_add \<Rightarrow> 's"
    and cell :: "'s \<Rightarrow> 'i \<Rightarrow> 'v"
    and sel :: "'s \<Rightarrow> 'k \<Rightarrow> 'i \<Rightarrow> bool"
    and valid :: "'s \<Rightarrow> 'i \<Rightarrow> bool"
    and ok :: "'s \<Rightarrow> bool"
  assumes ok_upd: "ok s \<Longrightarrow> ok (upd s k v)"
    and sel_upd: "ok s \<Longrightarrow> sel (upd s k v) = sel s"
    and valid_upd: "ok s \<Longrightarrow> valid (upd s k v) = valid s"
    and cell_upd: "ok s \<Longrightarrow> valid s x \<Longrightarrow>
      cell (upd s k v) x = cell s x + (if sel s k x then v else 0)"
begin

lemma run_keeps: "ok s \<Longrightarrow> ok (run_sketch upd kvs s) \<and> sel (run_sketch upd kvs s) = sel s \<and>
    valid (run_sketch upd kvs s) = valid s"
  by (induction kvs arbitrary: s) (simp_all add: ok_upd sel_upd valid_upd)

lemma cell_run:
  "ok s \<Longrightarrow> valid s x \<Longrightarrow> cell (run_sketch upd kvs s) x =
     cell s x + sum_list (map snd (filter (\<lambda>kv. sel s (fst kv) x) kvs))"
  by (induction kvs arbitrary: s)
    (auto simp: ok_upd sel_upd valid_upd cell_upd ac_simps)

lemma cell_run_perm:
  assumes "ok s" "valid s x" "mset kvs = mset kvs'"
  shows "cell (run_sketch upd kvs s) x = cell (run_sketch upd kvs' s) x"
proof -
  have "mset (filter (\<lambda>kv. sel s (fst kv) x) kvs) = mset (filter (\<lambda>kv. sel s (fst kv) x) kvs')"
    using assms(3) by (simp add: mset_filter)
  from sum_list_map_mset [OF this, of snd] show ?thesis by (simp add: cell_run assms(1,2))
qed

end

text \<open>
  Sketches that can be added cell by cell: merging the sketches of two streams is the sketch of
  both streams together.
\<close>

locale mergeable_sketch = linear_sketch +
  fixes merge :: "'a \<Rightarrow> 'a \<Rightarrow> 'a res"
    and same :: "'a \<Rightarrow> 'a \<Rightarrow> bool"
  assumes cell_merge: "ok s \<Longrightarrow> same s t \<Longrightarrow> valid s x \<Longrightarrow> merge s t = Inr u \<Longrightarrow>
      cell u x = cell s x + cell t x"
    and sel_same: "ok s \<Longrightarrow> same s t \<Longrightarrow> ok t \<and> sel t = sel s \<and> valid t = valid s"
    and same_upd: "ok s \<Longrightarrow> same s t \<Longrightarrow> same (upd s k v) t \<and> same s (upd t k v)"
begin

lemma same_run: "ok s \<Longrightarrow> ok t \<Longrightarrow> same s t \<Longrightarrow>
    same (run_sketch upd xs s) (run_sketch upd ys t)"
proof (induction xs arbitrary: s)
  case Nil
  then show ?case by (induction ys arbitrary: t) (auto simp: same_upd ok_upd)
next
  case (Cons x xs)
  then show ?case by (simp add: same_upd ok_upd)
qed

lemma merge_streams:
  assumes "ok s" "same s t" "valid s x" and "\<And>x. valid t x \<Longrightarrow> cell t x = 0"
    and "merge (run_sketch upd xs s) (run_sketch upd ys t) = Inr u"
  shows "cell u x = cell (run_sketch upd (xs @ ys) s) x"
proof -
  have t: "ok t" "sel t = sel s" "valid t = valid s" using sel_same [OF assms(1,2)] by auto
  have "cell u x = cell (run_sketch upd xs s) x + cell (run_sketch upd ys t) x"
    using run_keeps [OF assms(1)] same_run [OF assms(1) t(1) assms(2)] assms(3,5)
    by (intro cell_merge) auto
  then show ?thesis
    using assms(1,3,4) t by (simp add: cell_run add.assoc)
qed

end

section \<open>The sketch as a linear sketch\<close>

definition skl_ok :: "skl_t \<Rightarrow> bool" where
  "skl_ok skl \<longleftrightarrow> 0 < width skl \<and> width skl < 2 ^ 31 \<and> sk_size skl = width skl * depth skl \<and>
     8 dvd lgn skl \<and> lgn skl \<le> 104 \<and> length (counts skl) = sk_size skl \<and>
     (\<forall>row \<in> set (counts skl). length row = 1 + lgn skl * 2) \<and>
     length (bit_mean skl) = 104 \<and> length (bit_std skl) = 104"

definition cell :: "skl_t \<Rightarrow> nat \<times> nat \<Rightarrow> i32" where
  "cell skl = (\<lambda>(idx, p). counts skl ! idx ! p)"

definition cell_valid :: "skl_t \<Rightarrow> nat \<times> nat \<Rightarrow> bool" where
  "cell_valid skl = (\<lambda>(idx, p). idx < sk_size skl \<and> p \<le> lgn skl * 2)"

definition selects :: "skl_t \<Rightarrow> byte list \<Rightarrow> nat \<times> nat \<Rightarrow> bool" where
  "selects skl key = (\<lambda>(idx, p). idx mod width skl = bucket_of skl (idx div width skl) key \<and>
     bit_selected (lgn skl) key p)"

text \<open>Two sketches with the same dimensions and hash parameters.\<close>

definition same_sketch :: "skl_t \<Rightarrow> skl_t \<Rightarrow> bool" where
  "same_sketch s t \<longleftrightarrow> skl_ok s \<and> skl_ok t \<and> depth s = depth t \<and> width s = width t \<and> lgn s = lgn t \<and>
     hash_a s = hash_a t \<and> scale_a s = scale_a t \<and> hardner_a s = hardner_a t"

lemma upd_bucket_sel [simp]:
  "depth (upd_bucket s i k d) = depth s" "width (upd_bucket s i k d) = width s"
  "lgn (upd_bucket s i k d) = lgn s" "sk_size (upd_bucket s i k d) = sk_size s"
  "hash_a (upd_bucket s i k d) = hash_a s" "scale_a (upd_bucket s i k d) = scale_a s"
  "hardner_a (upd_bucket s i k d) = hardner_a s" "bit_mean (upd_bucket s i k d) = bit_mean s"
  "bit_std (upd_bucket s i k d) = bit_std s" "length (counts (upd_bucket s i k d)) = length (counts s)"
  by (simp_all add: upd_bucket_def)

lemma bucket_of_less: "0 < width skl \<Longrightarrow> width skl < 2 ^ 31 \<Longrightarrow> bucket_of skl i key < width skl"
proof -
  assume w: "0 < width skl" "width skl < 2 ^ 31"
  have "unat (of_nat (width skl) :: u64) = width skl" using w(2) by (simp add: unat_of_nat)
  then show ?thesis using w(1) unfolding bucket_of_def unat_mod by simp
qed

lemma upd_bucket_cell:
  assumes "length (counts s) = n" "\<forall>row \<in> set (counts s). length row = 1 + lgn s * 2" "8 dvd lgn s"
    and "i < n"
  shows "(\<forall>row \<in> set (counts (upd_bucket s i k d)). length row = 1 + lgn s * 2) \<and>
    (j < n \<longrightarrow> p \<le> lgn s * 2 \<longrightarrow> cell (upd_bucket s i k d) (j, p) =
      cell s (j, p) + (if i = j \<and> bit_selected (lgn s) k p then d else 0))"
proof -
  obtain m where m: "lgn s = 8 * m" using assms(3) by blast
  have l: "length (counts s ! i) = 1 + lgn s * 2" using assms by auto
  have c: "length (loginsert (counts s ! i) k (lgn s) d) = 1 + lgn s * 2"
    "\<And>p. p \<le> lgn s * 2 \<Longrightarrow> loginsert (counts s ! i) k (lgn s) d ! p =
      counts s ! i ! p + (if bit_selected (lgn s) k p then d else 0)"
    using loginsert_cells [OF m, of "counts s ! i" k d] l by auto
  show ?thesis
    using c assms(1,2,4) set_update_subset_insert [of "counts s" i]
    by (auto simp: upd_bucket_def cell_def nth_list_update)
qed

text \<open>A loop over rows adds to each cell once per visit of its row.\<close>

definition upd_rows :: "skl_t \<Rightarrow> byte list \<Rightarrow> i32 \<Rightarrow> nat list \<Rightarrow> skl_t \<Rightarrow> skl_t" where
  "upd_rows skl key diff rs = fold (\<lambda>r t. upd_bucket t (r * width skl + bucket_of skl r key) key diff) rs"

lemma SKL_Update_rows: "SKL_Update skl key diff = upd_rows skl key diff [0..<depth skl] skl"
  by (simp add: SKL_Update_def upd_rows_def for_upto_def)

definition select_rows :: "skl_t \<Rightarrow> byte list \<Rightarrow> nat \<Rightarrow> u64 \<Rightarrow> u64 \<Rightarrow> u64 \<Rightarrow> nat list" where
  "select_rows skl key select h s harder =
     map (\<lambda>k. (unat (AwareHash key (lgn skl div 8) h s harder mod of_nat (depth skl)) + k) mod depth skl)
       [0..<select]"

lemma SKL_Update_Select_rows:
  "SKL_Update_Select skl key diff select h s harder =
     upd_rows skl key diff (select_rows skl key select h s harder) skl"
  by (simp add: SKL_Update_Select_def upd_rows_def select_rows_def for_upto_def fold_map comp_def Let_def)

lemma upd_rows_sel [simp]:
  "depth (upd_rows skl k d rs s) = depth s" "width (upd_rows skl k d rs s) = width s"
  "lgn (upd_rows skl k d rs s) = lgn s" "sk_size (upd_rows skl k d rs s) = sk_size s"
  "hash_a (upd_rows skl k d rs s) = hash_a s" "scale_a (upd_rows skl k d rs s) = scale_a s"
  "hardner_a (upd_rows skl k d rs s) = hardner_a s" "bit_mean (upd_rows skl k d rs s) = bit_mean s"
  "bit_std (upd_rows skl k d rs s) = bit_std s"
  "length (counts (upd_rows skl k d rs s)) = length (counts s)"
  by (induction rs arbitrary: s) (simp_all add: upd_rows_def)

lemma row_index_less: "r < d \<Longrightarrow> b < w \<Longrightarrow> r * w + b < w * d" for r d b w :: nat
proof -
  assume "r < d" "b < w"
  then have "r * w + b < (r + 1) * w" by simp
  also have "\<dots> \<le> d * w" using \<open>r < d\<close> by (intro mult_le_mono1) simp
  finally show ?thesis by (simp add: mult.commute)
qed

lemma row_index_eq:
  assumes "b < w"
  shows "r * w + b = j \<longleftrightarrow> r = j div w \<and> b = j mod (w::nat)"
proof
  assume "r * w + b = j"
  then show "r = j div w \<and> b = j mod w" using assms by (auto simp: div_mult_self3)
next
  assume "r = j div w \<and> b = j mod w"
  then show "r * w + b = j" by simp
qed

lemma upd_rows_cell:
  assumes ok: "skl_ok skl" and rs: "\<forall>r\<in>set rs. r < depth skl"
    and t: "length (counts t) = sk_size skl" "\<forall>row \<in> set (counts t). length row = 1 + lgn skl * 2"
      "lgn t = lgn skl"
  shows "(\<forall>row \<in> set (counts (upd_rows skl key d rs t)). length row = 1 + lgn skl * 2) \<and>
    (j < sk_size skl \<longrightarrow> p \<le> lgn skl * 2 \<longrightarrow> cell (upd_rows skl key d rs t) (j, p) =
      cell t (j, p) + of_nat (count_list rs (j div width skl)) *
        (if selects skl key (j, p) then d else 0))"
  using rs t
proof (induction rs arbitrary: t)
  case Nil
  then show ?case by (simp add: upd_rows_def)
next
  case (Cons r rs)
  define b where "b = bucket_of skl r key"
  define t1 where "t1 = upd_bucket t (r * width skl + b) key d"
  have w: "0 < width skl" "width skl < 2 ^ 31" "sk_size skl = width skl * depth skl" "8 dvd lgn skl"
    using ok by (simp_all add: skl_ok_def)
  have bw: "b < width skl" using bucket_of_less [OF w(1,2)] by (simp add: b_def)
  have rl: "r < depth skl" using Cons.prems(1) by simp
  have ix: "r * width skl + b < sk_size skl" using row_index_less [OF rl bw] w(3) by simp
  have c: "\<forall>row \<in> set (counts t1). length row = 1 + lgn skl * 2"
    "j < sk_size skl \<Longrightarrow> p \<le> lgn skl * 2 \<Longrightarrow> cell t1 (j, p) = cell t (j, p) +
      (if r * width skl + b = j \<and> bit_selected (lgn skl) key p then d else 0)"
    using upd_bucket_cell [of t "sk_size skl" "r * width skl + b" key d j p] Cons.prems w(4) ix
    unfolding t1_def by auto
  have "length (counts t1) = sk_size skl" "lgn t1 = lgn skl"
    using Cons.prems by (simp_all add: t1_def)
  note ih = Cons.IH [OF _ this(1) c(1) this(2)]
  have s: "upd_rows skl key d (r # rs) t = upd_rows skl key d rs t1"
    by (simp add: upd_rows_def t1_def b_def)
  have e: "r * width skl + b = j \<and> bit_selected (lgn skl) key p \<longleftrightarrow>
      r = j div width skl \<and> selects skl key (j, p)"
    using row_index_eq [OF bw, of r j] by (auto simp: selects_def b_def)
  show ?case
    using ih Cons.prems(1) c(2) unfolding s e by (auto simp: algebra_simps)
qed

lemma upd_rows_shape:
  assumes "skl_ok skl" "\<forall>r\<in>set rs. r < depth skl"
  shows "skl_ok (upd_rows skl key d rs skl)" "bucket_of (upd_rows skl key d rs skl) = bucket_of skl"
    "selects (upd_rows skl key d rs skl) = selects skl"
    "cell_valid (upd_rows skl key d rs skl) = cell_valid skl"
proof -
  show "skl_ok (upd_rows skl key d rs skl)"
    using upd_rows_cell [OF assms, of skl key d] assms(1) by (simp add: skl_ok_def)
  show "bucket_of (upd_rows skl key d rs skl) = bucket_of skl"
    by (simp add: fun_eq_iff bucket_of_def)
  then show "selects (upd_rows skl key d rs skl) = selects skl"
    by (simp add: selects_def fun_eq_iff)
  show "cell_valid (upd_rows skl key d rs skl) = cell_valid skl"
    by (simp add: cell_valid_def)
qed

lemma update_rows_ok: "\<forall>r\<in>set [0..<depth skl]. r < depth skl"
  by simp

lemma select_rows_ok: "skl_ok skl \<Longrightarrow> 0 < depth skl \<Longrightarrow>
    \<forall>r\<in>set (select_rows skl key select h s harder). r < depth skl"
  by (auto simp: select_rows_def)

lemma count_list_upt: "count_list [0..<n] r = (if r < n then 1 else 0)"
  by (induction n) auto

lemma count_list_distinct: "distinct xs \<Longrightarrow> count_list xs r = (if r \<in> set xs then 1 else 0)"
  by (induction xs) auto

lemma cell_SKL_Update:
  assumes "skl_ok skl" "cell_valid skl x"
  shows "cell (SKL_Update skl key diff) x = cell skl x + (if selects skl key x then diff else 0)"
proof -
  obtain j p where x: "x = (j, p)" by (cases x)
  have j: "j < sk_size skl" "p \<le> lgn skl * 2" using assms(2) by (simp_all add: x cell_valid_def)
  then have "j div width skl < depth skl"
    using assms(1) by (simp add: skl_ok_def less_mult_imp_div_less mult.commute)
  then show ?thesis
    using upd_rows_cell [OF assms(1) update_rows_ok, of skl key diff j p] assms(1) j
    by (simp add: x SKL_Update_rows count_list_upt skl_ok_def)
qed

interpretation skl: linear_sketch SKL_Update cell selects cell_valid skl_ok
  by unfold_locales
    (simp_all add: cell_SKL_Update, simp_all add: SKL_Update_rows upd_rows_shape)

lemma SKL_Update_sel [simp]:
  "depth (SKL_Update s k d) = depth s" "width (SKL_Update s k d) = width s"
  "lgn (SKL_Update s k d) = lgn s" "sk_size (SKL_Update s k d) = sk_size s"
  "hash_a (SKL_Update s k d) = hash_a s" "scale_a (SKL_Update s k d) = scale_a s"
  "hardner_a (SKL_Update s k d) = hardner_a s"
  by (simp_all add: SKL_Update_rows)

lemma skl_ok_Update: "skl_ok s \<Longrightarrow> skl_ok (SKL_Update s k d)"
  using skl.ok_upd .

section \<open>Fresh sketches\<close>

definition fresh_sketch :: "skl_t \<Rightarrow> bool" where
  "fresh_sketch skl \<longleftrightarrow> skl_ok skl \<and> (\<forall>x. cell_valid skl x \<longrightarrow> cell skl x = 0)"

lemma fresh_sketch_ok: "fresh_sketch s \<Longrightarrow> skl_ok s"
  by (simp add: fresh_sketch_def)

lemma fresh_sketch_cell: "fresh_sketch s \<Longrightarrow> cell_valid s x \<Longrightarrow> cell s x = 0"
  unfolding fresh_sketch_def by blast

lemma SKL_Init_fresh:
  assumes "SKL_Init rand glob w d n = Inr (skl, glob')" "w \<le> INT_MAX" "8 dvd n" "n \<le> 104"
  shows "fresh_sketch skl \<and> depth skl = d \<and> lgn skl = n \<and> w \<le> int (width skl)"
proof -
  obtain w' where w': "calc_next_prime w = Inr w'" using assms(1) by (auto simp: SKL_Init_def)
  then have b: "2 \<le> w'" "w \<le> w'" "w' \<le> INT_MAX" using calc_next_prime_bounds assms(2) by blast+
  have skl: "depth skl = d" "width skl = nat w'" "lgn skl = n" "sk_size skl = nat w' * d"
    "counts skl = replicate (nat w' * d) (replicate (1 + n * 2) 0)"
    "length (bit_mean skl) = 104" "length (bit_std skl) = 104"
    using assms(1) w' by (auto simp: SKL_Init_def Let_def split: if_splits prod.splits)
  then show ?thesis using b assms(3,4)
    by (auto simp: fresh_sketch_def skl_ok_def cell_def cell_valid_def INT_MAX_def
        simp del: replicate_Suc)
qed

section \<open>What the sketch records\<close>

definition sum_selected :: "skl_t \<Rightarrow> (byte list \<times> i32) list \<Rightarrow> (byte list \<Rightarrow> bool) \<Rightarrow> i32" where
  "sum_selected skl kvs P = sum_list (map snd (filter (\<lambda>kv. P (fst kv)) kvs))"

lemma sum_selected_simps [simp]:
  "sum_selected skl [] P = 0"
  "sum_selected skl (kv # kvs) P = (if P (fst kv) then snd kv else 0) + sum_selected skl kvs P"
  by (simp_all add: sum_selected_def)

lemma sum_selected_append:
  "sum_selected skl (xs @ ys) P = sum_selected skl xs P + sum_selected skl ys P"
  by (simp add: sum_selected_def)

text \<open>C12: After any stream of updates on an initialised sketch, cell \<open>p\<close> of bucket \<open>j\<close> in row \<open>i\<close>
  is the sum (modulo \<open>2^32\<close>) of the sizes of the packets whose key hashes to \<open>j\<close> in that row
  and, for \<open>p > 0\<close>, has bit \<open>p - 1\<close> set; the complement cells are still zero.\<close>

theorem SKL_Update_stream:
  assumes "SKL_Init rand glob w d n = Inr (skl, glob')" "w \<le> INT_MAX" "8 dvd n" "n \<le> 104"
    and "i < d" "j < width skl" "p \<le> n * 2"
  shows "cell (run_sketch SKL_Update kvs skl) (i * width skl + j, p) =
    sum_selected skl kvs (\<lambda>key. bucket_of skl i key = j \<and> bit_selected n key p)"
proof -
  have f: "skl_ok skl" "depth skl = d" "lgn skl = n" and z: "\<And>x. cell_valid skl x \<Longrightarrow> cell skl x = 0"
    using SKL_Init_fresh [OF assms(1-4)] by (auto simp: fresh_sketch_def)
  have "i * width skl + j < sk_size skl"
    using row_index_less [of i d j "width skl"] assms(5,6) f by (simp add: skl_ok_def)
  then have v: "cell_valid skl (i * width skl + j, p)" using assms(7) f by (simp add: cell_valid_def)
  have "(i * width skl + j) div width skl = i" "(i * width skl + j) mod width skl = j"
    using assms(6) by (simp_all add: div_mult_self3)
  then have "selects skl key (i * width skl + j, p) \<longleftrightarrow>
      bucket_of skl i key = j \<and> bit_selected n key p" for key
    using f(3) by (auto simp: selects_def)
  then show ?thesis
    using skl.cell_run [OF f(1) v, of kvs] z [OF v] by (simp add: sum_selected_def)
qed

text \<open>Each row counts everything exactly once: the totals of the buckets of a row add up to the
  sizes of all packets.\<close>

theorem SKL_row_total:
  assumes "fresh_sketch skl" "i < depth skl"
  shows "sum_list (map (\<lambda>j. cell (run_sketch SKL_Update kvs skl) (i * width skl + j, 0)) [0..<width skl]) =
    sum_list (map snd kvs)"
proof -
  have ok: "skl_ok skl" using assms(1) by (simp add: fresh_sketch_def)
  have w: "0 < width skl" "width skl < 2 ^ 31" using ok by (simp_all add: skl_ok_def)
  have "cell (run_sketch SKL_Update kvs skl) (i * width skl + j, 0) =
      sum_list (map snd (filter (\<lambda>kv. bucket_of skl i (fst kv) = j) kvs))"
    if "j < width skl" for j
  proof -
    have "i * width skl + j < sk_size skl"
      using row_index_less [of i "depth skl" j "width skl"] assms(2) that ok by (simp add: skl_ok_def)
    then have v: "cell_valid skl (i * width skl + j, 0)" by (simp add: cell_valid_def)
    have "(i * width skl + j) div width skl = i" "(i * width skl + j) mod width skl = j"
      using that by (simp_all add: div_mult_self3)
    then have "selects skl key (i * width skl + j, 0) \<longleftrightarrow> bucket_of skl i key = j" for key
      by (auto simp: selects_def bit_selected_def)
    then show ?thesis using skl.cell_run [OF ok v, of kvs] assms(1) v by (simp add: fresh_sketch_def)
  qed
  then have "map (\<lambda>j. cell (run_sketch SKL_Update kvs skl) (i * width skl + j, 0)) [0..<width skl] =
      map (\<lambda>j. sum_list (map snd (filter (\<lambda>kv. bucket_of skl i (fst kv) = j) kvs))) [0..<width skl]"
    by simp
  also have "sum_list \<dots> = sum_list (map snd kvs)"
    by (rule sum_distinct_group [where f = "\<lambda>kv. bucket_of skl i (fst kv)"])
      (use bucket_of_less [OF w] in auto)
  finally show ?thesis .
qed

text \<open>An update restricted to \<open>select\<close> of the rows (\<open>select \<le> depth\<close>) changes the selected cells
  of exactly these rows, once each.\<close>

theorem SKL_Update_Select_cell:
  assumes "skl_ok skl" "0 < depth skl" "select \<le> depth skl" "cell_valid skl (idx, p)"
  shows "cell (SKL_Update_Select skl key diff select h s harder) (idx, p) = cell skl (idx, p) +
    (if idx div width skl \<in> set (select_rows skl key select h s harder) \<and> selects skl key (idx, p)
     then diff else 0)"
proof -
  let ?rs = "select_rows skl key select h s harder"
  have no: "(c + a) mod depth skl \<noteq> (c + b) mod depth skl" if "a < b" "b < select" for a b c
  proof
    assume "(c + a) mod depth skl = (c + b) mod depth skl"
    then have "depth skl dvd (c + b) - (c + a)"
      using that mod_eq_dvd_iff_nat [of "c + a" "c + b" "depth skl"] by simp
    then show False using that assms(3) by (auto dest: dvd_imp_le)
  qed
  then have "inj_on (\<lambda>k. (c + k) mod depth skl) {..<select}" for c
    by (intro inj_onI) (metis lessThan_iff nat_neq_iff)
  then have d: "distinct ?rs" by (simp add: select_rows_def distinct_map lessThan_atLeast0)
  have "count_list ?rs r = (if r \<in> set ?rs then 1 else 0)" for r
    using d by (simp add: count_list_distinct)
  then show ?thesis
    using upd_rows_cell [OF assms(1) select_rows_ok [OF assms(1,2), of key select h s harder],
        of skl key diff idx p] assms(1,4)
    by (simp add: SKL_Update_Select_rows cell_valid_def skl_ok_def)
qed

text \<open>\<open>SKL_Update_Fast\<close>, the update the Open vSwitch data path calls, leaves the sketch as it
  is.\<close>

theorem SKL_Update_Fast_nothing: "SKL_Update_Fast skl key diff = skl"
proof -
  have "for_upto n (\<lambda>i s. let hash = bucket_of skl i key in s) t = t" for n and t :: skl_t
    by (induction n) simp_all
  then show ?thesis by (simp add: SKL_Update_Fast_def)
qed

text \<open>A sketch of two rows for 8-bit keys serves as the concrete input of the witnesses.\<close>

lemma init_exists: "\<exists>skl g. SKL_Init 7 1 3 2 8 = Inr (skl, g)"
proof -
  have "calc_next_prime 3 = Inr 3" by code_simp
  then show ?thesis by (simp add: SKL_Init_def Let_def INT_MAX_def split: prod.split)
qed

lemma SKL_Update_stream_witness:
  "\<exists>skl g. SKL_Init 7 1 3 2 8 = Inr (skl, g) \<and>
     cell (run_sketch SKL_Update [([5], 3)] skl) (1 * width skl + 0, 0) =
     sum_selected skl [([5], 3)] (\<lambda>key. bucket_of skl 1 key = 0 \<and> bit_selected 8 key 0)"
proof -
  obtain skl g where i: "SKL_Init 7 1 3 2 8 = Inr (skl, g)" using init_exists by blast
  have "(3::int) \<le> INT_MAX" "(8::nat) dvd 8" "(8::nat) \<le> 104" by (simp_all add: INT_MAX_def)
  moreover from this have "0 < width skl" using SKL_Init_fresh [OF i] by simp
  ultimately show ?thesis
    using SKL_Update_stream [OF i, of 1 0 0 "[([5], 3)]"] i by simp
qed

lemma init_fresh: "\<exists>skl. fresh_sketch skl \<and> depth skl = 2 \<and> lgn skl = 8"
proof -
  obtain skl g where i: "SKL_Init 7 1 3 2 8 = Inr (skl, g)" using init_exists by blast
  have "(3::int) \<le> INT_MAX" "(8::nat) dvd 8" "(8::nat) \<le> 104" by (simp_all add: INT_MAX_def)
  then show ?thesis using SKL_Init_fresh [OF i] by blast
qed

lemma SKL_row_total_witness:
  "\<exists>skl. sum_list (map (\<lambda>j. cell (run_sketch SKL_Update [([5], 3), ([6], 4)] skl) (1 * width skl + j, 0))
     [0..<width skl]) = 7"
proof -
  obtain skl where s: "fresh_sketch skl" "depth skl = 2" using init_fresh by blast
  then have "1 < depth skl" by simp
  from SKL_row_total [OF s(1) this, of "[([5], 3), ([6], 4)]"] show ?thesis by auto
qed

lemma SKL_Update_Select_cell_witness:
  "\<exists>skl. cell (SKL_Update_Select skl [5] 3 1 1 3 5) (0, 0) = cell skl (0, 0) +
     (if 0 div width skl \<in> set (select_rows skl [5] 1 1 3 5) \<and> selects skl [5] (0, 0) then 3 else 0)"
proof -
  obtain skl where s: "fresh_sketch skl" "depth skl = 2" "lgn skl = 8" using init_fresh by blast
  then have ok: "skl_ok skl" "0 < depth skl" "1 \<le> depth skl" by (simp_all add: fresh_sketch_def)
  moreover have "cell_valid skl (0, 0)" using ok by (simp add: cell_valid_def skl_ok_def)
  ultimately show ?thesis using SKL_Update_Select_cell [of skl 1 0 0 "[5]" 3 1 3 5] by blast
qed

end
