(* ===== verification/Sketch_Ops.thy ===== *)
theory Sketch_Ops
  imports Sketch
begin

text \<open>
  The operations of \<^verbatim>\<open>alg_sketchlearn.c\<close> on whole sketches: the distribution of the bits,
  completion of the zero counters, reset, copies, merge, difference, the matrix view and the
  serial form.
\<close>

section \<open>Bit distributions\<close>

definition bit_ratio :: "skl_t \<Rightarrow> nat \<Rightarrow> nat \<Rightarrow> dbl" where
  "bit_ratio skl idx k =
     1 * dbl_of_int (sint (counts skl ! idx ! k)) div dbl_of_int (sint (counts skl ! idx ! 0))"

definition mean_loop :: "skl_t \<Rightarrow> dbl list \<Rightarrow> dbl list" where
  "mean_loop skl m0 =
     for_upto (depth skl) (\<lambda>i m. for_upto (width skl) (\<lambda>j m. for_upto (lgn skl) (\<lambda>k m.
       m[k := m ! k + bit_ratio skl (i * width skl + j) (k + 1)]) m) m) m0"

definition std_loop :: "skl_t \<Rightarrow> dbl list \<Rightarrow> dbl list \<Rightarrow> dbl list" where
  "std_loop skl mean s0 =
     for_upto (depth skl) (\<lambda>i s. for_upto (width skl) (\<lambda>j s. for_upto (lgn skl) (\<lambda>k s.
       let v = bit_ratio skl (i * width skl + j) (k + 1)
       in s[k := s ! k + (v - mean ! k) * (v - mean ! k)]) s) s) s0"

text \<open>The divisions by \<open>depth\<close> and \<open>width\<close> are divisions of \<open>double\<close>s; the quotient in the last
  factor is one of \<open>uint64_t\<close>s and is undefined when there is only one bucket. The arrays
  \<open>bit_mean\<close> and \<open>bit_std\<close> have 104 elements.\<close>

definition bessel :: "skl_t \<Rightarrow> u64" where
  "bessel skl = (let n = of_nat (depth skl) * of_nat (width skl) in n div (n - 1))"

definition compute_bit_dists :: "skl_t \<Rightarrow> skl_t res" where
  "compute_bit_dists skl =
     (let n = lgn skl; d = dbl_of_int (int (depth skl)); w = dbl_of_int (int (width skl));
          mean1 = mean_loop skl (replicate n 0 @ drop n (bit_mean skl));
          mean = for_upto n (\<lambda>k m. m[k := m ! k div d div w]) mean1;
          std1 = std_loop skl mean (replicate n 0 @ drop n (bit_std skl))
      in if 104 < n \<or> 0 < n \<and> depth skl * width skl = 1 then Inl OutOfBounds
         else Inr (skl\<lparr>bit_mean := mean,
                bit_std := for_upto n (\<lambda>k s. s[k := dsqrt (s ! k div d div w) *
                  dsqrt (dbl_of_int (uint (bessel skl)))]) std1\<rparr>))"

section \<open>Completion and reset\<close>

definition complete_row :: "nat \<Rightarrow> i32 list \<Rightarrow> i32 list" where
  "complete_row n row = for_upto n (\<lambda>k r. r[k + 1 + n := row ! 0 - r ! (k + 1)]) row"

definition complete_counts :: "skl_t \<Rightarrow> skl_t" where
  "complete_counts skl = for_upto (sk_size skl)
     (\<lambda>i s. s\<lparr>counts := (counts s)[i := complete_row (lgn s) (counts s ! i)]\<rparr>) skl"

definition SKL_CompleteZeroes :: "skl_t \<Rightarrow> skl_t res" where
  "SKL_CompleteZeroes skl = compute_bit_dists (complete_counts skl)"

definition SKL_Reset :: "skl_t \<Rightarrow> skl_t" where
  "SKL_Reset skl = for_upto (sk_size skl)
     (\<lambda>i s. s\<lparr>counts := (counts s)[i := replicate (1 + lgn s * 2) 0 @
        drop (1 + lgn s * 2) (counts s ! i)]\<rparr>) skl"

section \<open>Two sketches\<close>

text \<open>The loops of \<open>SKL_Merge\<close> and \<open>SKL_Diff\<close>, with the assignment operator as a parameter.\<close>

definition row_op :: "(i32 \<Rightarrow> i32 \<Rightarrow> i32) \<Rightarrow> nat \<Rightarrow> i32 list \<Rightarrow> i32 list \<Rightarrow> i32 list res" where
  "row_op f n drow srow = for_res n (\<lambda>j row.
     rbind (arr_get row j) (\<lambda>a. rbind (arr_get srow j) (\<lambda>b. arr_set row j (f a b)))) drow"

definition cells_op :: "(i32 \<Rightarrow> i32 \<Rightarrow> i32) \<Rightarrow> skl_t \<Rightarrow> skl_t \<Rightarrow> skl_t res" where
  "cells_op f dst src = for_res (sk_size src) (\<lambda>i d.
     rbind (arr_get (counts d) i) (\<lambda>drow. rbind (arr_get (counts src) i) (\<lambda>srow.
     rbind (row_op f (1 + lgn src * 2) drow srow) (\<lambda>row.
       Inr (d\<lparr>counts := (counts d)[i := row]\<rparr>))))) dst"

definition SKL_Merge :: "skl_t \<Rightarrow> skl_t \<Rightarrow> skl_t res" where
  "SKL_Merge dst src =
     (if width dst \<noteq> width src \<or> depth dst \<noteq> depth src then Inl ExitError
      else cells_op (+) dst src)"

definition SKL_Diff :: "skl_t \<Rightarrow> skl_t \<Rightarrow> skl_t res" where
  "SKL_Diff dst src =
     (if width dst \<noteq> width src \<or> depth dst \<noteq> depth src then Inl ExitError
      else cells_op (-) dst src)"

text \<open>\<open>memcpy\<close> of the first \<open>n\<close> counters of a row.\<close>

definition copy_row :: "nat \<Rightarrow> i32 list \<Rightarrow> i32 list \<Rightarrow> i32 list res" where
  "copy_row n drow srow =
     (if n \<le> length drow \<and> n \<le> length srow then Inr (take n srow @ drop n drow)
      else Inl OutOfBounds)"

definition SKL_Copy :: "skl_t \<Rightarrow> skl_t \<Rightarrow> skl_t res" where
  "SKL_Copy dst src =
     (if width dst \<noteq> width src \<or> depth dst \<noteq> depth src then Inl ExitError
      else for_res (sk_size src) (\<lambda>i d.
        rbind (arr_get (counts d) i) (\<lambda>drow. rbind (arr_get (counts src) i) (\<lambda>srow.
        rbind (copy_row (1 + lgn src * 2) drow srow) (\<lambda>row.
          Inr (d\<lparr>counts := (counts d)[i := row]\<rparr>))))) dst)"

definition SKL_Copy_OneRow :: "skl_t \<Rightarrow> skl_t \<Rightarrow> nat \<Rightarrow> skl_t res" where
  "SKL_Copy_OneRow dst src r =
     (if width dst \<noteq> width src \<or> depth dst \<noteq> 1 \<or> depth src \<le> r then Inl ExitError
      else rbind (for_res (width src) (\<lambda>c d.
        rbind (arr_get (counts d) c) (\<lambda>drow. rbind (arr_get (counts src) (r * width src + c)) (\<lambda>srow.
        rbind (copy_row (1 + lgn src * 2) drow srow) (\<lambda>row.
          Inr (d\<lparr>counts := (counts d)[c := row]\<rparr>))))) dst) (\<lambda>d.
        Inr (d\<lparr>hash_a := (hash_a d)[0 := hash_a src ! r],
               scale_a := (scale_a d)[0 := scale_a src ! r],
               hardner_a := (hardner_a d)[0 := hardner_a src ! r]\<rparr>)))"

text \<open>The matrix view: column block \<open>j\<close> of row \<open>i\<close> starts at \<open>j * (1 + lgn)\<close>.\<close>

definition SKL_GetMatrix :: "skl_t \<Rightarrow> dbl list list \<Rightarrow> dbl list list res" where
  "SKL_GetMatrix skl D =
     for_res (width skl) (\<lambda>i D. for_res (depth skl) (\<lambda>j D. for_res (1 + lgn skl * 2) (\<lambda>k D.
       rbind (arr_get D i) (\<lambda>row.
       rbind (arr_set row (j * (1 + lgn skl) + k)
                (dbl_of_int (sint (counts skl ! (j * width skl + i) ! k)))) (\<lambda>row'.
       arr_set D i row'))) D) D) D"

section \<open>Serial form\<close>

definition SKL_SerialSize :: "skl_t \<Rightarrow> i32" where
  "SKL_SerialSize skl = 4 + (2 * 4 + 4) * of_nat (width skl) * of_nat (depth skl) * (1 + of_nat (lgn skl) * 2)"

definition serial_entry :: "nat \<Rightarrow> nat \<Rightarrow> i32 \<Rightarrow> byte list" where
  "serial_entry i j v = le_bytes 4 (of_nat i :: i32) @ le_bytes 4 (of_nat j :: i32) @ le_bytes 4 v"

definition nonzero_cells :: "skl_t \<Rightarrow> (nat \<times> nat \<times> i32) list" where
  "nonzero_cells skl = concat (map (\<lambda>i.
     map (\<lambda>j. (i, j, counts skl ! i ! j))
       (filter (\<lambda>j. counts skl ! i ! j \<noteq> 0) [0..<1 + lgn skl * 2])) [0..<depth skl * width skl])"

text \<open>The bytes written to \<open>buf\<close> and the value of \<open>*len\<close>.\<close>

definition SKL_Serialize :: "skl_t \<Rightarrow> byte list \<times> u32" where
  "SKL_Serialize skl =
     (let cells = nonzero_cells skl;
          len = 4 + (2 * 4 + 4) * of_nat (length cells)
      in (le_bytes 4 len @ concat (map (\<lambda>(i, j, v). serial_entry i j v) cells), len))"

text \<open>The loop of \<open>SKL_Deserialize\<close> at offset \<open>pos\<close> of the buffer, up to \<open>tot_size\<close>.\<close>

function deser_loop :: "byte list \<Rightarrow> nat \<Rightarrow> nat \<Rightarrow> i32 list list \<Rightarrow> i32 list list res" where
  "deser_loop buf tot pos cs =
     (if tot \<le> pos then Inr cs
      else if length buf < pos + 12 then Inl OutOfBounds
      else
        let i = sint (le_word (take 4 (drop pos buf)) :: i32);
            j = sint (le_word (take 4 (drop (pos + 4) buf)) :: i32);
            v = le_word (take 4 (drop (pos + 8) buf)) :: i32
        in if i < 0 \<or> int (length cs) \<le> i \<or> j < 0 \<or> int (length (cs ! nat i)) \<le> j then Inl OutOfBounds
           else deser_loop buf tot (pos + 12) (cs[nat i := (cs ! nat i)[nat j := v]]))"
  by pat_completeness auto
termination
  by (relation "measure (\<lambda>(buf, tot, pos, cs). tot - pos)") auto

declare deser_loop.simps [simp del]

definition SKL_Deserialize :: "skl_t \<Rightarrow> byte list \<Rightarrow> (skl_t \<times> u32) res" where
  "SKL_Deserialize skl buf =
     (if length buf < 4 then Inl OutOfBounds
      else
        let tot_size = le_word (take 4 buf) :: u32
        in rbind (deser_loop buf (unat tot_size) 4 (counts skl)) (\<lambda>cs.
             Inr (skl\<lparr>counts := cs\<rparr>, tot_size)))"

section \<open>Merge, difference, copies and reset cell by cell\<close>

lemma rows_length: "skl_ok s \<Longrightarrow> i < sk_size s \<Longrightarrow> length (counts s ! i) = 1 + lgn s * 2"
  by (auto simp: skl_ok_def)

lemma counts_length: "skl_ok s \<Longrightarrow> length (counts s) = sk_size s"
  by (simp add: skl_ok_def)

lemma row_op_eq:
  assumes "length drow = n" "length srow = n"
  shows "row_op f n drow srow = Inr (map (\<lambda>j. f (drow ! j) (srow ! j)) [0..<n])"
  unfolding row_op_def
  using for_res_writes [of n drow _ id "\<lambda>j. f (drow ! j) (srow ! j)"] assms by (simp add: id_def)

definition same_shape :: "skl_t \<Rightarrow> skl_t \<Rightarrow> bool" where
  "same_shape s t \<longleftrightarrow> skl_ok s \<and> skl_ok t \<and> width s = width t \<and> depth s = depth t \<and> lgn s = lgn t"

lemma same_shape_size: "same_shape s t \<Longrightarrow> sk_size s = sk_size t"
  by (simp add: same_shape_def skl_ok_def)

lemma cells_op_eq:
  assumes "same_shape dst src"
  shows "cells_op f dst src = Inr (dst\<lparr>counts :=
    map (\<lambda>i. map (\<lambda>j. f (counts dst ! i ! j) (counts src ! i ! j)) [0..<1 + lgn dst * 2])
      [0..<sk_size dst]\<rparr>)"
proof -
  have ok: "skl_ok dst" "skl_ok src" "sk_size src = sk_size dst" "lgn src = lgn dst"
    using assms same_shape_size [OF assms] by (simp_all add: same_shape_def)
  have "cells_op f dst src = Inr (dst\<lparr>counts :=
    map (\<lambda>i. map (\<lambda>j. f (counts dst ! i ! j) (counts src ! i ! j)) [0..<1 + lgn dst * 2])
      [0..<sk_size dst] @ drop (sk_size dst) (counts dst)\<rparr>)"
    unfolding cells_op_def ok(3,4)
    using for_res_writes [of "sk_size dst" "counts dst" _ "\<lambda>cs. dst\<lparr>counts := cs\<rparr>"
      "\<lambda>i. map (\<lambda>j. f (counts dst ! i ! j) (counts src ! i ! j)) [0..<1 + lgn dst * 2]"]
      counts_length [OF ok(1)] counts_length [OF ok(2)] rows_length [OF ok(1)] rows_length [OF ok(2)] ok
    by (simp add: row_op_eq)
  then show ?thesis using counts_length [OF ok(1)] by simp
qed

lemma cells_op_ok:
  assumes "same_shape dst src" "cells_op f dst src = Inr u"
  shows "skl_ok u \<and> same_shape u src \<and> selects u = selects dst \<and> cell_valid u = cell_valid dst \<and>
    (\<forall>x. cell_valid dst x \<longrightarrow> cell u x = f (cell dst x) (cell src x))"
proof -
  have u: "u = dst\<lparr>counts :=
    map (\<lambda>i. map (\<lambda>j. f (counts dst ! i ! j) (counts src ! i ! j)) [0..<1 + lgn dst * 2])
      [0..<sk_size dst]\<rparr>"
    using assms by (simp add: cells_op_eq)
  show ?thesis using assms(1)
    by (auto simp: u same_shape_def skl_ok_def selects_def cell_valid_def bucket_of_def cell_def fun_eq_iff
        simp del: upt_Suc)
qed

text \<open>The kernel of \<open>SKL_Copy\<close> is the loop with the operator that takes the source.\<close>

lemma copy_row_eq: "length drow = n \<Longrightarrow> length srow = n \<Longrightarrow> copy_row n drow srow = row_op (\<lambda>a b. b) n drow srow"
  by (simp add: row_op_eq copy_row_def list_eq_upt_map)

lemma SKL_Copy_cells:
  assumes "same_shape dst src"
  shows "SKL_Copy dst src = Inr (dst\<lparr>counts := counts src\<rparr>)"
proof -
  have ok: "skl_ok dst" "skl_ok src" "sk_size src = sk_size dst" "lgn src = lgn dst"
    "width dst = width src" "depth dst = depth src"
    using assms same_shape_size [OF assms] by (simp_all add: same_shape_def)
  have "SKL_Copy dst src = Inr (dst\<lparr>counts :=
      map ((!) (counts src)) [0..<sk_size dst] @ drop (sk_size dst) (counts dst)\<rparr>)"
    unfolding SKL_Copy_def ok(3-6)
    using for_res_writes [of "sk_size dst" "counts dst" _ "\<lambda>cs. dst\<lparr>counts := cs\<rparr>" "(!) (counts src)"]
      counts_length [OF ok(1)] counts_length [OF ok(2)] rows_length [OF ok(1)] rows_length [OF ok(2)] ok
    by (simp add: copy_row_def)
  then show ?thesis
    using counts_length [OF ok(1)] counts_length [OF ok(2)] ok(3) by (simp add: list_eq_upt_map)
qed

lemma SKL_Reset_counts:
  assumes "skl_ok skl"
  shows "SKL_Reset skl = skl\<lparr>counts := replicate (sk_size skl) (replicate (1 + lgn skl * 2) 0)\<rparr>"
proof -
  have "SKL_Reset skl = skl\<lparr>counts := map (\<lambda>i. replicate (1 + lgn skl * 2) 0) [0..<sk_size skl] @
      drop (sk_size skl) (counts skl)\<rparr>"
    unfolding SKL_Reset_def
    using for_upto_writes [of "sk_size skl" "counts skl" _ "\<lambda>cs. skl\<lparr>counts := cs\<rparr>"
      "\<lambda>i. replicate (1 + lgn skl * 2) 0"] counts_length [OF assms] rows_length [OF assms]
    by (simp add: list_update_same_conv)
  then show ?thesis using counts_length [OF assms] by (simp add: map_replicate_const)
qed

lemma SKL_Reset_fresh:
  assumes "skl_ok skl"
  shows "fresh_sketch (SKL_Reset skl)" "selects (SKL_Reset skl) = selects skl"
    "same_shape (SKL_Reset skl) skl"
  using assms
  by (auto simp: SKL_Reset_counts fresh_sketch_def skl_ok_def cell_valid_def cell_def selects_def
      bucket_of_def same_shape_def fun_eq_iff simp del: replicate_Suc)

section \<open>Sketches of streams can be merged and subtracted\<close>

lemma same_sketch_shape: "same_sketch s t \<Longrightarrow> same_shape s t"
  by (simp add: same_sketch_def same_shape_def)

lemma same_sketch_sel:
  assumes "same_sketch s t"
  shows "skl_ok t \<and> selects t = selects s \<and> cell_valid t = cell_valid s"
proof -
  have "sk_size t = sk_size s" using same_shape_size [OF same_sketch_shape [OF assms]] by simp
  then show ?thesis using assms
    by (simp add: same_sketch_def selects_def cell_valid_def bucket_of_def fun_eq_iff)
qed

lemma SKL_Merge_same: "same_shape dst src \<Longrightarrow> SKL_Merge dst src = cells_op (+) dst src"
  by (simp add: SKL_Merge_def same_shape_def)

lemma SKL_Diff_same: "same_shape dst src \<Longrightarrow> SKL_Diff dst src = cells_op (-) dst src"
  by (simp add: SKL_Diff_def same_shape_def)

interpretation skl_merge: mergeable_sketch SKL_Update cell selects cell_valid skl_ok SKL_Merge same_sketch
proof
  fix s t u :: skl_t and x k v
  show "cell u x = cell s x + cell t x"
    if "same_sketch s t" "cell_valid s x" "SKL_Merge s t = Inr u"
    using cells_op_ok [OF same_sketch_shape [OF that(1)], of "(+)" u] that
    unfolding SKL_Merge_same [OF same_sketch_shape [OF that(1)]] by blast
  show "skl_ok t \<and> selects t = selects s \<and> cell_valid t = cell_valid s" if "same_sketch s t"
    using same_sketch_sel [OF that] .
  show "same_sketch (SKL_Update s k v) t \<and> same_sketch s (SKL_Update t k v)" if "same_sketch s t"
    using that by (auto simp: same_sketch_def skl_ok_Update)
qed

text \<open>C25: Merging the sketches of two streams gives, cell by cell, the sketch of both streams one
  after the other: measurements taken in parallel can be added.\<close>

theorem SKL_Merge_streams:
  assumes "skl_ok s" "same_sketch s t" "fresh_sketch t"
  shows "\<exists>u. SKL_Merge (run_sketch SKL_Update xs s) (run_sketch SKL_Update ys t) = Inr u \<and>
    (\<forall>x. cell_valid s x \<longrightarrow> cell u x = cell (run_sketch SKL_Update (xs @ ys) s) x)"
proof -
  note t = fresh_sketch_ok [OF assms(3)] fresh_sketch_cell [OF assms(3)]
  have sh: "same_shape (run_sketch SKL_Update xs s) (run_sketch SKL_Update ys t)"
    by (rule same_sketch_shape [OF skl_merge.same_run [OF assms(1) t(1) assms(2)]])
  obtain u where u: "SKL_Merge (run_sketch SKL_Update xs s) (run_sketch SKL_Update ys t) = Inr u"
    using cells_op_eq [OF sh, of "(+)"] by (auto simp: SKL_Merge_same [OF sh])
  then show ?thesis
    using skl_merge.merge_streams [OF assms(1,2) _ t(2) u] by blast
qed

text \<open>C26: Subtracting an earlier copy of a sketch leaves, cell by cell, the sketch of the packets that
  came after it. (The programs here reset the sketch at the end of an interval and do not call
  \<open>SKL_Diff\<close>.)\<close>

theorem SKL_Diff_snapshot:
  assumes "skl_ok s" "fresh_sketch t" "same_sketch s t"
  shows "\<exists>u. SKL_Diff (run_sketch SKL_Update (xs @ ys) s) (run_sketch SKL_Update xs s) = Inr u \<and>
    (\<forall>x. cell_valid s x \<longrightarrow> cell u x = cell (run_sketch SKL_Update ys t) x)"
proof -
  have ss: "same_sketch s s" using assms(3) by (simp add: same_sketch_def)
  have t: "selects t = selects s" "cell_valid t = cell_valid s"
    using same_sketch_sel [OF assms(3)] by simp_all
  have sh: "same_shape (run_sketch SKL_Update (xs @ ys) s) (run_sketch SKL_Update xs s)"
    by (rule same_sketch_shape [OF skl_merge.same_run [OF assms(1,1) ss]])
  obtain u where u: "SKL_Diff (run_sketch SKL_Update (xs @ ys) s) (run_sketch SKL_Update xs s) = Inr u"
    using cells_op_eq [OF sh, of "(-)"] by (auto simp: SKL_Diff_same [OF sh])
  have "cell u x = cell (run_sketch SKL_Update ys t) x" if "cell_valid s x" for x
  proof -
    have "cell u x = cell (run_sketch SKL_Update (xs @ ys) s) x - cell (run_sketch SKL_Update xs s) x"
      using cells_op_ok [OF sh, of "(-)" u] u that skl.run_keeps [OF assms(1), of "xs @ ys"]
      unfolding SKL_Diff_same [OF sh] by (metis (no_types))
    also have "\<dots> = sum_list (map snd (filter (\<lambda>kv. selects s (fst kv) x) ys))"
      using that by (simp add: skl.cell_run assms(1))
    also have "\<dots> = cell (run_sketch SKL_Update ys t) x"
      using skl.cell_run [OF fresh_sketch_ok [OF assms(2)], of x ys] that t
        fresh_sketch_cell [OF assms(2), of x] by simp
    finally show ?thesis .
  qed
  then show ?thesis using u by blast
qed

text \<open>A copy of a sketch onto one of the same dimensions reproduces every counter; with other
  dimensions both copies end the process.\<close>

theorem SKL_Copy_counts:
  "(same_shape dst src \<longrightarrow> SKL_Copy dst src = Inr (dst\<lparr>counts := counts src\<rparr>)) \<and>
   (width dst \<noteq> width src \<or> depth dst \<noteq> depth src \<longrightarrow> SKL_Copy dst src = Inl ExitError)"
  using SKL_Copy_cells by (simp add: SKL_Copy_def)

text \<open>A small sketch: two rows of three buckets for one-byte keys.\<close>

definition demo_sketch :: skl_t where
  "demo_sketch = \<lparr>depth = 2, width = 3, lgn = 8, sk_size = 6, hash_a = [1, 2], scale_a = [3, 5],
     hardner_a = [7, 11], counts = replicate 6 (replicate 17 0), bit_mean = replicate 104 0,
     bit_std = replicate 104 0\<rparr>"

lemma demo_sketch_fresh: "fresh_sketch demo_sketch"
  by (auto simp: fresh_sketch_def skl_ok_def demo_sketch_def cell_valid_def cell_def
      nth_replicate simp del: replicate_Suc)

lemma demo_sketch_ok: "skl_ok demo_sketch" "same_sketch demo_sketch demo_sketch" "same_shape demo_sketch demo_sketch"
  using demo_sketch_fresh by (simp_all add: fresh_sketch_def same_sketch_def same_shape_def)

lemma SKL_Merge_streams_witness:
  "\<exists>u. SKL_Merge (run_sketch SKL_Update [([5], 3)] demo_sketch)
     (run_sketch SKL_Update [([6], 4)] demo_sketch) = Inr u \<and>
     cell u (0, 0) = cell (run_sketch SKL_Update [([5], 3), ([6], 4)] demo_sketch) (0, 0)"
proof -
  have "cell_valid demo_sketch (0, 0)" by (simp add: cell_valid_def demo_sketch_def)
  then show ?thesis
    using SKL_Merge_streams [OF demo_sketch_ok(1,2) demo_sketch_fresh, of "[([5], 3)]" "[([6], 4)]"]
    by auto
qed

lemma SKL_Diff_snapshot_witness:
  "\<exists>u. SKL_Diff (run_sketch SKL_Update [([5], 3), ([6], 4)] demo_sketch)
     (run_sketch SKL_Update [([5], 3)] demo_sketch) = Inr u \<and>
     cell u (0, 0) = cell (run_sketch SKL_Update [([6], 4)] demo_sketch) (0, 0)"
proof -
  have "cell_valid demo_sketch (0, 0)" by (simp add: cell_valid_def demo_sketch_def)
  then show ?thesis
    using SKL_Diff_snapshot [OF demo_sketch_ok(1) demo_sketch_fresh demo_sketch_ok(2),
      of "[([5], 3)]" "[([6], 4)]"] by auto
qed

lemma SKL_Copy_counts_witness:
  "SKL_Copy demo_sketch demo_sketch = Inr demo_sketch"
  using SKL_Copy_counts [of demo_sketch demo_sketch] demo_sketch_ok(3) by simp

section \<open>Completion of the zero counters\<close>

lemma complete_row_cells:
  assumes "length row = 1 + n * 2"
  shows "length (complete_row n row) = 1 + n * 2 \<and>
    (\<forall>p \<le> n. complete_row n row ! p = row ! p) \<and>
    (\<forall>p < n. complete_row n row ! (p + 1 + n) = row ! 0 - row ! (p + 1))"
proof -
  define I where "I i r \<longleftrightarrow> length r = 1 + n * 2 \<and> (\<forall>p \<le> n. r ! p = row ! p) \<and>
      (\<forall>p < i. r ! (p + 1 + n) = row ! 0 - row ! (p + 1))" for i r
  have "I n (complete_row n row)"
    unfolding complete_row_def
  proof (rule for_upto_rule)
    show "I 0 row" using assms by (simp add: I_def)
    fix i r assume i: "i < n" and r: "I i r"
    then have l: "i + 1 + n < length r" by (simp add: I_def)
    have "r ! (i + 1) = row ! (i + 1)" using r i by (simp add: I_def)
    then show "I (Suc i) (r[i + 1 + n := row ! 0 - r ! (i + 1)])"
      using r l unfolding I_def by (auto simp: nth_list_update less_Suc_eq)
  qed
  then show ?thesis by (simp add: I_def)
qed

lemma complete_counts_eq:
  assumes "skl_ok skl"
  shows "complete_counts skl = skl\<lparr>counts := map (complete_row (lgn skl)) (counts skl)\<rparr>"
proof -
  have "complete_counts skl = skl\<lparr>counts := map (\<lambda>i. complete_row (lgn skl) (counts skl ! i)) [0..<sk_size skl] @
      drop (sk_size skl) (counts skl)\<rparr>"
    unfolding complete_counts_def
    using for_upto_writes [of "sk_size skl" "counts skl" _ "\<lambda>cs. skl\<lparr>counts := cs\<rparr>"
      "\<lambda>i. complete_row (lgn skl) (counts skl ! i)"] counts_length [OF assms] by simp
  moreover have "map (\<lambda>i. complete_row (lgn skl) (counts skl ! i)) [0..<sk_size skl] =
      map (complete_row (lgn skl)) (counts skl)"
    by (subst (2) list_eq_upt_map [OF counts_length [OF assms], symmetric]) (simp add: comp_def)
  ultimately show ?thesis using counts_length [OF assms] by simp
qed

lemma compute_bit_dists_counts:
  "compute_bit_dists skl = Inr skl' \<Longrightarrow> counts skl' = counts skl \<and> sk_size skl' = sk_size skl \<and>
    lgn skl' = lgn skl \<and> width skl' = width skl \<and> depth skl' = depth skl"
  by (auto simp: compute_bit_dists_def Let_def split: if_splits)

lemma for_upto_length:
  assumes "\<And>i xs. length (f i xs) = length xs"
  shows "length (for_upto n f xs) = length xs"
  by (rule for_upto_rule [where I = "\<lambda>_ ys. length ys = length xs"]) (simp_all add: assms)

lemma compute_bit_dists_ok:
  assumes "compute_bit_dists skl = Inr u" "skl_ok skl"
  shows "same_sketch u skl"
proof -
  have n: "lgn skl \<le> 104" "length (bit_mean skl) = 104" "length (bit_std skl) = 104"
    using assms(2) by (simp_all add: skl_ok_def)
  have "length (bit_mean u) = 104" "length (bit_std u) = 104"
    using assms(1) n by (auto simp: compute_bit_dists_def Let_def mean_loop_def std_loop_def
        intro!: for_upto_length [THEN trans] split: if_splits)
  moreover have "\<exists>m d. u = skl\<lparr>bit_mean := m, bit_std := d\<rparr>"
    using assms(1) by (auto simp: compute_bit_dists_def Let_def split: if_splits)
  ultimately show ?thesis using assms(2) by (auto simp: same_sketch_def skl_ok_def)
qed

lemma completed_same:
  assumes "skl_ok s" "SKL_CompleteZeroes (run_sketch SKL_Update kvs s) = Inr u"
  shows "same_sketch u s"
proof -
  define r where "r = run_sketch SKL_Update kvs s"
  have okr: "skl_ok r" using skl.run_keeps [OF assms(1)] by (simp add: r_def)
  have "same_sketch s s" using assms(1) by (simp add: same_sketch_def)
  then have rs: "same_sketch r s" using skl_merge.same_run [OF assms(1,1), of kvs "[]"] by (simp add: r_def)
  define c where "c = complete_counts r"
  have "skl_ok c" and cr: "same_sketch c r"
    using okr complete_row_cells(1) unfolding same_sketch_def skl_ok_def c_def complete_counts_eq [OF okr] by auto
  then have "same_sketch u c"
    using compute_bit_dists_ok assms(2) by (simp add: SKL_CompleteZeroes_def r_def c_def)
  then show ?thesis using cr rs by (simp add: same_sketch_def)
qed

lemma bucket_index_less:
  assumes "skl_ok s" "i < depth s" "j < width s"
  shows "i * width s + j < sk_size s"
  using row_index_less [of i "depth s" j "width s"] assms by (simp add: skl_ok_def)

lemma stream_cells:
  assumes "fresh_sketch s" "i < depth s" "j < width s" "q \<le> lgn s * 2"
  shows "cell (run_sketch SKL_Update kvs s) (i * width s + j, q) =
    sum_selected s kvs (\<lambda>key. bucket_of s i key = j \<and> bit_selected (lgn s) key q)"
proof -
  note ok = fresh_sketch_ok [OF assms(1)]
  have v: "cell_valid s (i * width s + j, q)"
    using bucket_index_less [OF ok assms(2,3)] assms(4) by (simp add: cell_valid_def)
  have "selects s key (i * width s + j, q) \<longleftrightarrow> bucket_of s i key = j \<and> bit_selected (lgn s) key q" for key
    using assms(3) by (auto simp: selects_def)
  then show ?thesis
    using skl.cell_run [OF ok v, of kvs] fresh_sketch_cell [OF assms(1) v] by (simp add: sum_selected_def)
qed

text \<open>Completion acts on each row of counters alone.\<close>

lemma completed_counts:
  assumes "fresh_sketch s" "SKL_CompleteZeroes (run_sketch SKL_Update kvs s) = Inr u" "idx < sk_size s"
  shows "counts u ! idx = complete_row (lgn s) (counts (run_sketch SKL_Update kvs s) ! idx)"
    "length (counts (run_sketch SKL_Update kvs s) ! idx) = 1 + lgn s * 2"
proof -
  let ?r = "run_sketch SKL_Update kvs s"
  note ok = fresh_sketch_ok [OF assms(1)]
  have okr: "skl_ok ?r" using skl.run_keeps [OF ok] by simp
  have "same_sketch ?r (run_sketch SKL_Update [] s)"
    using ok by (intro skl_merge.same_run) (simp_all add: same_sketch_def)
  then have "same_shape ?r s" using same_sketch_shape by simp
  then have sz: "idx < sk_size ?r" "lgn ?r = lgn s" using same_shape_size [of ?r s] assms(3) by (auto simp: same_shape_def)
  show "length (counts ?r ! idx) = 1 + lgn s * 2" using rows_length [OF okr sz(1)] sz(2) by simp
  have "counts u = map (complete_row (lgn s)) (counts ?r)"
    using assms(2) compute_bit_dists_counts [of "complete_counts ?r" u] complete_counts_eq [OF okr] sz(2)
    by (simp add: SKL_CompleteZeroes_def)
  then show "counts u ! idx = complete_row (lgn s) (counts ?r ! idx)"
    using sz(1) counts_length [OF okr] by simp
qed

lemma completed_cells:
  assumes "fresh_sketch s" "SKL_CompleteZeroes (run_sketch SKL_Update kvs s) = Inr u"
    and "i < depth s" "j < width s"
  shows "cell u (i * width s + j, 0) = sum_selected s kvs (\<lambda>key. bucket_of s i key = j) \<and>
    (0 < p \<longrightarrow> p \<le> lgn s \<longrightarrow>
      cell u (i * width s + j, p) = sum_selected s kvs (\<lambda>key. bucket_of s i key = j \<and> key_bit key (p - 1)) \<and>
      cell u (i * width s + j, p + lgn s) =
        sum_selected s kvs (\<lambda>key. bucket_of s i key = j \<and> \<not> key_bit key (p - 1)))"
proof -
  define r where "r = run_sketch SKL_Update kvs s"
  define idx where "idx = i * width s + j"
  note cu = completed_counts [OF assms(1,2) bucket_index_less [OF fresh_sketch_ok [OF assms(1)] assms(3,4)],
    folded r_def idx_def]
  note cr = complete_row_cells [of "counts r ! idx" "lgn s"]
  note c = stream_cells [OF assms(1,3,4), of _ kvs, folded r_def idx_def]
  have a: "cell u (idx, q) = cell r (idx, q)" if "q \<le> lgn s" for q
    using cr cu that by (simp add: cell_def)
  have b: "cell u (idx, p + lgn s) = cell r (idx, 0) - cell r (idx, p)" if "0 < p" "p \<le> lgn s"
    using cr cu that by (cases p) (simp_all add: cell_def)
  have split: "sum_selected s kvs (\<lambda>key. bucket_of s i key = j) =
      sum_selected s kvs (\<lambda>key. bucket_of s i key = j \<and> key_bit key (p - 1)) +
      sum_selected s kvs (\<lambda>key. bucket_of s i key = j \<and> \<not> key_bit key (p - 1))"
    by (induction kvs) (auto simp: ac_simps)
  have c0: "cell r (idx, 0) = sum_selected s kvs (\<lambda>key. bucket_of s i key = j)"
    using c [of 0] by (simp add: bit_selected_def)
  have cp: "cell r (idx, p) = sum_selected s kvs (\<lambda>key. bucket_of s i key = j \<and> key_bit key (p - 1))"
    if "0 < p" "p \<le> lgn s" using c [of p] that by (simp add: bit_selected_def)
  show ?thesis
    using a [of 0] a [of p] b c0 cp split unfolding idx_def [symmetric] by simp
qed

text \<open>C11: After \<open>SKL_CompleteZeroes\<close> on the sketch of a stream, complement cell \<open>p + lgn\<close> of a bucket is
  the sum of the sizes of its packets whose bit \<open>p - 1\<close> is not set, and the other cells are as
  they were.\<close>

theorem SKL_CompleteZeroes_stream:
  assumes "fresh_sketch s" "SKL_CompleteZeroes (run_sketch SKL_Update kvs s) = Inr u"
    and "i < depth s" "j < width s" "0 < p" "p \<le> lgn s"
  shows "cell u (i * width s + j, p + lgn s) =
      sum_selected s kvs (\<lambda>key. bucket_of s i key = j \<and> \<not> key_bit key (p - 1)) \<and>
    cell u (i * width s + j, p) = sum_selected s kvs (\<lambda>key. bucket_of s i key = j \<and> key_bit key (p - 1)) \<and>
    cell u (i * width s + j, 0) = sum_selected s kvs (\<lambda>key. bucket_of s i key = j)"
  using completed_cells [OF assms(1-4), of p] assms(5,6) by blast

lemma compute_bit_dists_total: "lgn skl \<le> 104 \<Longrightarrow> depth skl * width skl \<noteq> 1 \<Longrightarrow> \<exists>u. compute_bit_dists skl = Inr u"
  by (simp add: compute_bit_dists_def Let_def)

lemma SKL_CompleteZeroes_demo:
  "\<exists>u. SKL_CompleteZeroes (run_sketch SKL_Update [([5], 3)] demo_sketch) = Inr u"
proof -
  let ?r = "run_sketch SKL_Update [([5], 3)] demo_sketch"
  have "lgn (complete_counts ?r) \<le> 104 \<and> depth (complete_counts ?r) * width (complete_counts ?r) \<noteq> 1"
    using complete_counts_eq [OF skl_ok_Update [OF demo_sketch_ok(1), of "[5]" 3]]
    by (simp add: demo_sketch_def del: replicate_Suc)
  then show ?thesis unfolding SKL_CompleteZeroes_def using compute_bit_dists_total by blast
qed

lemma SKL_CompleteZeroes_stream_witness:
  "\<exists>u. SKL_CompleteZeroes (run_sketch SKL_Update [([5], 3)] demo_sketch) = Inr u \<and>
     cell u (0 * width demo_sketch + 0, 0) =
       sum_selected demo_sketch [([5], 3)] (\<lambda>key. bucket_of demo_sketch 0 key = 0)"
proof -
  obtain u where u: "SKL_CompleteZeroes (run_sketch SKL_Update [([5], 3)] demo_sketch) = Inr u"
    using SKL_CompleteZeroes_demo by blast
  have d: "0 < depth demo_sketch" "0 < width demo_sketch" "1 \<le> lgn demo_sketch"
    by (simp_all add: demo_sketch_def)
  from SKL_CompleteZeroes_stream [OF demo_sketch_fresh u d(1,2) zero_less_one d(3)] u
  show ?thesis by blast
qed

section \<open>The serial form\<close>

definition put_cell :: "nat \<times> nat \<times> i32 \<Rightarrow> i32 list list \<Rightarrow> i32 list list" where
  "put_cell = (\<lambda>(i, j, v) cs. cs[i := (cs ! i)[j := v]])"

definition put_bytes :: "nat \<times> nat \<times> i32 \<Rightarrow> byte list" where
  "put_bytes = (\<lambda>(i, j, v). serial_entry i j v)"

lemma length_put_bytes [simp, shape_simps]: "length (put_bytes e) = 12"
  by (simp add: put_bytes_def serial_entry_def split: prod.split)

lemma put_cell_length [simp, shape_simps]:
  "length (put_cell e cs) = length cs" "length (put_cell e cs ! k) = length (cs ! k)"
proof -
  obtain i j v where e: "e = (i, j, v)" by (cases e)
  show "length (put_cell e cs) = length cs" by (simp add: e put_cell_def)
  show "length (put_cell e cs ! k) = length (cs ! k)"
    by (cases "i < length cs"; cases "i = k") (simp_all add: e put_cell_def list_update_beyond)
qed

lemma length_concat_put_bytes: "length (concat (map put_bytes cells)) = 12 * length cells"
  by (induction cells) simp_all

lemma sint_of_nat_i32: "i < 2 ^ 31 \<Longrightarrow> sint (of_nat i :: i32) = int i"
  using sint_of_int_i32 [of "int i"] by simp

lemma deser_loop_entry:
  assumes "i < length cs" "j < length (cs ! i)" "i < 2 ^ 31" "j < 2 ^ 31" "length pre < tot"
  shows "deser_loop (pre @ put_bytes (i, j, v) @ post) tot (length pre) cs =
    deser_loop (pre @ put_bytes (i, j, v) @ post) tot (length pre + 12) (put_cell (i, j, v) cs)"
proof -
  let ?buf = "pre @ put_bytes (i, j, v) @ post"
  have w: "le_word (le_bytes 4 w) = w" for w :: i32
    by (rule le_word_le_bytes_full) simp
  have r: "take 4 (drop (length pre) ?buf) = le_bytes 4 (of_nat i :: i32)"
    "take 4 (drop (length pre + 4) ?buf) = le_bytes 4 (of_nat j :: i32)"
    "take 4 (drop (length pre + 8) ?buf) = le_bytes 4 v"
    by (simp_all add: put_bytes_def serial_entry_def)
  have l: "\<not> length ?buf < length pre + 12" by simp
  show ?thesis
    unfolding deser_loop.simps [of ?buf tot "length pre" cs] r w
    using assms l by (simp add: Let_def sint_of_nat_i32 put_cell_def)
qed

lemma deser_loop_entries:
  assumes "\<forall>(i, j, v) \<in> set cells. i < length cs \<and> j < length (cs ! i) \<and> i < 2 ^ 31 \<and> j < 2 ^ 31"
  shows "deser_loop (pre @ concat (map put_bytes cells)) (length pre + 12 * length cells) (length pre) cs =
    Inr (fold put_cell cells cs)"
  using assms
proof (induction cells arbitrary: pre cs)
  case Nil
  then show ?case by (simp add: deser_loop.simps)
next
  case (Cons e cells)
  obtain i j v where e: "e = (i, j, v)" by (cases e)
  have p: "i < length cs" "j < length (cs ! i)" "i < 2 ^ 31" "j < 2 ^ 31" using Cons.prems e by auto
  define cs' where "cs' = put_cell (i, j, v) cs"
  have len: "length cs' = length cs" "length (cs' ! k) = length (cs ! k)" for k
    by (simp_all add: cs'_def)
  have "deser_loop (pre @ concat (map put_bytes (e # cells))) (length pre + 12 * length (e # cells))
      (length pre) cs =
    deser_loop ((pre @ put_bytes e) @ concat (map put_bytes cells))
      (length (pre @ put_bytes e) + 12 * length cells) (length (pre @ put_bytes e)) cs'"
    using deser_loop_entry [OF p, of pre "length pre + 12 * length (e # cells)" v
        "concat (map put_bytes cells)"]
    by (simp add: e cs'_def add.assoc)
  also have "\<dots> = Inr (fold put_cell cells cs')"
    using Cons.prems len by (intro Cons.IH) auto
  finally show ?case by (simp add: cs'_def e)
qed

lemma fold_put_cell_length: "length (fold put_cell cells cs) = length cs \<and>
    (\<forall>k. length (fold put_cell cells cs ! k) = length (cs ! k))"
  by (induction cells arbitrary: cs) simp_all

lemma fold_put_cell_nth:
  assumes "\<forall>(i, j, v) \<in> set cells. v = f i j \<and> i < length cs \<and> j < length (cs ! i)"
  shows "fold put_cell cells cs ! a ! b =
    (if (\<exists>v. (a, b, v) \<in> set cells) then f a b else cs ! a ! b)"
  using assms
proof (induction cells arbitrary: cs)
  case (Cons e cells)
  obtain i j v where e: "e = (i, j, v)" by (cases e)
  have p: "v = f i j" "i < length cs" "j < length (cs ! i)" using Cons.prems e by auto
  have pc: "put_cell e cs ! a ! b = (if a = i \<and> b = j then f i j else cs ! a ! b)"
    using p by (auto simp: e put_cell_def nth_list_update)
  have "fold put_cell cells (put_cell e cs) ! a ! b =
      (if (\<exists>v. (a, b, v) \<in> set cells) then f a b else put_cell e cs ! a ! b)"
    using Cons.prems by (intro Cons.IH) auto
  then show ?case unfolding pc by (auto simp: e)
qed simp

lemma nonzero_cells_iff: "(i, j, v) \<in> set (nonzero_cells skl) \<longleftrightarrow>
    i < depth skl * width skl \<and> j < 1 + lgn skl * 2 \<and> v = counts skl ! i ! j \<and> v \<noteq> 0"
  by (auto simp: nonzero_cells_def simp del: upt_Suc)

lemma length_nonzero_cells: "length (nonzero_cells skl) \<le> depth skl * width skl * (1 + lgn skl * 2)"
proof -
  have f: "length (filter (\<lambda>j. counts skl ! i ! j \<noteq> 0) [0..<1 + lgn skl * 2]) \<le> 1 + lgn skl * 2" for i
    using length_filter_le [of _ "[0..<1 + lgn skl * 2]"] by (metis diff_zero length_upt)
  have "sum_list (map (\<lambda>i. length (filter (\<lambda>j. counts skl ! i ! j \<noteq> 0) [0..<1 + lgn skl * 2])) xs)
      \<le> length xs * (1 + lgn skl * 2)" for xs
  proof (induction xs)
    case (Cons x xs)
    then show ?case using add_mono [OF f [of x] Cons] by (simp del: upt_Suc)
  qed simp
  from this [of "[0..<depth skl * width skl]"] show ?thesis
    by (simp add: nonzero_cells_def length_concat comp_def del: upt_Suc)
qed

text \<open>
  The counters a message carries lie inside a sketch of the same dimensions, with indices that fit
  in \<open>int\<close>; and they fit into what \<open>SKL_SerialSize\<close> reserves.
\<close>

lemma nonzero_cells_inside:
  assumes "same_shape dst src" "4 + 12 * (sk_size src * (1 + lgn src * 2)) < 2 ^ 31"
    and "(i, j, v) \<in> set (nonzero_cells src)"
  shows "i < length (counts dst)" "j < length (counts dst ! i)" "i < 2 ^ 31" "j < 2 ^ 31" "v = counts src ! i ! j"
proof -
  have ok: "skl_ok dst" "skl_ok src" "sk_size dst = sk_size src" "lgn dst = lgn src"
    "sk_size src = depth src * width src"
    using assms(1) same_shape_size [OF assms(1)] by (simp_all add: same_shape_def skl_ok_def)
  have ij: "i < sk_size src" "j < 1 + lgn src * 2"
    using assms(3) ok(5) by (simp_all add: nonzero_cells_iff)
  have "sk_size src \<le> sk_size src * (1 + lgn src * 2)" by simp
  then show "i < 2 ^ 31" using ij assms(2) by linarith
  show "j < 2 ^ 31" using ij(2) ok(2) by (simp add: skl_ok_def)
  show "i < length (counts dst)" "j < length (counts dst ! i)"
    using ij rows_length [OF ok(1)] counts_length [OF ok(1)] ok(3,4) by simp_all
  show "v = counts src ! i ! j" using assms(3) by (simp add: nonzero_cells_iff)
qed

lemma serial_length:
  assumes "skl_ok src" "4 + 12 * (sk_size src * (1 + lgn src * 2)) < 2 ^ 31"
  shows "unat (4 + (2 * 4 + 4) * of_nat (length (nonzero_cells src)) :: u32) = 4 + 12 * length (nonzero_cells src)"
    "4 + 12 * int (length (nonzero_cells src)) \<le> sint (SKL_SerialSize src)"
proof -
  define m where "m = length (nonzero_cells src)"
  have sz: "sk_size src = depth src * width src" using assms(1) by (simp add: skl_ok_def)
  have n: "m \<le> sk_size src * (1 + lgn src * 2)" using length_nonzero_cells [of src] sz by (simp add: m_def)
  then have "4 + 12 * m < 2 ^ 31" using mult_le_mono2 [OF n, of 12] assms(2) by linarith
  moreover have l: "4 + (2 * 4 + 4) * of_nat m = (of_nat (4 + 12 * m) :: u32)" by simp
  ultimately show "unat (4 + (2 * 4 + 4) * of_nat (length (nonzero_cells src)) :: u32) = 4 + 12 * length (nonzero_cells src)"
    unfolding m_def [symmetric] l unat_of_nat by simp
  have "SKL_SerialSize src = of_nat (4 + 12 * (sk_size src * (1 + lgn src * 2)))"
    by (simp add: SKL_SerialSize_def sz algebra_simps)
  then have "sint (SKL_SerialSize src) = 4 + 12 * int (sk_size src * (1 + lgn src * 2))"
    using sint_of_nat_i32 [OF assms(2)] by simp
  moreover have "int m \<le> int (sk_size src * (1 + lgn src * 2))" using n by (rule of_nat_mono)
  ultimately show "4 + 12 * int (length (nonzero_cells src)) \<le> sint (SKL_SerialSize src)"
    unfolding m_def [symmetric] by linarith
qed

text \<open>Writing these counters into the destination.\<close>

lemma put_nonzero_cells:
  assumes "same_shape dst src" "4 + 12 * (sk_size src * (1 + lgn src * 2)) < 2 ^ 31"
  defines "u \<equiv> dst\<lparr>counts := fold put_cell (nonzero_cells src) (counts dst)\<rparr>"
  shows "same_shape u src"
    "cell_valid src x \<Longrightarrow> cell u x = (if cell src x \<noteq> 0 then cell src x else cell dst x)"
proof -
  note inside = nonzero_cells_inside [OF assms(1,2)]
  have ok: "skl_ok dst" "sk_size src = depth src * width src" using assms(1) by (simp_all add: same_shape_def skl_ok_def)
  have "\<forall>row \<in> set (fold put_cell (nonzero_cells src) (counts dst)). length row = 1 + lgn dst * 2"
    using fold_put_cell_length [of "nonzero_cells src" "counts dst"] rows_length [OF ok(1)] counts_length [OF ok(1)]
    by (metis in_set_conv_nth)
  then have "skl_ok u" using ok(1) fold_put_cell_length [of "nonzero_cells src" "counts dst"]
    by (simp add: u_def skl_ok_def)
  then show "same_shape u src" using assms(1) by (simp add: same_shape_def u_def)
  have "\<forall>(i, j, v) \<in> set (nonzero_cells src).
      v = counts src ! i ! j \<and> i < length (counts dst) \<and> j < length (counts dst ! i)"
    using inside by blast
  from fold_put_cell_nth [OF this, of "fst x" "snd x"]
  show "cell u x = (if cell src x \<noteq> 0 then cell src x else cell dst x)" if "cell_valid src x"
    using that ok(2) by (cases x) (auto simp: cell_def u_def nonzero_cells_iff cell_valid_def)
qed

text \<open>C27: Deserialising the serial form of a sketch into one of the same dimensions succeeds and
  gives every counter that is not zero in the source; a counter that is zero in the source keeps
  the value the destination had (so the result is the source exactly when the destination was
  fresh or agreed there). The length word is the length of the message and is at most what
  \<open>SKL_SerialSize\<close> reserves.\<close>

theorem SKL_Serialize_roundtrip:
  assumes "same_shape dst src" "4 + 12 * (sk_size src * (1 + lgn src * 2)) < 2 ^ 31"
  shows "\<exists>u. SKL_Deserialize dst (fst (SKL_Serialize src)) = Inr (u, snd (SKL_Serialize src)) \<and>
    same_shape u src \<and>
    (\<forall>x. cell_valid src x \<longrightarrow> cell u x = (if cell src x \<noteq> 0 then cell src x else cell dst x)) \<and>
    length (fst (SKL_Serialize src)) = unat (snd (SKL_Serialize src)) \<and>
    int (length (fst (SKL_Serialize src))) \<le> sint (SKL_SerialSize src)"
proof -
  define cells where "cells = nonzero_cells src"
  define len :: u32 where "len = 4 + (2 * 4 + 4) * of_nat (length cells)"
  have "skl_ok src" using assms(1) by (simp add: same_shape_def)
  note sz = serial_length [OF this assms(2), folded cells_def, folded len_def]
  have ser: "SKL_Serialize src = (le_bytes 4 len @ concat (map put_bytes cells), len)"
    by (simp add: SKL_Serialize_def cells_def len_def Let_def put_bytes_def)
  have "\<forall>(i, j, v) \<in> set cells. i < length (counts dst) \<and> j < length (counts dst ! i) \<and> i < 2 ^ 31 \<and> j < 2 ^ 31"
    using nonzero_cells_inside [OF assms] unfolding cells_def by blast
  from deser_loop_entries [OF this, of "le_bytes 4 len"]
  have "SKL_Deserialize dst (fst (SKL_Serialize src)) = Inr (dst\<lparr>counts := fold put_cell cells (counts dst)\<rparr>, len)"
    by (simp add: SKL_Deserialize_def ser Let_def le_word_le_bytes_full sz(1))
  then show ?thesis
    using put_nonzero_cells [OF assms, folded cells_def] sz by (auto simp: ser length_concat_put_bytes)
qed

lemma SKL_Serialize_roundtrip_witness:
  "\<exists>u. SKL_Deserialize demo_sketch (fst (SKL_Serialize (SKL_Update demo_sketch [5] 3))) =
      Inr (u, snd (SKL_Serialize (SKL_Update demo_sketch [5] 3))) \<and>
    cell u (0, 0) = cell (SKL_Update demo_sketch [5] 3) (0, 0)"
proof -
  let ?s = "SKL_Update demo_sketch [5] 3"
  have sh: "same_shape demo_sketch ?s"
    using demo_sketch_ok(3) skl_ok_Update by (simp add: same_shape_def)
  have b: "4 + 12 * (sk_size ?s * (1 + lgn ?s * 2)) < 2 ^ 31" by (simp add: demo_sketch_def)
  have v: "cell_valid ?s (0, 0)" "cell demo_sketch (0, 0) = 0"
    by (simp_all add: cell_valid_def demo_sketch_def cell_def)
  show ?thesis using SKL_Serialize_roundtrip [OF sh b] v by auto
qed

section \<open>Reset and single rows\<close>

text \<open>A reset sketch has forgotten everything and hashes as before: what it holds after a further
  stream is the sums of that stream alone.\<close>

theorem SKL_Reset_restarts:
  assumes "skl_ok skl" "cell_valid skl x"
  shows "fresh_sketch (SKL_Reset skl) \<and>
    cell (run_sketch SKL_Update kvs (SKL_Reset skl)) x = sum_selected skl kvs (\<lambda>key. selects skl key x)"
proof -
  note f = SKL_Reset_fresh [OF assms(1)]
  have "cell_valid (SKL_Reset skl) = cell_valid skl"
    using same_shape_size [OF f(3)] f(3) by (simp add: cell_valid_def same_shape_def fun_eq_iff)
  then show ?thesis
    using skl.cell_run [OF fresh_sketch_ok [OF f(1)], of x kvs] fresh_sketch_cell [OF f(1)] f(1,2) assms(2)
    by (simp add: sum_selected_def)
qed

lemma SKL_Reset_restarts_witness:
  "fresh_sketch (SKL_Reset (SKL_Update demo_sketch [5] 3))"
proof -
  have v: "cell_valid (SKL_Update demo_sketch [5] 3) (0, 0)"
    by (simp add: cell_valid_def demo_sketch_def)
  show ?thesis
    using SKL_Reset_restarts [OF skl_ok_Update [OF demo_sketch_ok(1)] v] by blast
qed

text \<open>\<open>SKL_Copy_OneRow\<close> turns row \<open>r\<close> of a sketch into a one-row sketch: same counters, and a key
  falls into the bucket it has in row \<open>r\<close>.\<close>

theorem SKL_Copy_OneRow_row:
  assumes "skl_ok dst" "skl_ok src" "width dst = width src" "lgn dst = lgn src" "depth dst = 1"
    and "r < depth src" "hash_a dst \<noteq> []" "scale_a dst \<noteq> []" "hardner_a dst \<noteq> []"
  shows "\<exists>u. SKL_Copy_OneRow dst src r = Inr u \<and>
    (\<forall>c < width src. \<forall>p \<le> lgn src * 2. cell u (c, p) = cell src (r * width src + c, p)) \<and>
    bucket_of u 0 = bucket_of src r"
proof -
  have sz: "sk_size dst = width src" using assms(1,3,5) by (simp add: skl_ok_def)
  have ix: "r * width src + c < sk_size src" if "c < width src" for c
    using row_index_less [OF assms(6) that] assms(2) by (simp add: skl_ok_def)
  have cl: "copy_row (1 + lgn src * 2) (counts dst ! c) (counts src ! (r * width src + c)) =
      Inr (counts src ! (r * width src + c))" if "c < width src" for c
    using rows_length [OF assms(1)] rows_length [OF assms(2) ix [OF that]] that sz assms(4)
    by (simp add: copy_row_def)
  have "for_res (width src) (\<lambda>c d.
        rbind (arr_get (counts d) c) (\<lambda>drow. rbind (arr_get (counts src) (r * width src + c)) (\<lambda>srow.
        rbind (copy_row (1 + lgn src * 2) drow srow) (\<lambda>row.
          Inr (d\<lparr>counts := (counts d)[c := row]\<rparr>))))) dst =
      Inr (dst\<lparr>counts := map (\<lambda>c. counts src ! (r * width src + c)) [0..<width src] @
        drop (width src) (counts dst)\<rparr>)"
    using for_res_writes [of "width src" "counts dst" _ "\<lambda>cs. dst\<lparr>counts := cs\<rparr>"
      "\<lambda>c. counts src ! (r * width src + c)"]
      counts_length [OF assms(1)] counts_length [OF assms(2)] ix cl sz by simp
  then have "SKL_Copy_OneRow dst src r = Inr (dst\<lparr>
      counts := map (\<lambda>c. counts src ! (r * width src + c)) [0..<width src] @ drop (width src) (counts dst),
      hash_a := (hash_a dst)[0 := hash_a src ! r], scale_a := (scale_a dst)[0 := scale_a src ! r],
      hardner_a := (hardner_a dst)[0 := hardner_a src ! r]\<rparr>)"
    using assms(3,5,6) unfolding SKL_Copy_OneRow_def by simp
  then show ?thesis
    using assms(3,4,7-9) by (auto simp: cell_def nth_append bucket_of_def fun_eq_iff)
qed

definition demo_row :: skl_t where
  "demo_row = demo_sketch\<lparr>depth := 1, sk_size := 3, counts := replicate 3 (replicate 17 0)\<rparr>"

lemma SKL_Copy_OneRow_row_witness:
  "\<exists>u. SKL_Copy_OneRow demo_row demo_sketch 1 = Inr u \<and> bucket_of u 0 = bucket_of demo_sketch 1"
proof -
  have "skl_ok demo_row" by (auto simp: skl_ok_def demo_row_def demo_sketch_def simp del: replicate_Suc)
  moreover have "width demo_row = width demo_sketch" "lgn demo_row = lgn demo_sketch" "depth demo_row = 1"
    "1 < depth demo_sketch" "hash_a demo_row \<noteq> []" "scale_a demo_row \<noteq> []" "hardner_a demo_row \<noteq> []"
    by (simp_all add: demo_row_def demo_sketch_def)
  ultimately show ?thesis
    using SKL_Copy_OneRow_row [of demo_row demo_sketch 1] demo_sketch_ok(1) by blast
qed

end
