(* ===== verification/Sketch_Text.thy ===== *)
theory Sketch_Text
  imports Text Sketch_Ops
begin

text \<open>
  The text form of a sketch: \<open>SKL_Print\<close>, \<open>SKL_ReadFile\<close> and \<open>SKL_ReadFile_Onerow\<close> of
  \<^verbatim>\<open>alg_sketchlearn.c\<close>. A file is its text, \<open>None\<close> one that does not open. \<open>junk\<close> is the content of
  an uninitialised local variable.
\<close>

section \<open>Printing\<close>

definition fmt_dims :: "fitem list" where
  "fmt_dims = parse_fmt ''depth %lu width %lu''"

definition fmt_total :: "fitem list" where
  "fmt_total = parse_fmt (''%d %d total %d'' @ [CHR 0x0A])"

definition fmt_bit :: "fitem list" where
  "fmt_bit = parse_fmt (CHR 0x09 # ''bit %d: %d, %d'' @ [CHR 0x0A])"

definition print_bucket :: "skl_t \<Rightarrow> nat \<Rightarrow> string" where
  "print_bucket skl i =
     printf fmt_total [IntArg (int (i div width skl)), IntArg (int (i mod width skl)),
       IntArg (sint (counts skl ! i ! 0))] @
     concat (map (\<lambda>j. printf fmt_bit [IntArg (int j), IntArg (sint (counts skl ! i ! j)),
       IntArg (sint (counts skl ! i ! (j + lgn skl)))]) [1..<1 + lgn skl])"

definition SKL_Print :: "skl_t \<Rightarrow> string" where
  "SKL_Print skl =
     printf (fmt_dims @ [Ch (CHR 0x0A)]) [IntArg (int (depth skl)), IntArg (int (width skl))] @
     concat (map (print_bucket skl) [0..<sk_size skl])"

section \<open>Reading\<close>

text \<open>The variables of the loop.\<close>

record reader =
  rd_row :: i32
  rd_col :: i32
  rd_skl :: skl_t

definition put_counter :: "u64 \<Rightarrow> int \<Rightarrow> i32 \<Rightarrow> skl_t \<Rightarrow> skl_t res" where
  "put_counter idx p v skl =
     (if unat idx < length (counts skl) \<and> 0 \<le> p \<and> p < int (length (counts skl ! unat idx))
      then Inr (skl\<lparr>counts := (counts skl)[unat idx := (counts skl ! unat idx)[nat p := v]]\<rparr>)
      else Inl OutOfBounds)"

definition counter_index :: "skl_t \<Rightarrow> i32 \<Rightarrow> i32 \<Rightarrow> u64" where
  "counter_index skl row col = scast row * of_nat (width skl) + scast col"

text \<open>
  A line that starts with a digit, with \<open>row_of\<close> choosing between the scanned row and the
  caller's, and any other line. A bit whose two counters do not add up to the total is reported
  with \<open>LOG_ERR\<close>, which ends the process.
\<close>

definition read_total :: "(i32 \<Rightarrow> i32) \<Rightarrow> i32 \<Rightarrow> string \<Rightarrow> reader \<Rightarrow> reader res" where
  "read_total row_of junk l st =
     (let vs = sscanf fmt_total l;
          row = row_of (scanned vs 0 (rd_row st)); col = scanned vs 1 (rd_col st)
      in rbind (put_counter (counter_index (rd_skl st) row col) 0 (scanned vs 2 junk) (rd_skl st)) (\<lambda>skl.
         Inr (st\<lparr>rd_row := row, rd_col := col, rd_skl := skl\<rparr>)))"

definition read_bit :: "i32 \<Rightarrow> string \<Rightarrow> reader \<Rightarrow> reader res" where
  "read_bit junk l st =
     (let vs = sscanf fmt_bit l; skl = rd_skl st;
          index = scanned vs 0 junk; size1 = scanned vs 1 junk; size2 = scanned vs 2 junk;
          idx = counter_index skl (rd_row st) (rd_col st)
      in if length (counts skl) \<le> unat idx \<or> counts skl ! unat idx = [] then Inl OutOfBounds
         else if counts skl ! unat idx ! 0 \<noteq> size1 + size2 then Inl ExitError
         else
           rbind (put_counter idx (sint index) size1 skl) (\<lambda>skl1.
           rbind (put_counter idx (sint index + int (lgn skl)) size2 skl1) (\<lambda>skl2.
           Inr (st\<lparr>rd_skl := skl2\<rparr>))))"

fun read_body :: "(i32 \<Rightarrow> i32) \<Rightarrow> i32 \<Rightarrow> string list \<Rightarrow> reader \<Rightarrow> reader res" where
  "read_body row_of junk [] st = Inr st"
| "read_body row_of junk (l # ls) st =
     rbind (if l \<noteq> [] \<and> is_digit (hd l) then read_total row_of junk l st else read_bit junk l st)
       (read_body row_of junk ls)"

definition read_sketch :: "(u64 \<Rightarrow> u64 \<Rightarrow> bool) \<Rightarrow> (i32 \<Rightarrow> i32) \<Rightarrow> u64 \<Rightarrow> i32 \<Rightarrow> string list \<Rightarrow> reader \<Rightarrow>
    reader res" where
  "read_sketch fits_dims row_of junk64 junk ls st =
     (case ls of [] \<Rightarrow> Inr st
      | l # ls' \<Rightarrow>
         let vs = sscanf fmt_dims l
         in if fits_dims (scanned vs 0 junk64) (scanned vs 1 junk64)
            then read_body row_of junk ls' st else Inl ExitError)"

definition SKL_ReadFile :: "u64 \<Rightarrow> i32 \<Rightarrow> string option \<Rightarrow> skl_t \<Rightarrow> skl_t res" where
  "SKL_ReadFile junk64 junk file skl =
     (case file of None \<Rightarrow> Inl OutOfBounds
      | Some f \<Rightarrow> rbind (read_sketch (\<lambda>d w. d = of_nat (depth skl) \<and> w = of_nat (width skl)) (\<lambda>r. r)
          junk64 junk (lines_100 f) \<lparr>rd_row = junk, rd_col = junk, rd_skl = skl\<rparr>) (\<lambda>st. Inr (rd_skl st)))"

text \<open>\<open>SKL_ReadFile_Onerow\<close> checks the width only and writes every line into row \<open>row\<close>.\<close>

definition SKL_ReadFile_Onerow :: "u64 \<Rightarrow> i32 \<Rightarrow> string option \<Rightarrow> i32 \<Rightarrow> skl_t \<Rightarrow> skl_t res" where
  "SKL_ReadFile_Onerow junk64 junk file row skl =
     (case file of None \<Rightarrow> Inl OutOfBounds
      | Some f \<Rightarrow> rbind (read_sketch (\<lambda>d w. w = of_nat (width skl)) (\<lambda>_. row)
          junk64 junk (lines_100 f) \<lparr>rd_row = row, rd_col = junk, rd_skl = skl\<rparr>) (\<lambda>st. Inr (rd_skl st)))"

section \<open>Printed lines scan back\<close>

lemma sscanf_snoc_Ch: "sscanf (is @ [Ch c]) s = sscanf is s"
  by (induction "is" s rule: sscanf.induct) (auto split: list.splits option.splits)

lemma printf_snoc_Ch: "fits is ks \<Longrightarrow> printf (is @ [Ch c]) (map IntArg ks) = printf is (map IntArg ks) @ [c]"
  by (induction "is" ks rule: fits.induct) auto

lemma length_show_int: "\<bar>k\<bar> < 10 ^ 10 \<Longrightarrow> length (show_int k) \<le> 11"
  using length_show_nat [of "nat \<bar>k\<bar>" 10] by (auto simp: show_int_def nat_less_iff)

lemma length_printf:
  "fits is ks \<Longrightarrow> \<forall>k \<in> set ks. \<bar>k\<bar> < 10 ^ 10 \<Longrightarrow>
    length (printf is (map IntArg ks)) \<le> length is + 10 * length ks"
proof (induction "is" ks rule: fits.induct)
  case (3 "is" k ks)
  then show ?case using length_show_int [of k] by auto
next
  case (4 "is" k ks)
  then show ?case using length_show_int [of k] by auto
qed auto

lemma show_int_chars: "c \<in> set (show_int k) \<Longrightarrow> is_digit c \<or> c = CHR ''-''"
  using show_nat_digits by (auto simp: show_int_def split: if_splits)

lemma printf_chars:
  "fits is ks \<Longrightarrow> c \<in> set (printf is (map IntArg ks)) \<Longrightarrow> Ch c \<in> set is \<or> is_digit c \<or> c = CHR ''-''"
  by (induction "is" ks rule: fits.induct) (auto dest: show_int_chars)

lemma printed_line:
  assumes "fits is ks" "Ch (CHR 0x0A) \<notin> set is" "\<forall>k \<in> set ks. \<bar>k\<bar> < 10 ^ 10"
    and "length is + 10 * length ks < 99"
  shows "CHR 0x0A \<notin> set (printf is (map IntArg ks)) \<and> length (printf is (map IntArg ks)) < 99"
proof -
  have "\<not> is_digit (CHR 0x0A)" by (simp add: is_digit_def)
  then show ?thesis using printf_chars [OF assms(1), of "CHR 0x0A"] length_printf [OF assms(1,3)] assms(2,4) by auto
qed

definition base_total :: "fitem list" where "base_total = parse_fmt ''%d %d total %d''"
definition base_bit :: "fitem list" where "base_bit = parse_fmt (CHR 0x09 # ''bit %d: %d, %d'')"

lemma fmt_eqs:
  "fmt_total = base_total @ [Ch (CHR 0x0A)]" "fmt_bit = base_bit @ [Ch (CHR 0x0A)]"
  "separated fmt_dims" "separated base_total" "separated base_bit"
  "Ch (CHR 0x0A) \<notin> set fmt_dims" "Ch (CHR 0x0A) \<notin> set base_total" "Ch (CHR 0x0A) \<notin> set base_bit"
  "length fmt_dims = 15" "length base_total = 11" "length base_bit = 12"
  by code_simp+

lemma fits_dims: "fits fmt_dims [a, b] \<longleftrightarrow> 0 \<le> a \<and> a < 2 ^ 64 \<and> 0 \<le> b \<and> b < 2 ^ 64"
proof -
  have e: "fmt_dims = map Ch ''depth '' @ UNum # map Ch '' width '' @ [UNum]" by code_simp
  show ?thesis by (simp add: e)
qed

lemma fits_base:
  "fits base_total [a, b, c] \<longleftrightarrow> (\<forall>k \<in> {a, b, c}. - (2 ^ 63) \<le> k \<and> k < 2 ^ 63)"
  "fits base_bit [a, b, c] \<longleftrightarrow> (\<forall>k \<in> {a, b, c}. - (2 ^ 63) \<le> k \<and> k < 2 ^ 63)"
proof -
  have e: "base_total = [DNum, Ch (CHR '' '')] @ DNum # map Ch '' total '' @ [DNum]"
    "base_bit = Ch (CHR 0x09) # map Ch ''bit '' @ DNum # map Ch '': '' @ DNum # map Ch '', '' @ [DNum]"
    by code_simp+
  show "fits base_total [a, b, c] \<longleftrightarrow> (\<forall>k \<in> {a, b, c}. - (2 ^ 63) \<le> k \<and> k < 2 ^ 63)"
    "fits base_bit [a, b, c] \<longleftrightarrow> (\<forall>k \<in> {a, b, c}. - (2 ^ 63) \<le> k \<and> k < 2 ^ 63)"
    by (auto simp: e)
qed

section \<open>A printed sketch reads back\<close>

definition total_ints :: "skl_t \<Rightarrow> nat \<Rightarrow> int list" where
  "total_ints s i = [int (i div width s), int (i mod width s), sint (counts s ! i ! 0)]"

definition bit_ints :: "skl_t \<Rightarrow> nat \<Rightarrow> nat \<Rightarrow> int list" where
  "bit_ints s i j = [int j, sint (counts s ! i ! j), sint (counts s ! i ! (j + lgn s))]"

definition bucket_lines :: "skl_t \<Rightarrow> nat \<Rightarrow> string list" where
  "bucket_lines s i = printf base_total (map IntArg (total_ints s i)) #
     map (\<lambda>j. printf base_bit (map IntArg (bit_ints s i j))) [1..<1 + lgn s]"

definition small_sketch :: "skl_t \<Rightarrow> bool" where
  "small_sketch s \<longleftrightarrow> skl_ok s \<and> sk_size s < 2 ^ 31"

lemma small_sketch_bounds:
  assumes "small_sketch s" "i < sk_size s"
  shows "i < 2 ^ 31" "i div width s < 2 ^ 31" "i mod width s < 2 ^ 31" "lgn s \<le> 104" "0 < width s"
proof -
  show "i < 2 ^ 31" "lgn s \<le> 104" "0 < width s" using assms by (auto simp: small_sketch_def skl_ok_def)
  have "i div width s \<le> i" "i mod width s \<le> i" by simp_all
  then show "i div width s < 2 ^ 31" "i mod width s < 2 ^ 31" using \<open>i < 2 ^ 31\<close> by linarith+
qed

lemma bucket_ints_fit:
  assumes "small_sketch s" "i < sk_size s"
  shows "fits base_total (total_ints s i)" "\<forall>k \<in> set (total_ints s i). \<bar>k\<bar> < 10 ^ 10"
    and "j \<le> lgn s \<Longrightarrow> fits base_bit (bit_ints s i j)" "j \<le> lgn s \<Longrightarrow> \<forall>k \<in> set (bit_ints s i j). \<bar>k\<bar> < 10 ^ 10"
proof -
  note b = small_sketch_bounds [OF assms]
  have v: "- (2 ^ 31) \<le> sint (x :: i32)" "sint (x :: i32) < 2 ^ 31" for x using sint_i32_range [of x] by simp_all
  have w: "\<bar>sint (x :: i32)\<bar> < 10 ^ 10" "- (2 ^ 63) \<le> sint x \<and> sint x < 2 ^ 63" for x
    using v [of x] by (simp_all add: abs_less_iff)
  have n: "int k < 2 ^ 63 \<and> - (2 ^ 63) \<le> int k \<and> \<bar>int k\<bar> < 10 ^ 10" if "k < 2 ^ 31" for k
    using that by simp
  show "fits base_total (total_ints s i)" "\<forall>k \<in> set (total_ints s i). \<bar>k\<bar> < 10 ^ 10"
    using n [OF b(2)] n [OF b(3)] w by (simp_all add: total_ints_def fits_base)
  show "fits base_bit (bit_ints s i j)" "\<forall>k \<in> set (bit_ints s i j). \<bar>k\<bar> < 10 ^ 10" if "j \<le> lgn s"
    using n [of j] b(4) that w by (simp_all add: bit_ints_def fits_base)
qed

lemma print_bucket_lines:
  assumes "small_sketch s" "i < sk_size s"
  shows "print_bucket s i = concat (map (\<lambda>l. l @ [CHR 0x0A]) (bucket_lines s i))"
proof -
  have "printf fmt_bit (map IntArg (bit_ints s i j)) = printf base_bit (map IntArg (bit_ints s i j)) @ [CHR 0x0A]"
    if "j \<in> set [1..<1 + lgn s]" for j
    unfolding fmt_eqs(2) by (rule printf_snoc_Ch [OF bucket_ints_fit(3) [OF assms]]) (use that in auto)
  then have "map (\<lambda>j. printf fmt_bit (map IntArg (bit_ints s i j))) [1..<1 + lgn s] =
      map (\<lambda>l. l @ [CHR 0x0A]) (map (\<lambda>j. printf base_bit (map IntArg (bit_ints s i j))) [1..<1 + lgn s])"
    unfolding map_map comp_def by (rule map_cong [OF refl])
  moreover have "printf fmt_total (map IntArg (total_ints s i)) =
      printf base_total (map IntArg (total_ints s i)) @ [CHR 0x0A]"
    unfolding fmt_eqs(1) by (rule printf_snoc_Ch [OF bucket_ints_fit(1) [OF assms]])
  ultimately show ?thesis
    unfolding print_bucket_def bucket_lines_def list.map(2) concat.simps(2)
    by (simp only: total_ints_def bit_ints_def list.map)
qed

lemma concat_concat_map: "concat (concat xss) = concat (map concat xss)"
  by (induction xss) auto

definition dims_line :: "skl_t \<Rightarrow> string" where
  "dims_line s = printf fmt_dims (map IntArg [int (depth s), int (width s)])"

lemma depth_bound: "small_sketch s \<Longrightarrow> depth s < 2 ^ 31 \<and> width s < 2 ^ 31"
proof -
  assume s: "small_sketch s"
  then have w: "1 \<le> width s" "width s * depth s < 2 ^ 31" "width s < 2 ^ 31"
    by (auto simp: small_sketch_def skl_ok_def)
  have "1 * depth s \<le> width s * depth s" using w(1) by (rule mult_le_mono1)
  then show ?thesis using w by linarith
qed

lemma dims_fit: "small_sketch s \<Longrightarrow> fits fmt_dims [int (depth s), int (width s)]"
  using depth_bound [of s] by (simp add: fits_dims)

lemma lines_SKL_Print:
  assumes "small_sketch s"
  shows "lines_100 (SKL_Print s) =
    map (\<lambda>l. l @ [CHR 0x0A]) (dims_line s # concat (map (bucket_lines s) [0..<sk_size s]))"
proof -
  let ?nl = "\<lambda>l. l @ [CHR 0x0A]"
  have m: "map (print_bucket s) [0..<sk_size s] = map (\<lambda>i. concat (map ?nl (bucket_lines s i))) [0..<sk_size s]"
    using print_bucket_lines [OF assms] by (intro map_cong) auto
  have p: "SKL_Print s = concat (map ?nl (dims_line s # concat (map (bucket_lines s) [0..<sk_size s]))) @ []"
    using printf_snoc_Ch [OF dims_fit [OF assms], of "CHR 0x0A"]
    unfolding SKL_Print_def m by (simp add: dims_line_def map_concat comp_def concat_concat_map)
  have l: "CHR 0x0A \<notin> set l \<and> length l < 99"
    if "l \<in> set (dims_line s # concat (map (bucket_lines s) [0..<sk_size s]))" for l
  proof -
    note mem = that
    consider "l = dims_line s" | i where "i < sk_size s" "l \<in> set (bucket_lines s i)" using mem by auto
    then show ?thesis
    proof cases
      case 1
      then show ?thesis
        using printed_line [OF dims_fit [OF assms] fmt_eqs(6)] depth_bound [OF assms]
        by (simp add: dims_line_def fmt_eqs)
    next
      case 2
      note f = bucket_ints_fit [OF assms 2(1)]
      from 2(2) consider "l = printf base_total (map IntArg (total_ints s i))"
        | j where "j \<le> lgn s" "l = printf base_bit (map IntArg (bit_ints s i j))"
        by (fastforce simp: bucket_lines_def less_Suc_eq_le simp del: upt_Suc)
      then show ?thesis
        using printed_line [OF f(1) fmt_eqs(7) f(2)] printed_line [OF f(3) fmt_eqs(8) f(4)]
        by cases (auto simp: fmt_eqs total_ints_def bit_ints_def)
    qed
  qed
  have "lines_100 (concat (map ?nl (dims_line s # concat (map (bucket_lines s) [0..<sk_size s]))) @ []) =
      map ?nl (dims_line s # concat (map (bucket_lines s) [0..<sk_size s])) @ lines_100 []"
    by (rule lines_100_concat) (use l in blast)
  then show ?thesis unfolding p by simp
qed

lemma read_body_append:
  "read_body row_of junk (xs @ ys) st = rbind (read_body row_of junk xs st) (read_body row_of junk ys)"
proof (induction xs arbitrary: st)
  case (Cons x xs)
  show ?case
    using Cons.IH by (cases "if x \<noteq> [] \<and> is_digit (hd x) then read_total row_of junk x st else read_bit junk x st") simp_all
qed simp

lemma counter_index_eq:
  assumes "r < 2 ^ 31" "c < 2 ^ 31" "r * width skl + c < 2 ^ 64"
  shows "unat (counter_index skl (of_nat r) (of_nat c)) = r * width skl + c"
proof -
  have s: "scast (of_nat k :: i32) = (of_nat k :: u64)" if "k < 2 ^ 31" for k
    unfolding scast_eq sint_of_nat_i32 [OF that] by simp
  have "counter_index skl (of_nat r) (of_nat c) = of_nat (r * width skl + c)"
    using assms by (simp add: counter_index_def s)
  moreover have "unat (of_nat (r * width skl + c) :: u64) = r * width skl + c"
    unfolding unat_of_nat using assms(3) by simp
  ultimately show ?thesis by metis
qed

text \<open>The row after the total and the first \<open>m\<close> bit lines.\<close>

definition row_upto :: "nat \<Rightarrow> i32 list \<Rightarrow> i32 list \<Rightarrow> nat \<Rightarrow> i32 list" where
  "row_upto n srow trow m = map (\<lambda>q. if q \<le> m \<or> n < q \<and> q \<le> n + m then srow ! q else trow ! q) [0..<1 + n * 2]"

definition bits_ok :: "skl_t \<Rightarrow> nat \<Rightarrow> nat \<Rightarrow> bool" where
  "bits_ok s i m \<longleftrightarrow> (\<forall>j. 1 \<le> j \<and> j \<le> m \<longrightarrow> counts s ! i ! 0 = counts s ! i ! j + counts s ! i ! (j + lgn s))"

lemma bits_ok_simps:
  "bits_ok s i 0"
  "bits_ok s i (Suc m) \<longleftrightarrow> bits_ok s i m \<and> counts s ! i ! 0 = counts s ! i ! Suc m + counts s ! i ! (Suc m + lgn s)"
  by (auto simp: bits_ok_def le_Suc_eq)

lemma row_upto_step:
  assumes "length srow = 1 + n * 2" "length trow = 1 + n * 2" "m < n"
  shows "(row_upto n srow trow m)[Suc m := srow ! Suc m, Suc m + n := srow ! (Suc m + n)] =
    row_upto n srow trow (Suc m)"
proof (rule nth_equalityI)
  fix q assume "q < length ((row_upto n srow trow m)[Suc m := srow ! Suc m, Suc m + n := srow ! (Suc m + n)])"
  then have q: "q < 1 + n * 2" by (simp add: row_upto_def)
  consider "q = Suc m" | "q = Suc m + n" | "q \<noteq> Suc m" "q \<noteq> Suc m + n" by blast
  then show "(row_upto n srow trow m)[Suc m := srow ! Suc m, Suc m + n := srow ! (Suc m + n)] ! q =
      row_upto n srow trow (Suc m) ! q"
    using q assms by cases (auto simp: row_upto_def nth_list_update simp del: upt_Suc)
qed (simp add: row_upto_def)

lemma row_upto_full: "length srow = 1 + n * 2 \<Longrightarrow> row_upto n srow trow n = srow"
  by (rule nth_equalityI) (auto simp: row_upto_def simp del: upt_Suc)

lemma scan_lines:
  assumes "small_sketch s" "i < sk_size s"
  shows "sscanf fmt_total (printf base_total (map IntArg (total_ints s i)) @ [CHR 0x0A]) = total_ints s i"
    and "j \<le> lgn s \<Longrightarrow> sscanf fmt_bit (printf base_bit (map IntArg (bit_ints s i j)) @ [CHR 0x0A]) = bit_ints s i j"
    and "is_digit (hd (printf base_total (map IntArg (total_ints s i)) @ [CHR 0x0A]))"
    and "\<not> is_digit (hd (printf base_bit (map IntArg (bit_ints s i j)) @ [CHR 0x0A]))"
proof -
  note f = bucket_ints_fit [OF assms]
  have e: "ends_number [CHR 0x0A]" by code_simp
  show "sscanf fmt_total (printf base_total (map IntArg (total_ints s i)) @ [CHR 0x0A]) = total_ints s i"
    unfolding fmt_eqs(1) sscanf_snoc_Ch by (rule sscanf_printf [OF fmt_eqs(4) f(1) e])
  show "j \<le> lgn s \<Longrightarrow> sscanf fmt_bit (printf base_bit (map IntArg (bit_ints s i j)) @ [CHR 0x0A]) = bit_ints s i j"
    unfolding fmt_eqs(2) sscanf_snoc_Ch by (rule sscanf_printf [OF fmt_eqs(5) f(3) e])
  have b: "base_total = DNum # tl base_total" "base_bit = Ch (CHR 0x09) # tl base_bit" by code_simp+
  obtain c ds where "show_nat (i div width s) = c # ds" "is_digit c" by (rule show_nat_Cons)
  then show "is_digit (hd (printf base_total (map IntArg (total_ints s i)) @ [CHR 0x0A]))"
    by (subst b(1)) (simp add: total_ints_def show_int_def)
  show "\<not> is_digit (hd (printf base_bit (map IntArg (bit_ints s i j)) @ [CHR 0x0A]))"
    by (subst b(2)) (simp add: is_digit_def)
qed

text \<open>One line of a bit: the two counters are stored, and compared with the total of the bucket.\<close>

lemma read_bit_line:
  assumes s: "small_sketch s" "i < sk_size s" and m: "Suc m \<le> lgn s"
    and st: "rd_row st = of_nat (i div width s)" "rd_col st = of_nat (i mod width s)"
    and t: "width (rd_skl st) = width s" "lgn (rd_skl st) = lgn s" "length (counts (rd_skl st)) = sk_size s"
    and l: "length trow = 1 + lgn s * 2"
  defines "st' \<equiv> \<lambda>m. st\<lparr>rd_skl := (rd_skl st)\<lparr>counts :=
    (counts (rd_skl st))[i := row_upto (lgn s) (counts s ! i) trow m]\<rparr>\<rparr>"
  shows "read_bit junk (printf base_bit (map IntArg (bit_ints s i (Suc m))) @ [CHR 0x0A]) (st' m) =
    (if counts s ! i ! 0 = counts s ! i ! Suc m + counts s ! i ! (Suc m + lgn s)
     then Inr (st' (Suc m)) else Inl ExitError)"
proof -
  note b = small_sketch_bounds [OF s]
  let ?row = "row_upto (lgn s) (counts s ! i) trow"
  let ?u = "\<lambda>r. (rd_skl st)\<lparr>counts := (counts (rd_skl st))[i := r]\<rparr>"
  let ?idx = "\<lambda>r. counter_index (?u r) (of_nat (i div width s)) (of_nat (i mod width s))"
  have srow: "length (counts s ! i) = 1 + lgn s * 2"
    using s rows_length by (simp add: small_sketch_def)
  have lr: "length (?row k) = 1 + lgn s * 2" for k by (simp add: row_upto_def)
  have idx: "unat (?idx r) = i" for r
    using counter_index_eq [of "i div width s" "i mod width s" "?u r"] b t(1) by simp
  have vs: "scanned (bit_ints s i (Suc m)) 0 junk = of_nat (Suc m)"
    "scanned (bit_ints s i (Suc m)) 1 junk = counts s ! i ! Suc m"
    "scanned (bit_ints s i (Suc m)) 2 junk = counts s ! i ! (Suc m + lgn s)"
    by (simp_all add: bit_ints_def scanned_def)
  have sm: "sint (of_nat (Suc m) :: i32) = int (Suc m)"
    using sint_of_nat_i32 [of "Suc m"] m b(4) by simp
  have put: "put_counter (?idx (?row m)) (int k) v (?u r) = Inr (?u (r[k := v]))"
    if "length r = 1 + lgn s * 2" "k < 1 + lgn s * 2" for r k v
    using s(2) t(3) that by (simp add: put_counter_def idx)
  have c: "counts (?u (?row m)) ! i = ?row m" using s(2) t(3) by simp
  have r0: "?row m ! 0 = counts s ! i ! 0" by (simp add: row_upto_def del: upt_Suc)
  have ne: "?row m \<noteq> []" using lr [of m] by auto
  show ?thesis
    unfolding read_bit_def scan_lines(2) [OF s m] vs Let_def st'_def
    using s(2) t idx c r0 lr [of m] put [of "?row m" "Suc m"]
      put [of "(?row m)[Suc m := counts s ! i ! Suc m]" "Suc m + lgn s", unfolded of_nat_add] sm ne
      row_upto_step [OF srow l, of m] m st
    by (simp del: of_nat_Suc)
qed

lemma read_bucket_bits:
  assumes s: "small_sketch s" "i < sk_size s" and "m \<le> lgn s"
    and st: "rd_row st = of_nat (i div width s)" "rd_col st = of_nat (i mod width s)"
    and t: "width (rd_skl st) = width s" "lgn (rd_skl st) = lgn s" "length (counts (rd_skl st)) = sk_size s"
    and l: "length trow = 1 + lgn s * 2" "counts (rd_skl st) ! i = row_upto (lgn s) (counts s ! i) trow 0"
  shows "read_body row_of junk (map (\<lambda>j. printf base_bit (map IntArg (bit_ints s i j)) @ [CHR 0x0A]) [1..<1 + m]) st =
    (if bits_ok s i m
     then Inr (st\<lparr>rd_skl := (rd_skl st)\<lparr>counts := (counts (rd_skl st))[i := row_upto (lgn s) (counts s ! i) trow m]\<rparr>\<rparr>)
     else Inl ExitError)"
  using assms(3)
proof (induction m)
  case 0
  have "(counts (rd_skl st))[i := row_upto (lgn s) (counts s ! i) trow 0] = counts (rd_skl st)"
    unfolding l(2) [symmetric] by simp
  then show ?case by (simp add: bits_ok_simps)
next
  case (Suc m)
  then show ?case
    using read_bit_line [OF s Suc.prems st t l(1)] scan_lines(4) [OF s, of "Suc m"]
    by (simp add: read_body_append bits_ok_simps del: of_nat_Suc)
qed

lemma read_bucket:
  assumes s: "small_sketch s" "i < sk_size s"
    and t: "width (rd_skl st) = width s" "lgn (rd_skl st) = lgn s" "length (counts (rd_skl st)) = sk_size s"
    and l: "length (counts (rd_skl st) ! i) = 1 + lgn s * 2"
  shows "if bits_ok s i (lgn s)
    then \<exists>st'. read_body (\<lambda>r. r) junk (map (\<lambda>l. l @ [CHR 0x0A]) (bucket_lines s i)) st = Inr st' \<and>
      rd_skl st' = (rd_skl st)\<lparr>counts := (counts (rd_skl st))[i := counts s ! i]\<rparr>
    else read_body (\<lambda>r. r) junk (map (\<lambda>l. l @ [CHR 0x0A]) (bucket_lines s i)) st = Inl ExitError"
proof -
  note b = small_sketch_bounds [OF s]
  have srow: "length (counts s ! i) = 1 + lgn s * 2"
    using s rows_length by (simp add: small_sketch_def)
  define trow where "trow = (counts (rd_skl st) ! i)[0 := counts s ! i ! 0]"
  define st1 where "st1 = st\<lparr>rd_row := of_nat (i div width s), rd_col := of_nat (i mod width s),
    rd_skl := (rd_skl st)\<lparr>counts := (counts (rd_skl st))[i := trow]\<rparr>\<rparr>"
  have idx: "unat (counter_index (rd_skl st) (of_nat (i div width s)) (of_nat (i mod width s))) = i"
    using counter_index_eq [of "i div width s" "i mod width s" "rd_skl st"] b t(1) by simp
  have vs: "scanned (total_ints s i) 0 r = of_nat (i div width s)" "scanned (total_ints s i) (Suc 0) r = of_nat (i mod width s)"
    "scanned (total_ints s i) 2 r = counts s ! i ! 0" for r
    by (simp_all add: total_ints_def scanned_def)
  have ne: "counts (rd_skl st) ! i \<noteq> []" using l by auto
  have "read_total (\<lambda>r. r) junk (printf base_total (map IntArg (total_ints s i)) @ [CHR 0x0A]) st = Inr st1"
    unfolding read_total_def scan_lines(1) [OF s] Let_def
    using s(2) t(3) ne by (simp add: vs put_counter_def idx trow_def st1_def)
  moreover have "trow = row_upto (lgn s) (counts s ! i) trow 0"
    using l by (intro nth_equalityI) (auto simp: trow_def row_upto_def nth_list_update simp del: upt_Suc)
  then have "read_body (\<lambda>r. r) junk (map (\<lambda>j. printf base_bit (map IntArg (bit_ints s i j)) @ [CHR 0x0A])
      [1..<1 + lgn s]) st1 = (if bits_ok s i (lgn s) then Inr (st1\<lparr>rd_skl := (rd_skl st1)\<lparr>counts := (counts (rd_skl st1))
        [i := row_upto (lgn s) (counts s ! i) trow (lgn s)]\<rparr>\<rparr>) else Inl ExitError)"
    using s t l by (intro read_bucket_bits) (auto simp: st1_def trow_def)
  moreover note scan_lines(3) [OF s]
  ultimately show ?thesis
    using row_upto_full [OF srow]
    by (simp add: bucket_lines_def comp_def st1_def del: upt_Suc)
qed

lemma read_buckets:
  assumes s: "small_sketch s" "n \<le> sk_size s"
    and t: "width (rd_skl st) = width s" "lgn (rd_skl st) = lgn s" "length (counts (rd_skl st)) = sk_size s"
    and l: "\<forall>i < sk_size s. length (counts (rd_skl st) ! i) = 1 + lgn s * 2"
  shows "if \<forall>i < n. bits_ok s i (lgn s)
    then \<exists>st'. read_body (\<lambda>r. r) junk (map (\<lambda>l. l @ [CHR 0x0A]) (concat (map (bucket_lines s) [0..<n]))) st = Inr st' \<and>
      rd_skl st' = (rd_skl st)\<lparr>counts := take n (counts s) @ drop n (counts (rd_skl st))\<rparr>
    else read_body (\<lambda>r. r) junk (map (\<lambda>l. l @ [CHR 0x0A]) (concat (map (bucket_lines s) [0..<n]))) st = Inl ExitError"
  using s(2)
proof (induction n)
  case (Suc n)
  let ?cs = "\<lambda>n. take n (counts s) @ drop n (counts (rd_skl st))"
  show ?case
  proof (cases "\<forall>i < n. bits_ok s i (lgn s)")
    case False
    then have "\<not> (\<forall>i < Suc n. bits_ok s i (lgn s))" by (auto simp: less_Suc_eq)
    then show ?thesis using Suc False by (simp add: read_body_append)
  next
    case True
    then obtain st1 where st1: "read_body (\<lambda>r. r) junk
        (map (\<lambda>l. l @ [CHR 0x0A]) (concat (map (bucket_lines s) [0..<n]))) st = Inr st1"
      "rd_skl st1 = (rd_skl st)\<lparr>counts := ?cs n\<rparr>" using Suc by auto
    have ls: "length (counts s) = sk_size s" using s(1) by (simp add: small_sketch_def skl_ok_def)
    have "?cs n ! n = counts (rd_skl st) ! n" using Suc.prems ls t(3) by (simp add: nth_append)
    then have "if bits_ok s n (lgn s)
      then \<exists>st2. read_body (\<lambda>r. r) junk (map (\<lambda>l. l @ [CHR 0x0A]) (bucket_lines s n)) st1 = Inr st2 \<and>
        rd_skl st2 = (rd_skl st1)\<lparr>counts := (counts (rd_skl st1))[n := counts s ! n]\<rparr>
      else read_body (\<lambda>r. r) junk (map (\<lambda>l. l @ [CHR 0x0A]) (bucket_lines s n)) st1 = Inl ExitError"
      using Suc.prems t l ls by (intro read_bucket [OF s(1)]) (simp_all add: st1(2))
    moreover have "(?cs n)[n := counts s ! n] = ?cs (Suc n)"
    proof -
      have "drop n (counts (rd_skl st)) = counts (rd_skl st) ! n # drop (Suc n) (counts (rd_skl st))"
        using Suc.prems t(3) by (simp add: Cons_nth_drop_Suc)
      then show ?thesis
        using Suc.prems ls by (simp add: list_update_append take_Suc_conv_app_nth)
    qed
    ultimately show ?thesis using st1 True by (auto simp: read_body_append less_Suc_eq)
  qed
qed simp

lemma SKL_Print_ReadFile_gen:
  assumes "skl_ok s" "sk_size s < 2 ^ 31" "same_shape t s"
  shows "SKL_ReadFile junk64 junk (Some (SKL_Print s)) t =
    (if \<forall>i < sk_size s. bits_ok s i (lgn s) then Inr (t\<lparr>counts := counts s\<rparr>) else Inl ExitError)"
proof -
  have s: "small_sketch s" using assms(1,2) by (simp add: small_sketch_def)
  have t: "width t = width s" "lgn t = lgn s" "length (counts t) = sk_size s" "depth t = depth s" "skl_ok t"
    using assms(3) same_shape_size [OF assms(3)] by (auto simp: same_shape_def skl_ok_def)
  have ls: "length (counts s) = sk_size s" using counts_length [OF assms(1)] .
  have e: "ends_number [CHR 0x0A]" by code_simp
  have d: "sscanf fmt_dims (dims_line s @ [CHR 0x0A]) = [int (depth s), int (width s)]"
    unfolding dims_line_def by (rule sscanf_printf [OF fmt_eqs(3) dims_fit [OF s] e])
  let ?st = "\<lparr>rd_row = junk, rd_col = junk, rd_skl = t\<rparr>"
  have "if \<forall>i < sk_size s. bits_ok s i (lgn s)
    then \<exists>st'. read_body (\<lambda>r. r) junk (map (\<lambda>l. l @ [CHR 0x0A]) (concat (map (bucket_lines s) [0..<sk_size s]))) ?st = Inr st' \<and>
      rd_skl st' = t\<lparr>counts := counts s\<rparr>
    else read_body (\<lambda>r. r) junk (map (\<lambda>l. l @ [CHR 0x0A]) (concat (map (bucket_lines s) [0..<sk_size s]))) ?st = Inl ExitError"
    using read_buckets [OF s order_refl, of ?st junk]
      t ls rows_length [OF t(5)] same_shape_size [OF assms(3)]
    by (cases "\<forall>i < sk_size s. bits_ok s i (lgn s)") simp_all
  then show ?thesis
    using t d by (auto simp: SKL_ReadFile_def lines_SKL_Print [OF s] read_sketch_def scanned_def)
qed

text \<open>C24: A printed sketch reads back exactly when it was completed: the counters of a sketch of the
  same dimensions become those of the printed one. If some bit's two counters do not add up to
  the total of its bucket, the reader ends the process.\<close>

theorem SKL_Print_ReadFile:
  assumes "skl_ok s" "sk_size s < 2 ^ 31" "same_shape t s"
  shows "SKL_ReadFile junk64 junk (Some (SKL_Print s)) t =
    (if \<forall>i < sk_size s. bits_ok s i (lgn s) then Inr (t\<lparr>counts := counts s\<rparr>) else Inl ExitError)"
  by (rule SKL_Print_ReadFile_gen [OF assms])

lemma SKL_Print_ReadFile_witness:
  "SKL_ReadFile 0 0 (Some (SKL_Print demo_sketch)) (SKL_Update demo_sketch [5] 3) =
     Inr ((SKL_Update demo_sketch [5] 3)\<lparr>counts := counts demo_sketch\<rparr>)"
proof -
  let ?t = "SKL_Update demo_sketch [5] 3"
  have k: "same_shape ?t demo_sketch" "sk_size demo_sketch < 2 ^ 31" "\<forall>i < sk_size demo_sketch. bits_ok demo_sketch i (lgn demo_sketch)"
    using skl_ok_Update [OF demo_sketch_ok(1), of "[5]" 3] demo_sketch_ok(3)
    by (simp_all add: same_shape_def demo_sketch_def bits_ok_def nth_replicate del: replicate_Suc)
  then show ?thesis using SKL_Print_ReadFile [OF demo_sketch_ok(1) k(2,1), of 0 0] by simp
qed

end
