(* ===== verification/Interval_Sketch.thy ===== *)
theory Interval_Sketch
  imports Sketch_Text Tuple
begin

text \<open>
  The sketch of the records of one interval, as the data plane writes it, the controller reads it
  and takes flows out of it: the completed sketch of a stream, up to the two arrays of bit
  statistics that completion fills and every reader computes anew. The lemmas say that reset gives
  the fresh sketch again, that writing and reading keep the counters, and that updating a
  completed sketch and completing it again is the same as completing once at the end.
\<close>

section \<open>Sketches up to their statistics\<close>

text \<open>
  Statistics of the bits do not influence the counters: the sketch of the worker is the one of the
  records of the current interval, up to the two arrays that completion fills.
\<close>

definition key_stream :: "tuple_t list \<Rightarrow> (byte list \<times> i32) list" where
  "key_stream ts = map (\<lambda>t. (key_bytes (tkey t), tsize t)) ts"

definition with_stats :: "dbl list \<Rightarrow> dbl list \<Rightarrow> skl_t \<Rightarrow> skl_t" where
  "with_stats m d s = s\<lparr>bit_mean := m, bit_std := d\<rparr>"

lemma with_stats_simps [simp]:
  "depth (with_stats m d s) = depth s" "width (with_stats m d s) = width s" "lgn (with_stats m d s) = lgn s"
  "sk_size (with_stats m d s) = sk_size s" "counts (with_stats m d s) = counts s"
  "bucket_of (with_stats m d s) = bucket_of s"
  "with_stats m d (with_stats m' d' s) = with_stats m d s"
  "upd_bucket (with_stats m d s) i k v = with_stats m d (upd_bucket s i k v)"
  by (simp_all add: with_stats_def bucket_of_def upd_bucket_def fun_eq_iff)

lemma with_stats_counts: "(with_stats m d s)\<lparr>counts := cs\<rparr> = with_stats m d (s\<lparr>counts := cs\<rparr>)"
  by (simp add: with_stats_def)

lemma SKL_Update_stats: "SKL_Update (with_stats m d s) k v = with_stats m d (SKL_Update s k v)"
proof -
  have "for_upto n (\<lambda>i s'. upd_bucket s' (i * width s + bucket_of s i k) k v) (with_stats m d s) =
      with_stats m d (for_upto n (\<lambda>i s'. upd_bucket s' (i * width s + bucket_of s i k) k v) s)" for n
    by (induction n) simp_all
  then show ?thesis by (simp add: SKL_Update_def)
qed

lemma run_sketch_stats: "run_sketch SKL_Update kvs (with_stats m d s) = with_stats m d (run_sketch SKL_Update kvs s)"
  by (induction kvs arbitrary: s) (simp_all add: SKL_Update_stats)

lemma SKL_Print_stats [simp]: "SKL_Print (with_stats m d s) = SKL_Print s"
  by (simp add: SKL_Print_def print_bucket_def [abs_def])

lemma skl_ok_stats: "skl_ok s \<Longrightarrow> length m = 104 \<Longrightarrow> length d = 104 \<Longrightarrow> skl_ok (with_stats m d s)"
  by (simp add: skl_ok_def with_stats_def)

text \<open>The sketch written for a group of records.\<close>

definition group_sketch :: "skl_t \<Rightarrow> tuple_t list \<Rightarrow> skl_t" where
  "group_sketch s g = complete_counts (run_sketch SKL_Update (key_stream g) s)"

lemma run_ok:
  assumes "skl_ok s"
  shows "same_sketch (run_sketch SKL_Update kvs s) s"
  using skl_merge.same_run [OF assms assms, of kvs "[]"] assms by (simp add: same_sketch_def)

lemma complete_stats:
  assumes "skl_ok s" "skl_ok (with_stats m d s)"
  shows "complete_counts (with_stats m d s) = with_stats m d (complete_counts s)"
  by (simp add: complete_counts_eq [OF assms(1)] complete_counts_eq [OF assms(2)] with_stats_counts)

lemma same_complete: "skl_ok s \<Longrightarrow> same_sketch (complete_counts s) s"
  using complete_row_cells(1) unfolding same_sketch_def skl_ok_def by (auto simp: complete_counts_eq skl_ok_def)

lemma complete_group:
  assumes "skl_ok s" "length m = 104" "length d = 104" "depth s * width s \<noteq> 1"
  shows "\<exists>m' d'. SKL_CompleteZeroes (with_stats m d (run_sketch SKL_Update (key_stream g) s)) =
      Inr (with_stats m' d' (group_sketch s g)) \<and> length m' = 104 \<and> length d' = 104"
proof -
  let ?r = "run_sketch SKL_Update (key_stream g) s"
  have r: "skl_ok ?r" "same_sketch ?r s" using run_ok [OF assms(1)] by (auto simp: same_sketch_def)
  have c: "complete_counts (with_stats m d ?r) = with_stats m d (group_sketch s g)"
    using complete_stats [OF r(1) skl_ok_stats [OF r(1) assms(2,3)]] by (simp add: group_sketch_def)
  have g: "skl_ok (group_sketch s g)" "same_sketch (group_sketch s g) ?r"
    using same_complete [OF r(1)] by (auto simp: group_sketch_def same_sketch_def)
  then have n: "lgn (group_sketch s g) \<le> 104" "depth (group_sketch s g) * width (group_sketch s g) \<noteq> 1"
    using r(2) assms(4) by (auto simp: same_sketch_def skl_ok_def)
  then obtain u where u: "compute_bit_dists (with_stats m d (group_sketch s g)) = Inr u"
    using compute_bit_dists_total [of "with_stats m d (group_sketch s g)"] by auto
  have "same_sketch u (with_stats m d (group_sketch s g))"
    by (rule compute_bit_dists_ok [OF u skl_ok_stats [OF g(1) assms(2,3)]])
  then have "length (bit_mean u) = 104" "length (bit_std u) = 104" by (simp_all add: same_sketch_def skl_ok_def)
  moreover obtain m' d' where "u = with_stats m' d' (group_sketch s g)"
    using u by (auto simp: compute_bit_dists_def Let_def with_stats_def split: if_splits)
  ultimately show ?thesis using u unfolding SKL_CompleteZeroes_def c
    by (intro exI [of _ m'] exI [of _ d']) (simp add: with_stats_def)
qed

text \<open>Reset gives the fresh sketch again.\<close>

lemma fresh_counts:
  assumes "fresh_sketch s"
  shows "counts s = replicate (sk_size s) (replicate (1 + lgn s * 2) 0)"
proof (rule nth_equalityI)
  note ok = fresh_sketch_ok [OF assms]
  show "length (counts s) = length (replicate (sk_size s) (replicate (1 + lgn s * 2) (0 :: i32)))"
    using counts_length [OF ok] by simp
  fix i assume "i < length (counts s)"
  then have i: "i < sk_size s" using counts_length [OF ok] by simp
  show "counts s ! i = replicate (sk_size s) (replicate (1 + lgn s * 2) 0) ! i"
  proof (rule nth_equalityI)
    fix p assume "p < length (counts s ! i)"
    then have "p \<le> lgn s * 2" using rows_length [OF ok i] by simp
    then have "cell s (i, p) = 0" using i by (intro fresh_sketch_cell [OF assms]) (simp add: cell_valid_def)
    then show "counts s ! i ! p = replicate (sk_size s) (replicate (1 + lgn s * 2) 0) ! i ! p"
      using i \<open>p \<le> lgn s * 2\<close> by (simp add: cell_def del: replicate_Suc)
  qed (use i rows_length [OF ok i] in simp)
qed

lemma reset_group:
  assumes "fresh_sketch s" "same_sketch r s" "length m = 104" "length d = 104"
  shows "SKL_Reset (with_stats m d r) = with_stats m d s"
proof -
  have "skl_ok r" "sk_size r = sk_size s" using assms(2) by (auto simp: same_sketch_def skl_ok_def)
  then have "SKL_Reset (with_stats m d r) = with_stats m d (r\<lparr>counts := counts s\<rparr>)"
    using assms(2) fresh_counts [OF assms(1)] SKL_Reset_counts [OF skl_ok_stats [OF _ assms(3,4)]]
    by (simp add: with_stats_counts same_sketch_def)
  moreover have "with_stats m d (r\<lparr>counts := counts s\<rparr>) = with_stats m d s"
    using assms(2) \<open>sk_size r = sk_size s\<close> by (cases r; cases s) (simp add: with_stats_def same_sketch_def)
  ultimately show ?thesis by simp
qed

section \<open>Completing again\<close>

text \<open>Two sketches that agree on all counters but those completion writes.\<close>

definition low_eq :: "skl_t \<Rightarrow> skl_t \<Rightarrow> bool" where
  "low_eq s t \<longleftrightarrow> same_sketch s t \<and> bit_mean s = bit_mean t \<and> bit_std s = bit_std t \<and>
     (\<forall>i p. i < sk_size s \<and> p \<le> lgn s \<longrightarrow> counts s ! i ! p = counts t ! i ! p)"

lemma SKL_Update_stats_eq: "bit_mean (SKL_Update s k v) = bit_mean s" "bit_std (SKL_Update s k v) = bit_std s"
  by (simp_all add: SKL_Update_rows)

lemma low_eq_Update:
  assumes "low_eq s t"
  shows "low_eq (SKL_Update s k v) (SKL_Update t k v)"
proof -
  have ss: "same_sketch s t" and ok: "skl_ok s" "skl_ok t" using assms by (auto simp: low_eq_def same_sketch_def)
  have sel: "selects t = selects s" "cell_valid t = cell_valid s" using same_sketch_sel [OF ss] by auto
  have "counts (SKL_Update s k v) ! i ! p = counts (SKL_Update t k v) ! i ! p" if "i < sk_size s" "p \<le> lgn s" for i p
  proof -
    have v: "cell_valid s (i, p)" using that by (simp add: cell_valid_def)
    have "cell s (i, p) = cell t (i, p)" using assms that by (simp add: low_eq_def cell_def)
    then have "cell (SKL_Update s k v) (i, p) = cell (SKL_Update t k v) (i, p)"
      using skl.cell_upd [OF ok(1) v, of k v] skl.cell_upd [OF ok(2), of "(i, p)" k v] v sel by simp
    then show ?thesis by (simp add: cell_def)
  qed
  then show ?thesis using assms ok skl_ok_Update
    by (simp add: low_eq_def same_sketch_def SKL_Update_stats_eq)
qed

lemma low_eq_run: "low_eq s t \<Longrightarrow> low_eq (run_sketch SKL_Update kvs s) (run_sketch SKL_Update kvs t)"
  by (induction kvs arbitrary: s t) (simp_all add: low_eq_Update)

lemma low_eq_complete:
  assumes "low_eq s t"
  shows "complete_counts s = complete_counts t"
proof -
  have ok: "skl_ok s" "skl_ok t" and e: "sk_size s = sk_size t" "lgn s = lgn t"
    using assms by (auto simp: low_eq_def same_sketch_def skl_ok_def)
  have "complete_row (lgn t) (counts s ! i) = complete_row (lgn t) (counts t ! i)" if i: "i < sk_size t" for i
  proof (rule nth_equalityI)
    have l: "length (counts s ! i) = 1 + lgn t * 2" "length (counts t ! i) = 1 + lgn t * 2"
      using rows_length [OF ok(1)] rows_length [OF ok(2)] i e by auto
    note cs = complete_row_cells [OF l(1)] and ct = complete_row_cells [OF l(2)]
    show "length (complete_row (lgn t) (counts s ! i)) = length (complete_row (lgn t) (counts t ! i))"
      using cs ct by simp
    have lo: "counts s ! i ! p = counts t ! i ! p" if "p \<le> lgn t" for p
      using assms that i e by (simp add: low_eq_def)
    fix q assume q: "q < length (complete_row (lgn t) (counts s ! i))"
    show "complete_row (lgn t) (counts s ! i) ! q = complete_row (lgn t) (counts t ! i) ! q"
    proof (cases "q \<le> lgn t")
      case True
      then show ?thesis using cs ct lo by simp
    next
      case False
      define p where "p = q - 1 - lgn t"
      have p: "q = p + 1 + lgn t" "p < lgn t" using False q cs by (auto simp: p_def)
      show ?thesis unfolding p(1) using cs ct lo [of 0] lo [of "p + 1"] p(2) by simp
    qed
  qed
  then have "map (complete_row (lgn t)) (counts s) = map (complete_row (lgn t)) (counts t)"
    using counts_length [OF ok(1)] counts_length [OF ok(2)] e by (intro nth_equalityI) auto
  then show ?thesis using assms
    unfolding complete_counts_eq [OF ok(1)] complete_counts_eq [OF ok(2)]
    by (cases s; cases t) (simp add: low_eq_def same_sketch_def skl_ok_def)
qed

lemma low_eq_completed:
  assumes "skl_ok s"
  shows "low_eq (complete_counts s) s"
  using assms same_complete [OF assms] complete_row_cells(1) rows_length [OF assms] counts_length [OF assms]
  by (auto simp: low_eq_def complete_counts_eq)

lemma complete_run_complete:
  "skl_ok s \<Longrightarrow> complete_counts (run_sketch SKL_Update kvs (complete_counts s)) = complete_counts (run_sketch SKL_Update kvs s)"
  by (intro low_eq_complete low_eq_run low_eq_completed)

text \<open>Records added to the written sketch of a group: the sketch of the longer group.\<close>

lemma key_stream_append [simp]: "key_stream (g @ h) = key_stream g @ key_stream h"
  by (simp add: key_stream_def)

lemma run_sketch_append: "run_sketch upd (xs @ ys) s = run_sketch upd ys (run_sketch upd xs s)"
  by (simp add: run_sketch_def)

lemma group_sketch_ok:
  assumes "skl_ok s"
  shows "same_sketch (group_sketch s g) s"
  using same_complete [of "run_sketch SKL_Update (key_stream g) s"] run_ok [OF assms, of "key_stream g"]
  by (auto simp: group_sketch_def same_sketch_def)

lemma group_sketch_more:
  assumes "skl_ok s"
  shows "group_sketch (group_sketch s g) h = group_sketch s (g @ h)"
  using complete_run_complete [of "run_sketch SKL_Update (key_stream g) s" "key_stream h"]
    run_ok [OF assms, of "key_stream g"]
  by (simp add: group_sketch_def run_sketch_append same_sketch_def)

section \<open>Reading a written sketch\<close>

lemma same_with_stats:
  "same_sketch t s \<Longrightarrow> t\<lparr>counts := counts s\<rparr> = with_stats (bit_mean t) (bit_std t) s"
  by (cases t; cases s) (auto simp: with_stats_def same_sketch_def skl_ok_def)

lemma group_bits_ok:
  assumes "skl_ok s" "i < sk_size s"
  shows "bits_ok (group_sketch s g) i (lgn (group_sketch s g))"
proof -
  let ?r = "run_sketch SKL_Update (key_stream g) s"
  have r: "skl_ok ?r" "sk_size ?r = sk_size s"
    using run_ok [OF assms(1), of "key_stream g"] by (auto simp: same_sketch_def skl_ok_def)
  have l: "length (counts ?r ! i) = 1 + lgn ?r * 2" using rows_length [OF r(1)] assms(2) r(2) by simp
  have c: "counts (group_sketch s g) ! i = complete_row (lgn ?r) (counts ?r ! i)"
    using complete_counts_eq [OF r(1)] counts_length [OF r(1)] assms(2) r(2) by (simp add: group_sketch_def)
  have n: "lgn (group_sketch s g) = lgn ?r" by (simp add: group_sketch_def complete_counts_eq [OF r(1)])
  show ?thesis unfolding bits_ok_def n c
  proof (intro allI impI)
    fix j assume j: "1 \<le> j \<and> j \<le> lgn ?r"
    then obtain p where p: "j = p + 1" "p < lgn ?r" by (cases j) auto
    have "complete_row (lgn ?r) (counts ?r ! i) ! (p + 1 + lgn ?r) = counts ?r ! i ! 0 - counts ?r ! i ! (p + 1)"
      using complete_row_cells [OF l] p(2) by blast
    then show "complete_row (lgn ?r) (counts ?r ! i) ! 0 = complete_row (lgn ?r) (counts ?r ! i) ! j +
        complete_row (lgn ?r) (counts ?r ! i) ! (j + lgn ?r)"
      using complete_row_cells [OF l] j unfolding p(1) by simp
  qed
qed

lemma read_group:
  assumes "skl_ok s" "sk_size s < 2 ^ 31" "same_sketch t s"
  shows "SKL_ReadFile junk64 junk (Some (SKL_Print (group_sketch s g))) t =
    Inr (with_stats (bit_mean t) (bit_std t) (group_sketch s g))"
proof -
  let ?g = "group_sketch s g"
  have gs: "same_sketch ?g s" using group_sketch_ok [OF assms(1)] .
  then have tg: "same_sketch t ?g" using assms(3) by (auto simp: same_sketch_def)
  have g: "skl_ok ?g" "sk_size ?g = sk_size s" using gs by (auto simp: same_sketch_def skl_ok_def)
  have "\<forall>i < sk_size ?g. bits_ok ?g i (lgn ?g)" using group_bits_ok [OF assms(1)] g(2) by simp
  then have "SKL_ReadFile junk64 junk (Some (SKL_Print ?g)) t = Inr (t\<lparr>counts := counts ?g\<rparr>)"
    using SKL_Print_ReadFile_gen [OF g(1) _ same_sketch_shape [OF tg], of junk64 junk] assms(2) g(2) by simp
  then show ?thesis using same_with_stats [OF tg] by simp
qed

section \<open>Identification depends on the counters only\<close>

lemma compute_bit_dists_stats:
  assumes "lgn s = 104" "length m = 104" "length d = 104" "length m' = 104" "length d' = 104"
  shows "compute_bit_dists (with_stats m d s) = compute_bit_dists (with_stats m' d' s)"
proof -
  have r: "bit_ratio (with_stats m d s) = bit_ratio s" for m d
    by (simp add: bit_ratio_def fun_eq_iff)
  have l: "mean_loop (with_stats m d s) = mean_loop s" "std_loop (with_stats m d s) = std_loop s"
    "bessel (with_stats m d s) = bessel s" for m d
    by (simp_all add: mean_loop_def std_loop_def bessel_def r fun_eq_iff)
  show ?thesis unfolding compute_bit_dists_def l using assms by (simp add: Let_def with_stats_def)
qed

end
