(* ===== verification/Dp_Simulate.thy ===== *)
theory Dp_Simulate
  imports Driver Interval_Sketch
begin

text \<open>
  \<^verbatim>\<open>dp_simulate.c\<close>: the data plane over a record file. The worker keeps a sketch; at the end of each
  interval it completes the sketch, writes it to the next file and starts over. \<open>dp_handler\<close> is the
  body of the worker's loop for one record, and \<open>dp_simulate\<close> prepares the two threads; their run is
  the relation \<open>sys_step\<close> over the ring buffer.
\<close>

section \<open>The worker\<close>

text \<open>
  \<open>dp_files\<close> are the files written, with their contents; \<open>env_writable\<close> says which paths can be
  opened (\<open>SKL_Print\<close> does not look).
\<close>

record dp_env =
  env_dir :: "string option"
  env_alg :: string
  env_output :: bool
  env_writable :: "string \<Rightarrow> bool"

record dp_state =
  dp_skl :: skl_t
  dp_cnt :: u64
  dp_interval :: u64
  dp_tot :: u64
  dp_files :: "(string \<times> string) list"

definition dp_path :: "dp_env \<Rightarrow> u64 \<Rightarrow> string res" where
  "dp_path env i =
     rbind (str_arg (env_dir env)) (\<lambda>d.
       sprintf_100 (parse_fmt ''%s/sketches/%s_%llu'') [d, StrArg (env_alg env), IntArg (uint i)])"

definition dp_output :: "dp_env \<Rightarrow> dp_state \<Rightarrow> dp_state res" where
  "dp_output env w =
     (if env_output env then
        rbind (SKL_CompleteZeroes (dp_skl w)) (\<lambda>skl.
        rbind (dp_path env (dp_interval w)) (\<lambda>path.
          if env_writable env path
          then Inr (w\<lparr>dp_skl := skl, dp_files := dp_files w @ [(path, SKL_Print skl)]\<rparr>)
          else Inl OutOfBounds))
      else Inr w)"

definition dp_handler :: "dp_env \<Rightarrow> dp_state \<Rightarrow> tuple_t \<Rightarrow> dp_state outcome" where
  "dp_handler env w t =
     (if flag t = TUPLE_TERM then
        (case dp_output env w of Inl e \<Rightarrow> Crash e | Inr w' \<Rightarrow> Stop w')
      else if flag t = TUPLE_PUNC then
        (case dp_output env w of Inl e \<Rightarrow> Crash e
         | Inr w' \<Rightarrow> Go (w'\<lparr>dp_interval := dp_interval w' + 1, dp_tot := 0,
                            dp_skl := SKL_Reset (dp_skl w')\<rparr>) 1)
      else Go (w\<lparr>dp_skl := SKL_Update (dp_skl w) (key_bytes (tkey t)) (tsize t),
                dp_cnt := dp_cnt w + 1, dp_tot := dp_tot w + scast (tsize t)\<rparr>) 0)"

definition dp_init :: "skl_t \<Rightarrow> dp_state" where
  "dp_init skl = \<lparr>dp_skl = skl, dp_cnt = 0, dp_interval = 0, dp_tot = 0, dp_files = []\<rparr>"

section \<open>The program\<close>

text \<open>
  The head of the worker: the sketch of the configured size. A negative depth or key length gives
  an allocation of an undefined size.
\<close>

definition sketch_of_conf :: "'d iniparser \<Rightarrow> 'd conf_t \<Rightarrow> u64 \<Rightarrow> u64 \<Rightarrow> (skl_t \<times> u64) res" where
  "sketch_of_conf ini conf rand glob =
     rbind (conf_skl_width ini conf) (\<lambda>width.
     rbind (conf_skl_depth ini conf) (\<lambda>depth.
     rbind (conf_common_key_len ini conf) (\<lambda>key_len.
       if sint depth < 0 \<or> sint key_len < 0 then Inl OutOfBounds
       else SKL_Init rand glob (sint width) (nat (sint depth)) (nat (sint key_len)))))"

text \<open>
  \<open>main\<close> up to the start of the loop, and the state in which the two threads begin: the records of
  the trace as actions of the main thread, and the worker ready (it has posted the semaphore once
  and the main thread has waited for that).
\<close>

definition dp_simulate ::
    "'d iniparser \<Rightarrow> (string \<Rightarrow> byte list option) \<Rightarrow> (string \<Rightarrow> bool) \<Rightarrow> u64 \<Rightarrow> string list \<Rightarrow>
     (dp_env \<times> (tuple_t ringbuffer, tuple_t, dp_state) sys) res" where
  "dp_simulate ini fopen writable rand argv =
     (if length argv \<noteq> 2 then Inl ExitError
      else
        rbind (Config_Init ini (Some (argv ! 1))) (\<lambda>conf.
        rbind (conf_common_trace_dir ini conf) (\<lambda>dir.
        rbind (conf_common_record_file ini conf) (\<lambda>filename.
        rbind (conf_common_trace_bufsize ini conf) (\<lambda>buf_size.
        rbind (adapter_init fopen dir filename buf_size) (\<lambda>adapter.
        rbind (str_arg dir) (\<lambda>d. rbind (sprintf_100 (parse_fmt ''%s/sketches'') [d]) (\<lambda>tmp.
        rbind (conf_common_is_output ini conf) (\<lambda>is_output.
        rbind (conf_common_is_pin_cpu ini conf) (\<lambda>is_pin.
        rbind (pin_if (is_pin \<noteq> 0) 1) (\<lambda>cpu.
        rbind (sketch_of_conf ini conf rand 0) (\<lambda>(skl, glob).
        rbind (pin_if (is_pin \<noteq> 0) 0) (\<lambda>cpu'.
        rbind (conf_common_interval_len ini conf) (\<lambda>interval_len.
        rbind (main_actions interval_len (adapter_records adapter)) (\<lambda>as.
          Inr (\<lparr>env_dir = dir, env_alg = ''sketchlearn'', env_output = (is_output \<noteq> 0),
                env_writable = writable\<rparr>,
               init_sys (create_ringbuffer zero_tuple) zero_tuple (dp_init skl) as))))))))))))))))"

text \<open>A step of either thread, over the ring buffer.\<close>

abbreviation dp_step :: "dp_env \<Rightarrow> (tuple_t ringbuffer, tuple_t, dp_state) sys \<Rightarrow>
    (tuple_t ringbuffer, tuple_t, dp_state) sys \<Rightarrow> bool" where
  "dp_step env \<equiv> sys_step write_ringbuffer read_ringbuffer flush_ringbuffer (dp_handler env)"

section \<open>The configured sketch\<close>

lemma SKL_Init_shape:
  assumes "SKL_Init rand glob w d n = Inr (s, glob')" "w \<le> INT_MAX"
  shows "depth s * width s \<noteq> 1" "sk_size s < 2 ^ 31"
proof -
  obtain w' where w: "calc_next_prime w = Inr w'" "\<not> INT_MAX < w' * int d" "width s = nat w'" "depth s = d"
    "sk_size s = nat w' * d"
    using assms(1) by (auto simp: SKL_Init_def Let_def split: if_splits prod.splits)
  have b: "2 \<le> w'" using calc_next_prime_bounds [OF w(1) assms(2)] by simp
  then show "depth s * width s \<noteq> 1" using w(3) by auto
  have "int (sk_size s) = w' * int d" using b w(5) by simp
  then show "sk_size s < 2 ^ 31" using w(2) by (simp add: INT_MAX_def)
qed

lemma sketch_of_conf_fresh:
  assumes "sketch_of_conf ini conf rand glob = Inr (s, glob')" "8 dvd lgn s" "lgn s \<le> 104"
  shows "fresh_sketch s" "depth s * width s \<noteq> 1"
proof -
  from assms(1) obtain w d n :: i32 where i: "SKL_Init rand glob (sint w) (nat (sint d)) (nat (sint n)) = Inr (s, glob')"
    by (auto simp: sketch_of_conf_def split: if_splits)
  have w: "sint w \<le> INT_MAX" using sint_i32_range(2) [of w] by (simp add: INT_MAX_def)
  have "lgn s = nat (sint n)" using i by (auto simp: SKL_Init_def Let_def split: if_splits prod.splits)
  then show "fresh_sketch s" using SKL_Init_fresh [OF i w] assms(2,3) by simp
  show "depth s * width s \<noteq> 1" using SKL_Init_shape(1) [OF i w] .
qed

section \<open>The worker follows the protocol\<close>

interpretation dp: data_plane rb_inv rb_contents rb_visible write_ringbuffer read_ringbuffer
  flush_ringbuffer "dp_handler env" for env
proof
  fix w :: dp_state and t :: tuple_t
  show "(\<exists>w'. dp_handler env w t = Stop w') \<or> (\<exists>e. dp_handler env w t = Crash e)" if "flag t = TUPLE_TERM"
    using that by (simp add: dp_handler_def split: sum.split)
  show "(\<exists>w'. dp_handler env w t = Go w' 1) \<or> (\<exists>e. dp_handler env w t = Crash e)" if "flag t = TUPLE_PUNC"
    using that by (simp add: dp_handler_def TUPLE_TERM_def TUPLE_PUNC_def split: sum.split)
  show "\<exists>w'. dp_handler env w t = Go w' 0 \<or> (\<exists>e. dp_handler env w t = Crash e)" if "flag t = TUPLE_NORMAL"
    using that by (simp add: dp_handler_def TUPLE_TERM_def TUPLE_PUNC_def TUPLE_NORMAL_def)
qed

section \<open>The run of the worker\<close>

text \<open>
  \<open>path_ok env n\<close>: the first \<open>n\<close> output paths fit into their buffer and can be opened.
  \<open>group_files\<close> are the files for the groups from number \<open>i\<close> on.
\<close>

definition path_ok :: "dp_env \<Rightarrow> nat \<Rightarrow> bool" where
  "path_ok env n \<longleftrightarrow> (\<forall>i < n. \<exists>path. dp_path env (of_nat i) = Inr path \<and> env_writable env path)"

fun group_files :: "dp_env \<Rightarrow> skl_t \<Rightarrow> nat \<Rightarrow> tuple_t list list \<Rightarrow> (string \<times> string) list" where
  "group_files env s i [] = []"
| "group_files env s i (g # gs) =
     (projr (dp_path env (of_nat i)), SKL_Print (group_sketch s g)) # group_files env s (Suc i) gs"

text \<open>The worker in the middle of group \<open>i\<close>, of which it has handled the records \<open>g\<close>.\<close>

definition in_group :: "dp_env \<Rightarrow> skl_t \<Rightarrow> nat \<Rightarrow> tuple_t list \<Rightarrow> u64 \<Rightarrow> (string \<times> string) list \<Rightarrow> dp_state \<Rightarrow> bool" where
  "in_group env s i g n fs w \<longleftrightarrow> (\<exists>m d. length m = 104 \<and> length d = 104 \<and>
     dp_skl w = with_stats m d (run_sketch SKL_Update (key_stream g) s)) \<and>
     dp_interval w = of_nat i \<and> dp_cnt w = n \<and> dp_files w = fs"

lemma in_group_init: "fresh_sketch s \<Longrightarrow> in_group env s 0 [] 0 [] (dp_init s)"
proof -
  assume "fresh_sketch s"
  then have "skl_ok s" by (rule fresh_sketch_ok)
  moreover have "s = with_stats (bit_mean s) (bit_std s) s" by (cases s) (simp add: with_stats_def)
  ultimately show ?thesis unfolding in_group_def
    by (intro conjI exI [of _ "bit_mean s"] exI [of _ "bit_std s"]) (auto simp: dp_init_def key_stream_def skl_ok_def)
qed

lemma in_group_record:
  assumes "in_group env s i g n fs w" "flag t = TUPLE_NORMAL"
  shows "\<exists>w'. dp_handler env w t = Go w' 0 \<and> in_group env s i (g @ [t]) (n + 1) fs w'"
proof -
  from assms(1) obtain m d where w: "length m = 104" "length d = 104"
    "dp_skl w = with_stats m d (run_sketch SKL_Update (key_stream g) s)" "dp_interval w = of_nat i"
    "dp_cnt w = n" "dp_files w = fs" unfolding in_group_def by blast
  have "SKL_Update (dp_skl w) (key_bytes (tkey t)) (tsize t) =
      with_stats m d (run_sketch SKL_Update (key_stream (g @ [t])) s)"
    unfolding w(3) SKL_Update_stats by (simp add: key_stream_def run_sketch_def)
  then show ?thesis using w assms(2) unfolding in_group_def
    by (auto simp: dp_handler_def TUPLE_TERM_def TUPLE_PUNC_def TUPLE_NORMAL_def)
qed

lemma in_group_records:
  "in_group env s i g n fs w \<Longrightarrow> \<forall>t \<in> set h. flag t = TUPLE_NORMAL \<Longrightarrow>
    \<exists>w'. run_worker (dp_handler env) (Running w) h = (Running w', 0) \<and>
      in_group env s i (g @ h) (n + of_nat (length h)) fs w'"
proof (induction h arbitrary: g n w)
  case (Cons t h)
  from in_group_record [OF Cons.prems(1), of t] Cons.prems(2) obtain w1 where
    w1: "dp_handler env w t = Go w1 0" "in_group env s i (g @ [t]) (n + 1) fs w1" by auto
  from Cons.IH [OF w1(2)] Cons.prems(2) show ?case using w1(1) by (auto simp: add.assoc)
qed auto

lemma in_group_output:
  assumes "in_group env s i g n fs w" "fresh_sketch s" "depth s * width s \<noteq> 1" "env_output env"
    "dp_path env (of_nat i) = Inr path" "env_writable env path"
  shows "\<exists>m d w'. dp_output env w = Inr w' \<and> length m = 104 \<and> length d = 104 \<and>
    dp_skl w' = with_stats m d (group_sketch s g) \<and> dp_interval w' = of_nat i \<and> dp_cnt w' = n \<and>
    dp_files w' = fs @ [(path, SKL_Print (group_sketch s g))]"
proof -
  from assms(1) obtain m d where w: "length m = 104" "length d = 104"
    "dp_skl w = with_stats m d (run_sketch SKL_Update (key_stream g) s)" "dp_interval w = of_nat i"
    "dp_cnt w = n" "dp_files w = fs" unfolding in_group_def by blast
  from complete_group [OF fresh_sketch_ok [OF assms(2)] w(1,2) assms(3)] obtain m' d' where
    c: "SKL_CompleteZeroes (dp_skl w) = Inr (with_stats m' d' (group_sketch s g))" "length m' = 104" "length d' = 104"
    unfolding w(3) by blast
  then show ?thesis using assms(4-6) w(4-6) by (simp add: dp_output_def) blast
qed

lemma in_group_punc:
  assumes "in_group env s i g n fs w" "fresh_sketch s" "depth s * width s \<noteq> 1" "env_output env"
    "dp_path env (of_nat i) = Inr path" "env_writable env path" "flag p = TUPLE_PUNC"
  shows "\<exists>w'. dp_handler env w p = Go w' 1 \<and>
    in_group env s (Suc i) [] n (fs @ [(path, SKL_Print (group_sketch s g))]) w'"
proof -
  from in_group_output [OF assms(1-6)] obtain m d w' where w: "dp_output env w = Inr w'"
    "length m = 104" "length d = 104" "dp_skl w' = with_stats m d (group_sketch s g)"
    "dp_interval w' = of_nat i" "dp_cnt w' = n"
    "dp_files w' = fs @ [(path, SKL_Print (group_sketch s g))]" by blast
  have "same_sketch (group_sketch s g) s"
    using same_complete [of "run_sketch SKL_Update (key_stream g) s"]
      run_ok [OF fresh_sketch_ok [OF assms(2)], of "key_stream g"]
    by (auto simp: group_sketch_def same_sketch_def)
  from reset_group [OF assms(2) this w(2,3)] show ?thesis using w assms(7)
    by (auto simp: dp_handler_def TUPLE_TERM_def TUPLE_PUNC_def in_group_def key_stream_def)
qed

lemma run_groups:
  assumes "in_group env s i [] n fs w" "fresh_sketch s" "depth s * width s \<noteq> 1" "env_output env"
    "path_ok env (i + Suc (length pgs))" "\<forall>t \<in> set g0. flag t = TUPLE_NORMAL"
    "\<forall>(p, g) \<in> set pgs. flag p = TUPLE_PUNC \<and> (\<forall>t \<in> set g. flag t = TUPLE_NORMAL)" "flag x = TUPLE_TERM"
  shows "\<exists>w'. fst (run_worker (dp_handler env) (Running w) (records g0 pgs @ [x])) = Finished w' \<and>
    dp_files w' = fs @ group_files env s i (g0 # map snd pgs) \<and>
    dp_cnt w' = n + of_nat (length (concat (g0 # map snd pgs)))"
  using assms
proof (induction pgs arbitrary: i g0 n fs w)
  case Nil
  from in_group_records [OF Nil.prems(1,6)] obtain w1 where
    w1: "run_worker (dp_handler env) (Running w) g0 = (Running w1, 0)"
    "in_group env s i g0 (n + of_nat (length g0)) fs w1" by auto
  from Nil.prems(5) obtain path where path: "dp_path env (of_nat i) = Inr path" "env_writable env path"
    by (auto simp: path_ok_def)
  from in_group_output [OF w1(2) Nil.prems(2-4) path] obtain w' where "dp_output env w1 = Inr w'"
    "dp_cnt w' = n + of_nat (length g0)" "dp_files w' = fs @ [(path, SKL_Print (group_sketch s g0))]" by blast
  moreover from this(1) have "dp_handler env w1 x = Stop w'" using Nil.prems(8) by (simp add: dp_handler_def)
  ultimately show ?case using w1(1) path(1) by (simp add: run_worker_append)
next
  case (Cons pg pgs)
  obtain p g where pg: "pg = (p, g)" by fastforce
  from in_group_records [OF Cons.prems(1,6)] obtain w1 where
    w1: "run_worker (dp_handler env) (Running w) g0 = (Running w1, 0)"
    "in_group env s i g0 (n + of_nat (length g0)) fs w1" by auto
  from Cons.prems(5) have p': "path_ok env (Suc i + Suc (length pgs))" by (simp add: path_ok_def)
  have i: "i < i + Suc (length (pg # pgs))" by simp
  obtain path where path: "dp_path env (of_nat i) = Inr path" "env_writable env path"
    using Cons.prems(5) i unfolding path_ok_def by blast
  have f: "flag p = TUPLE_PUNC" "\<forall>t \<in> set g. flag t = TUPLE_NORMAL"
    "\<forall>(p, g) \<in> set pgs. flag p = TUPLE_PUNC \<and> (\<forall>t \<in> set g. flag t = TUPLE_NORMAL)"
    using Cons.prems(7) pg by auto
  from in_group_punc [OF w1(2) Cons.prems(2-4) path f(1)] obtain w2 where w2: "dp_handler env w1 p = Go w2 1"
    "in_group env s (Suc i) [] (n + of_nat (length g0)) (fs @ [(path, SKL_Print (group_sketch s g0))]) w2" by blast
  from Cons.IH [OF w2(2) Cons.prems(2-4) p' f(2,3) Cons.prems(8)] show ?case
    using w1(1) w2(1) path(1) pg by (auto simp: run_worker_append case_prod_beta Let_def add.assoc)
qed

section \<open>Properties\<close>

text \<open>C10: the main thread cuts the trace into its intervals. On a trace in time order without packets
  of interval 0, the actions are the records of the first interval, and for each further one the
  record that ends the interval before it, a flush, a wait for the worker, and its records; the
  groups are not empty, hold every record once and in order, have one interval number each, and
  these numbers grow.
\<close>

theorem main_actions_intervals:
  assumes "main_actions len ts = Inr as" "\<forall>t \<in> set ts. flag t = TUPLE_NORMAL"
    and "sorted (map (cur_of len) ts)" "0 \<notin> cur_of len ` set ts" "ts \<noteq> []"
  shows "\<exists>g0 pgs x. as = actions g0 pgs @ [PWrite x, PFlush] \<and> grouped (cur_of len) (g0 # map snd pgs) \<and>
    concat (g0 # map snd pgs) = ts \<and> (\<forall>p \<in> fst ` set pgs. flag p = TUPLE_PUNC) \<and> flag x = TUPLE_TERM"
proof -
  from main_actions_shape [OF assms(1,2)] obtain g0 pgs x where g: "as = actions g0 pgs @ [PWrite x, PFlush]"
    "cut (cur_of len) 0 ts = g0 # map snd pgs" "\<forall>(p, g) \<in> set pgs. flag p = TUPLE_PUNC \<and> (\<forall>t \<in> set g. flag t = TUPLE_NORMAL)"
    "flag x = TUPLE_TERM" by blast
  then show ?thesis using cut_grouped [OF assms(3-5)] concat_cut [of "cur_of len" 0 ts]
    by (intro exI [of _ g0] exI [of _ pgs] exI [of _ x]) (auto simp del: grouped.simps)
qed

lemmas dp_runs = dp.program_bound [OF _ _ _ rb_inv_create rb_contents_create]
  and dp_ends = dp.program_ends [OF _ _ rb_inv_create rb_contents_create]

text \<open>C7: the data plane cannot hang. However the two threads are interleaved over the ring buffer, a run
  over \<open>n\<close> records takes at most \<open>8 n + 4\<close> steps, in every state before the end one of the threads can
  go on, and so there is a run that ends.
\<close>

theorem dp_simulate_completes:
  assumes "main_actions len ts = Inr as" "\<forall>t \<in> set ts. flag t = TUPLE_NORMAL"
  shows "(\<forall>n u. (dp_step env ^^ n) (init_sys (create_ringbuffer z) b w as) u \<longrightarrow>
      n \<le> 8 * length ts + 4 \<and> (at_end u \<or> (\<exists>v. dp_step env u v))) \<and>
    (\<exists>u. (dp_step env)\<^sup>*\<^sup>* (init_sys (create_ringbuffer z) b w as) u \<and> at_end u)"
  using dp_runs [OF assms] dp_ends [OF assms] by blast

lemma dp_files_gen:
  assumes "fresh_sketch s" "depth s * width s \<noteq> 1" "env_output env"
    and "path_ok env (length (cut (cur_of len) 0 ts))"
    and "main_actions len ts = Inr as" "\<forall>t \<in> set ts. flag t = TUPLE_NORMAL"
    and "(dp_step env)\<^sup>*\<^sup>* (init_sys (create_ringbuffer z) b (dp_init s) as) u" "at_end u"
  shows "\<exists>w. wk u = Finished w \<and> dp_files w = group_files env s 0 (cut (cur_of len) 0 ts) \<and>
    dp_cnt w = of_nat (length ts)"
proof -
  from main_actions_shape [OF assms(5,6)] obtain g0 pgs x where g: "as = actions g0 pgs @ [PWrite x, PFlush]"
    "cut (cur_of len) 0 ts = g0 # map snd pgs" "\<forall>t \<in> set g0. flag t = TUPLE_NORMAL"
    "\<forall>(p, g) \<in> set pgs. flag p = TUPLE_PUNC \<and> (\<forall>t \<in> set g. flag t = TUPLE_NORMAL)" "flag x = TUPLE_TERM"
    by blast
  have l: "length (concat (g0 # map snd pgs)) = length ts" unfolding g(2) [symmetric] by simp
  have "path_ok env (0 + Suc (length pgs))" using assms(4) unfolding g(2) by simp
  from run_groups [OF in_group_init [OF assms(1)] assms(1-3) this g(3-5)] obtain w where
    w: "fst (run_worker (dp_handler env) (Running (dp_init s)) (records g0 pgs @ [x])) = Finished w"
    "dp_files w = [] @ group_files env s 0 (g0 # map snd pgs)"
    "dp_cnt w = 0 + of_nat (length (concat (g0 # map snd pgs)))" by blast
  have "wk u = Finished w"
    using dp.program_result [OF assms(7) rb_inv_create rb_contents_create assms(8)] w(1) g(1) by simp
  then show ?thesis using w(2,3) unfolding g(2) l by simp
qed

text \<open>C2: what the data plane writes. Whatever the interleaving of the two threads, a run that is at its
  end has written one file for each group of records, in order, each holding the completed sketch
  of the records of its group alone; and the worker has counted every record.
\<close>

theorem dp_simulate_files:
  assumes "fresh_sketch s" "depth s * width s \<noteq> 1" "env_output env"
    and "path_ok env (length (cut (cur_of len) 0 ts))"
    and "main_actions len ts = Inr as" "\<forall>t \<in> set ts. flag t = TUPLE_NORMAL"
    and "(dp_step env)\<^sup>*\<^sup>* (init_sys (create_ringbuffer z) b (dp_init s) as) u" "at_end u"
  shows "\<exists>w. wk u = Finished w \<and> dp_files w = group_files env s 0 (cut (cur_of len) 0 ts) \<and>
    dp_cnt w = of_nat (length ts)"
  by (rule dp_files_gen [OF assms])


section \<open>A concrete run\<close>

text \<open>Two records, of the seconds 1 and 3.\<close>

definition demo_trace :: "tuple_t list" where
  "demo_trace = [zero_tuple\<lparr>tsize := 5, pkt_ts := 1\<rparr>, zero_tuple\<lparr>tsize := 7, pkt_ts := dbl_of_int 3\<rparr>]"

definition demo_env :: dp_env where
  "demo_env = \<lparr>env_dir = Some ''d'', env_alg = ''sketchlearn'', env_output = True, env_writable = (\<lambda>path. True)\<rparr>"

lemma demo_intervals: "map (interval_of 1000) demo_trace = [Inr 1, Inr 3]"
  by code_simp

lemma demo_trace_facts:
  "map (cur_of 1000) demo_trace = [1, 3]" "\<forall>t \<in> set demo_trace. flag t = TUPLE_NORMAL"
  "\<exists>as. main_actions 1000 demo_trace = Inr as"
  "cut (cur_of 1000) 0 demo_trace = [[demo_trace ! 0], [demo_trace ! 1]]"
  using demo_intervals
  by (simp_all add: demo_trace_def cur_of_def TUPLE_NORMAL_def zero_tuple_def main_actions_def Let_def)

lemma demo_paths: "path_ok demo_env 2"
proof -
  have "dp_path demo_env 0 = Inr ''d/sketches/sketchlearn_0''" "dp_path demo_env 1 = Inr ''d/sketches/sketchlearn_1''"
    by code_simp+
  then show ?thesis by (auto simp: path_ok_def demo_env_def less_Suc_eq numeral_2_eq_2)
qed

lemma main_actions_intervals_witness:
  "\<exists>as g0 pgs x. main_actions 1000 demo_trace = Inr as \<and> as = actions g0 pgs @ [PWrite x, PFlush] \<and>
    concat (g0 # map snd pgs) = demo_trace"
proof -
  obtain as where as: "main_actions 1000 demo_trace = Inr as" using demo_trace_facts(3) by blast
  have "sorted (map (cur_of 1000) demo_trace)" "0 \<notin> cur_of 1000 ` set demo_trace" "demo_trace \<noteq> []"
    using demo_trace_facts(1) by (auto simp: demo_trace_def)
  from main_actions_intervals [OF as demo_trace_facts(2) this] show ?thesis using as by blast
qed

lemma dp_simulate_completes_witness:
  "\<exists>as u. main_actions 1000 demo_trace = Inr as \<and>
    (dp_step demo_env)\<^sup>*\<^sup>* (init_sys (create_ringbuffer zero_tuple) zero_tuple (dp_init demo_sketch) as) u \<and> at_end u"
  using demo_trace_facts(3) dp_simulate_completes [OF _ demo_trace_facts(2)] by blast

lemma dp_simulate_files_witness:
  "\<exists>as u w. main_actions 1000 demo_trace = Inr as \<and>
    (dp_step demo_env)\<^sup>*\<^sup>* (init_sys (create_ringbuffer zero_tuple) zero_tuple (dp_init demo_sketch) as) u \<and>
    wk u = Finished w \<and> dp_cnt w = 2 \<and>
    dp_files w = group_files demo_env demo_sketch 0 [[demo_trace ! 0], [demo_trace ! 1]]"
proof -
  obtain as where as: "main_actions 1000 demo_trace = Inr as" using demo_trace_facts(3) by blast
  obtain u where u: "(dp_step demo_env)\<^sup>*\<^sup>* (init_sys (create_ringbuffer zero_tuple) zero_tuple (dp_init demo_sketch) as) u"
    "at_end u" using dp_ends [OF as demo_trace_facts(2)] by blast
  have p: "path_ok demo_env (length (cut (cur_of 1000) 0 demo_trace))"
    using demo_paths by (simp add: demo_trace_facts(4) numeral_2_eq_2)
  have "depth demo_sketch * width demo_sketch \<noteq> 1" "env_output demo_env" "length demo_trace = 2"
    by (simp_all add: demo_sketch_def demo_env_def demo_trace_def)
  then show ?thesis
    using dp_simulate_files [OF demo_sketch_fresh _ _ p as demo_trace_facts(2) u] as u(1) demo_trace_facts(4) by auto
qed

end
