(* ===== verification/Sketch_Infer.thy ===== *)
theory Sketch_Infer
  imports Sketch_Ops
begin

text \<open>
  The inference of \<^verbatim>\<open>alg_sketchlearn.c\<close>: from the bit counters of a bucket to template keys, the
  enumeration of the candidates, the identification of large flows and the size estimates.
  The C library's \<open>erf\<close> is the parameter \<open>erf\<close>. A pointer into \<open>counts\<close> is the row it
  points to.
\<close>

section \<open>Probabilities of the bits\<close>

definition gaussian_prob :: "(dbl \<Rightarrow> dbl) \<Rightarrow> dbl \<Rightarrow> dbl" where
  "gaussian_prob erf d = 1 - erf (d div dsqrt (dbl_of_int 2))"

definition min_conf :: dbl where "min_conf = dlit 95 100"
definition allow_bad_ratio :: dbl where "allow_bad_ratio = dlit 1 10"

record bit_info =
  bpos :: nat
  bguess :: int
  bprob :: dbl

definition cmp_bit_info :: "bit_info \<Rightarrow> bit_info \<Rightarrow> int" where
  "cmp_bit_info t1 t2 = (if bprob t2 < bprob t1 then 1 else 0)"

text \<open>A counter as a \<open>double\<close>, and the two probabilities of the last case of the bit test.\<close>

definition cnt :: "i32 \<Rightarrow> dbl" where
  "cnt c = dbl_of_int (sint c)"

definition bit_probs :: "(dbl \<Rightarrow> dbl) \<Rightarrow> dbl \<Rightarrow> dbl \<Rightarrow> dbl \<Rightarrow> dbl \<Rightarrow> dbl \<times> dbl" where
  "bit_probs erf p ratio mean std =
     (let r1 = (p - ratio) div (1 - ratio);
          r2 = p div (1 - ratio);
          d1 = dabs (r1 - mean) div std;
          d2 = dabs (r2 - mean) div std
      in (gaussian_prob erf d1 * mean, gaussian_prob erf d2 * (1 - mean)))"

section \<open>Template key of a bucket\<close>

text \<open>
  The state of the loop of \<open>skl_find_key_bits\<close>: \<open>j\<close>, \<open>k\<close>, \<open>conf\<close>, the key bytes and the entries
  of \<open>bit_infos\<close> written so far. \<open>for (i = len; i > 0; i--)\<close>.
\<close>

record find_state =
  fj :: u64
  fk :: byte
  fconf :: dbl
  fret :: "byte list"
  finfos :: "bit_info list"

definition find_bit :: "(dbl \<Rightarrow> dbl) \<Rightarrow> i32 list \<Rightarrow> nat \<Rightarrow> dbl \<Rightarrow> dbl list \<Rightarrow> dbl list \<Rightarrow>
    nat \<Rightarrow> find_state \<Rightarrow> find_state" where
  "find_bit erf cn len ratio mean std i st =
     (let V = cnt (cn ! 0); p = 1 * cnt (cn ! i) div V in
      if (1 - ratio) * V \<le> cnt (cn ! i) then
        st\<lparr>fk := fk st + ucast (fj st),
           finfos := finfos st @ [\<lparr>bpos = i - 1, bguess = 1, bprob = 1\<rparr>]\<rparr>
      else if (1 - ratio) * V \<le> cnt (cn ! (i + len)) then
        st\<lparr>finfos := finfos st @ [\<lparr>bpos = i - 1, bguess = 0, bprob = 1\<rparr>]\<rparr>
      else
        (let (p1, p2) = bit_probs erf p ratio (mean ! (i - 1)) (std ! (i - 1)) in
         if p2 < p1 then
           st\<lparr>fk := fk st + ucast (fj st), fconf := fconf st * (p1 div (p1 + p2)),
              finfos := finfos st @ [\<lparr>bpos = i - 1, bguess = 1, bprob = p1 div (p1 + p2)\<rparr>]\<rparr>
         else if p1 < p2 then
           st\<lparr>fconf := fconf st * (p2 div (p1 + p2)),
              finfos := finfos st @ [\<lparr>bpos = i - 1, bguess = 0, bprob = p2 div (p1 + p2)\<rparr>]\<rparr>
         else st))"

definition find_step :: "(dbl \<Rightarrow> dbl) \<Rightarrow> i32 list \<Rightarrow> nat \<Rightarrow> dbl \<Rightarrow> dbl list \<Rightarrow> dbl list \<Rightarrow>
    nat \<Rightarrow> find_state \<Rightarrow> find_state" where
  "find_step erf cn len ratio mean std i st =
     (let st1 = find_bit erf cn len ratio mean std i st;
          st2 = st1\<lparr>fj := push_bit 1 (fj st1)\<rparr>
      in if (i - 1) mod 8 = 0
         then st2\<lparr>fret := (fret st2)[(i - 1) div 8 := fk st2], fk := 0, fj := 1\<rparr>
         else st2)"

definition skl_find_key_bits :: "(dbl \<Rightarrow> dbl) \<Rightarrow> i32 list \<Rightarrow> nat \<Rightarrow> dbl \<Rightarrow> dbl list \<Rightarrow> dbl list \<Rightarrow>
    byte list \<Rightarrow> dbl \<times> byte list \<times> bit_info list" where
  "skl_find_key_bits erf cn len ratio mean std ret =
     (let st = for_upto len (\<lambda>t. find_step erf cn len ratio mean std (len - t))
                 \<lparr>fj = 1, fk = 0, fconf = 1, fret = ret, finfos = []\<rparr>
      in (fconf st, fret st, finfos st))"

section \<open>Size of a flow in one bucket\<close>

definition min32 :: "i32 \<Rightarrow> i32 \<Rightarrow> i32" where
  "min32 est v = (if sint v < sint est then v else est)"

text \<open>The counter of the value the key has at a bit, and that of the other value.\<close>

definition own_cnt :: "i32 list \<Rightarrow> nat \<Rightarrow> byte list \<Rightarrow> nat \<Rightarrow> i32" where
  "own_cnt cn len key p = (if get_bit key p = 1 then cn ! (p + 1) else cn ! (p + 1 + len))"

definition naive_size :: "i32 list \<Rightarrow> nat \<Rightarrow> byte list \<Rightarrow> nat list \<Rightarrow> i32" where
  "naive_size cn len key bits =
     for_upto (length bits) (\<lambda>i naive. min32 naive (own_cnt cn len key (bits ! i))) (cn ! 0)"

definition bit_estimate :: "i32 list \<Rightarrow> nat \<Rightarrow> byte list \<Rightarrow> dbl list \<Rightarrow> nat \<Rightarrow> i32" where
  "bit_estimate cn len key mean p =
     (let c1 = cn ! (p + 1); c0 = cn ! (p + 1 + len); m = mean ! p in
      if get_bit key p = 1 then
        (if m < 1 \<and> 0 < m then
           (let e = i32_of_dbl (cnt c1 - cnt c0 div (1 - m) * m) in if sint e < 0 then c1 else e)
         else c1)
      else
        (if m < 1 \<and> 0 < m then
           (let e = i32_of_dbl (cnt c0 - cnt c1 div m * (1 - m)) in if sint e < 0 then c0 else e)
         else c0))"

text \<open>The probability written back for one bit, at the estimated share \<open>ratio\<close>.\<close>

definition bit_belief :: "(dbl \<Rightarrow> dbl) \<Rightarrow> i32 list \<Rightarrow> nat \<Rightarrow> byte list \<Rightarrow> dbl list \<Rightarrow> dbl list \<Rightarrow>
    i32 \<Rightarrow> nat \<Rightarrow> bit_info \<Rightarrow> bit_info" where
  "bit_belief erf cn len key mean std ret p old =
     (let V = cnt (cn ! 0); ratio = 1 * cnt ret div V in
      if sint ret < 0 then old\<lparr>bpos := p, bprob := 0\<rparr>
      else if (1 - ratio) * V \<le> cnt (cn ! (p + 1)) then \<lparr>bpos = p, bguess = 1, bprob = 1\<rparr>
      else if (1 - ratio) * V \<le> cnt (cn ! (p + len + 1)) then \<lparr>bpos = p, bguess = 0, bprob = 1\<rparr>
      else
        (let (p1, p2) = bit_probs erf (1 * cnt (cn ! (p + 1)) div V) ratio (mean ! p) (std ! p) in
         if get_bit key p = 1 then \<lparr>bpos = p, bguess = 1, bprob = p1 div (p1 + p2)\<rparr>
         else \<lparr>bpos = p, bguess = 0, bprob = p2 div (p1 + p2)\<rparr>))"

definition write_beliefs :: "(dbl \<Rightarrow> dbl) \<Rightarrow> i32 list \<Rightarrow> nat \<Rightarrow> byte list \<Rightarrow> dbl list \<Rightarrow> dbl list \<Rightarrow>
    i32 \<Rightarrow> nat list \<Rightarrow> bit_info list \<Rightarrow> bit_info list" where
  "write_beliefs erf cn len key mean std ret bits infos =
     for_upto (length bits) (\<lambda>i is.
       is[i := bit_belief erf cn len key mean std ret (bits ! i) (is ! i)]) infos"

text \<open>
  The middle of the sorted estimates. For fewer than two bits the code reads \<open>bit_est[-1]\<close>;
  the average of \<open>bit_est[n/2 - 1]\<close> with itself is formed in 32 bits.
\<close>

definition pick_estimate :: "i32 list \<Rightarrow> i32 res" where
  "pick_estimate est =
     (let n = length est in
      if n div 2 = 1 then Inr (est ! (n div 2))
      else if n < 2 then Inl OutOfBounds
      else Inr (word_of_int (sint (est ! (n div 2 - 1) + est ! (n div 2 - 1)) div 2)))"

text \<open>The estimates are collected in the global array \<open>bit_est\<close> of 104 elements.\<close>

definition skl_est_bucket_size :: "(dbl \<Rightarrow> dbl) \<Rightarrow> i32 list \<Rightarrow> nat \<Rightarrow> byte list \<Rightarrow> dbl list \<Rightarrow>
    dbl list \<Rightarrow> nat list \<Rightarrow> bit_info list \<Rightarrow> (i32 \<times> bit_info list) res" where
  "skl_est_bucket_size erf cn len key mean std bits infos =
     (let naive = naive_size cn len key bits;
          bit_est = map (bit_estimate cn len key mean) bits
      in if 104 < length bits then Inl OutOfBounds else
         rbind (pick_estimate (qsort cmp_int32 bit_est)) (\<lambda>e.
         let ret = (if sint naive < sint e then naive else e)
         in Inr (ret, write_beliefs erf cn len key mean std ret bits infos)))"

definition skl_est_bucket_prob :: "(dbl \<Rightarrow> dbl) \<Rightarrow> i32 list \<Rightarrow> nat \<Rightarrow> byte list \<Rightarrow> dbl list \<Rightarrow>
    dbl list \<Rightarrow> nat list \<Rightarrow> bit_info list \<Rightarrow> bit_info list" where
  "skl_est_bucket_prob erf cn len key mean std bits infos =
     write_beliefs erf cn len key mean std 0 bits infos"

definition SKL_Est_Size :: "(dbl \<Rightarrow> dbl) \<Rightarrow> skl_t \<Rightarrow> byte list \<Rightarrow> nat list \<Rightarrow> bit_info list \<Rightarrow>
    (i32 \<times> bit_info list) res" where
  "SKL_Est_Size erf skl key bits infos =
     for_res (depth skl) (\<lambda>k (ret, infos).
       rbind (skl_est_bucket_size erf (counts skl ! (k * width skl + bucket_of skl k key)) (lgn skl) key
               (bit_mean skl) (bit_std skl) bits infos) (\<lambda>(est, infos').
       Inr (if k = 0 \<or> sint est < sint ret then est else ret, infos'))) (0, infos)"

section \<open>Enumeration of candidate keys\<close>

text \<open>
  \<open>enumerate_keys_search\<close> with \<open>n_bit\<close> undecided bits: the changed template and the keys written,
  in order.
\<close>

fun enumerate_keys_search :: "byte list \<Rightarrow> bit_info list \<Rightarrow> nat \<Rightarrow> byte list \<times> byte list list" where
  "enumerate_keys_search orig infos 0 = (orig, [orig])"
| "enumerate_keys_search orig infos (Suc n) =
     (let pos = bpos (infos ! n);
          (orig1, ks1) = enumerate_keys_search (set_bit_at orig pos 0) infos n;
          (orig2, ks2) = enumerate_keys_search (set_bit_at orig1 pos 1) infos n
      in (orig2, ks1 @ ks2))"

definition enumerate_keys :: "byte list \<Rightarrow> bit_info list \<Rightarrow> nat \<Rightarrow> nat \<Rightarrow> byte list \<times> byte list list" where
  "enumerate_keys orig infos n len =
     (if dbl_of_int (int n) \<le> dbl_of_int (int len) * allow_bad_ratio
      then enumerate_keys_search orig infos n else (orig, []))"

section \<open>Identification of large flows\<close>

text \<open>
  The estimate of a candidate in one bucket: the least of the total and of the counters the key
  matches, walked in the order of \<open>loginsert\<close> (\<open>length\<close> counts down).
\<close>

definition est_bit :: "i32 list \<Rightarrow> nat \<Rightarrow> i32 \<times> byte \<times> nat \<Rightarrow> i32 \<times> byte \<times> nat" where
  "est_bit row n = (\<lambda>(est, val, len).
     (min32 est (if val AND 1 = 1 then row ! len else row ! (len + n)), drop_bit 1 val, len - 1))"

definition est_byte :: "i32 list \<Rightarrow> nat \<Rightarrow> byte \<Rightarrow> i32 \<times> nat \<Rightarrow> i32 \<times> nat" where
  "est_byte row n val = (\<lambda>(est, len).
     let (est', val', len') = for_upto 8 (\<lambda>j. est_bit row n) (est, val, len) in (est', len'))"

definition est_in_row :: "i32 list \<Rightarrow> nat \<Rightarrow> byte list \<Rightarrow> i32" where
  "est_in_row row n guess =
     fst (for_upto (n div 8) (\<lambda>i. est_byte row n (guess ! (n div 8 - 1 - i))) (row ! 0, n))"

definition est_candidate :: "skl_t \<Rightarrow> nat \<Rightarrow> byte list \<Rightarrow> i32" where
  "est_candidate skl start guess =
     for_upto (depth skl) (\<lambda>k ret_est.
       min32 ret_est (est_in_row (counts skl ! (k * width skl + bucket_of skl k guess)) (lgn skl) guess))
       (counts skl ! start ! 0)"

text \<open>The reported flows, latest last: key, size and the confidence of each bit.\<close>

record found =
  fkey :: "byte list"
  fval :: i32
  fconfs :: "dbl list"

definition confidences :: "nat \<Rightarrow> byte list \<Rightarrow> bit_info list \<Rightarrow> dbl list" where
  "confidences n guess infos =
     for_upto (length infos) (\<lambda>t cs.
       cs[bpos (infos ! t) := (if get_bit guess (bpos (infos ! t)) = bguess (infos ! t)
                               then bprob (infos ! t) else 1 - bprob (infos ! t))])
       (replicate n 1)"

text \<open>One candidate: the body of the loop over \<open>guess_keys\<close> in bucket \<open>j\<close> of row \<open>i\<close>.\<close>

definition try_guess :: "skl_t \<Rightarrow> dbl \<Rightarrow> nat \<Rightarrow> nat \<Rightarrow> nat \<Rightarrow> bit_info list \<Rightarrow> byte list \<Rightarrow>
    found list \<Rightarrow> found list res" where
  "try_guess skl ratio max_ret i j infos guess fs =
     (if bucket_of skl i guess \<noteq> j then Inr fs
      else if guess \<in> fkey ` set fs then Inr fs
      else if length fs = max_ret then Inl ExitError
      else
        let ret_est = est_candidate skl (i * width skl + j) guess
        in if ratio * cnt (counts skl ! (i * width skl + j) ! 0) \<le> cnt ret_est
           then Inr (fs @ [\<lparr>fkey = guess, fval = ret_est, fconfs = confidences (lgn skl) guess infos\<rparr>])
           else Inr fs)"

fun try_guesses :: "skl_t \<Rightarrow> dbl \<Rightarrow> nat \<Rightarrow> nat \<Rightarrow> nat \<Rightarrow> bit_info list \<Rightarrow> byte list list \<Rightarrow>
    found list \<Rightarrow> found list res" where
  "try_guesses skl ratio max_ret i j infos [] fs = Inr fs"
| "try_guesses skl ratio max_ret i j infos (g # gs) fs =
     rbind (try_guess skl ratio max_ret i j infos g fs) (try_guesses skl ratio max_ret i j infos gs)"

text \<open>
  \<open>pos + 1\<close> after the loop that walks down from the end of the sorted array while the
  probability is not below \<open>min_conf\<close>: the number of entries that are left to enumerate.
\<close>

fun undecided :: "bit_info list \<Rightarrow> nat \<Rightarrow> nat" where
  "undecided infos 0 = 0"
| "undecided infos (Suc p) = (if bprob (infos ! p) < min_conf then Suc p else undecided infos p)"

text \<open>
  The bytes allocated for the candidates, \<open>1 << (pos + 1)\<close> records, are enough whenever the
  enumeration writes any; the shift itself is not modelled.
\<close>

definition identify_bucket :: "(dbl \<Rightarrow> dbl) \<Rightarrow> skl_t \<Rightarrow> dbl \<Rightarrow> nat \<Rightarrow> nat \<Rightarrow> nat \<Rightarrow>
    byte list \<times> found list \<Rightarrow> (byte list \<times> found list) res" where
  "identify_bucket erf skl ratio max_ret i j = (\<lambda>(template, fs).
     let (conf, template1, infos0) = skl_find_key_bits erf (counts skl ! (i * width skl + j)) (lgn skl)
           ratio (bit_mean skl) (bit_std skl) template;
         infos = qsort cmp_bit_info infos0;
         n = undecided infos (length infos);
         (template2, guesses) = enumerate_keys template1 infos n (lgn skl)
     in rbind (try_guesses skl ratio max_ret i j infos (map (take (lgn skl div 8)) guesses) fs) (\<lambda>fs'.
          Inr (template2, fs')))"

definition SKL_Identify_Thresh :: "(dbl \<Rightarrow> dbl) \<Rightarrow> skl_t \<Rightarrow> dbl \<Rightarrow> nat \<Rightarrow> byte list \<Rightarrow>
    (skl_t \<times> found list) res" where
  "SKL_Identify_Thresh erf skl0 ratio max_ret template =
     rbind (compute_bit_dists skl0) (\<lambda>skl.
     rbind (for_res (depth skl) (\<lambda>i. for_res (width skl) (\<lambda>j.
              identify_bucket erf skl ratio max_ret i j)) (template, [])) (\<lambda>(template', fs).
     Inr (skl, fs)))"

section \<open>Enumeration is complete and free of repetitions\<close>

lemma length_set_bit_at [simp, shape_simps]: "length (set_bit_at a pos v) = length a"
  by (simp add: set_bit_at_def Let_def)

lemma bit_single: "bit (push_bit n 1 :: byte) m \<longleftrightarrow> m = n \<and> n < 8"
  by (auto simp: push_bit_of_1 bit_exp_iff possible_bit_word)

lemma key_bit_set_bit_at:
  assumes "pos < 8 * length a" "p < 8 * length a"
  shows "key_bit (set_bit_at a pos v) p \<longleftrightarrow> (if p = pos then v = 1 else key_bit a p)"
proof -
  have l: "pos div 8 < length a" "p div 8 < length a" using assms by auto
  have e: "p = pos \<longleftrightarrow> p div 8 = pos div 8 \<and> 7 - p mod 8 = 7 - pos mod 8"
  proof
    assume h: "p div 8 = pos div 8 \<and> 7 - p mod 8 = 7 - pos mod 8"
    have "p mod 8 \<le> 7" "pos mod 8 \<le> 7" by simp_all
    then have "p mod 8 = pos mod 8" using h by linarith
    then show "p = pos" using h by (metis div_mult_mod_eq)
  qed simp
  show ?thesis
    unfolding key_bit_def set_bit_at_def Let_def e using l
    by (auto simp: bit_or_iff bit_and_iff bit_not_iff bit_single nth_list_update possible_bit_word
        simp del: push_bit_of_1)
qed

lemma key_ext:
  assumes "length a = length b" "\<And>p. p < 8 * length a \<Longrightarrow> key_bit a p = key_bit b p"
  shows "a = b"
proof (rule nth_equalityI [OF assms(1)])
  fix i assume i: "i < length a"
  show "a ! i = b ! i"
  proof (rule bit_word_eqI)
    fix n assume "n < LENGTH(8)"
    then have n: "n < 8" by simp
    define r where "r = 7 - n"
    have r: "r < 8" "7 - r = n" using n by (simp_all add: r_def)
    then have "8 * i + r < 8 * length a" using i by linarith
    moreover have "(8 * i + r) div 8 = i" "(8 * i + r) mod 8 = r" using r by simp_all
    ultimately show "bit (a ! i) n = bit (b ! i) n"
      using assms(2) [of "8 * i + r"] r(2) by (simp add: key_bit_def)
  qed
qed

definition agrees_outside :: "nat set \<Rightarrow> byte list \<Rightarrow> byte list \<Rightarrow> bool" where
  "agrees_outside P orig k \<longleftrightarrow> length k = length orig \<and>
     (\<forall>p < 8 * length orig. p \<notin> P \<longrightarrow> key_bit k p = key_bit orig p)"

lemma enumerate_search:
  assumes "\<forall>t < n. bpos (infos ! t) < 8 * length orig" "inj_on (\<lambda>t. bpos (infos ! t)) {..<n}"
  shows "agrees_outside ((\<lambda>t. bpos (infos ! t)) ` {..<n}) orig (fst (enumerate_keys_search orig infos n)) \<and>
    set (snd (enumerate_keys_search orig infos n)) =
      {k. agrees_outside ((\<lambda>t. bpos (infos ! t)) ` {..<n}) orig k} \<and>
    distinct (snd (enumerate_keys_search orig infos n)) \<and>
    length (snd (enumerate_keys_search orig infos n)) = 2 ^ n"
  using assms
proof (induction n arbitrary: orig)
  case 0
  then show ?case by (auto simp: agrees_outside_def intro!: key_ext)
next
  case (Suc n)
  define P where "P = (\<lambda>t. bpos (infos ! t)) ` {..<n}"
  define q where "q = bpos (infos ! n)"
  define o0 where "o0 = set_bit_at orig q 0"
  obtain o1 ks1 where e1: "enumerate_keys_search o0 infos n = (o1, ks1)" by fastforce
  define o2 where "o2 = set_bit_at o1 q 1"
  obtain o3 ks2 where e2: "enumerate_keys_search o2 infos n = (o3, ks2)" by fastforce
  have e: "enumerate_keys_search orig infos (Suc n) = (o3, ks1 @ ks2)"
    using e1 e2 by (simp add: o0_def o2_def q_def Let_def)
  have inj: "inj_on (\<lambda>t. bpos (infos ! t)) {..<n}" and q: "q < 8 * length orig" "q \<notin> P"
    using Suc.prems by (auto simp: lessThan_Suc q_def P_def)
  have Suc_P: "(\<lambda>t. bpos (infos ! t)) ` {..<Suc n} = insert q P"
    by (simp add: lessThan_Suc P_def q_def)
  have ih1: "agrees_outside P o0 o1" "set ks1 = {k. agrees_outside P o0 k}" "distinct ks1" "length ks1 = 2 ^ n"
    using Suc.IH [of o0] Suc.prems(1) inj e1 by (simp_all add: o0_def P_def)
  then have l: "length o1 = length orig" by (simp add: agrees_outside_def o0_def)
  have ih2: "agrees_outside P o2 o3" "set ks2 = {k. agrees_outside P o2 k}" "distinct ks2" "length ks2 = 2 ^ n"
    using Suc.IH [of o2] Suc.prems(1) inj e2 l by (simp_all add: o2_def P_def)
  have kb: "key_bit o0 p = (if p = q then False else key_bit orig p)"
    "key_bit o2 p = (if p = q then True else key_bit o1 p)" if "p < 8 * length orig" for p
    using key_bit_set_bit_at [of q orig p 0] key_bit_set_bit_at [of q o1 p 1] q(1) l that
    by (simp_all add: o0_def o2_def)
  have a1: "agrees_outside P o0 k \<longleftrightarrow> agrees_outside (insert q P) orig k \<and> \<not> key_bit k q" for k
    using q kb by (auto simp: agrees_outside_def o0_def)
  have a2: "agrees_outside P o2 k \<longleftrightarrow> agrees_outside (insert q P) orig k \<and> key_bit k q" for k
    using q kb ih1(1) l by (auto simp: agrees_outside_def o0_def o2_def)
  have "agrees_outside (insert q P) orig o3" using ih2(1) a2 by simp
  then show ?case
    unfolding e Suc_P using ih1 ih2 a1 a2 by auto
qed

text \<open>C39: For undecided positions inside the key and pairwise different, the enumeration writes every
  key that agrees with the template at all other bits, each exactly once: \<open>2 ^ n\<close> keys.\<close>

theorem enumerate_keys_complete:
  assumes "\<forall>t < n. bpos (infos ! t) < 8 * length orig" "inj_on (\<lambda>t. bpos (infos ! t)) {..<n}"
  shows "set (snd (enumerate_keys_search orig infos n)) =
      {k. agrees_outside ((\<lambda>t. bpos (infos ! t)) ` {..<n}) orig k} \<and>
    distinct (snd (enumerate_keys_search orig infos n)) \<and>
    length (snd (enumerate_keys_search orig infos n)) = 2 ^ n"
  using enumerate_search [OF assms] by blast

lemma enumerate_keys_complete_witness:
  "length (snd (enumerate_keys_search [0xa0]
     [\<lparr>bpos = 1, bguess = 0, bprob = 0\<rparr>, \<lparr>bpos = 6, bguess = 1, bprob = 0\<rparr>] 2)) = 4"
proof -
  let ?is = "[\<lparr>bpos = 1, bguess = 0, bprob = 0\<rparr>, \<lparr>bpos = 6, bguess = 1, bprob = 0\<rparr>] :: bit_info list"
  have "\<forall>t < 2. bpos (?is ! t) < 8 * length [0xa0 :: byte]" "inj_on (\<lambda>t. bpos (?is ! t)) {..<2}"
    by (auto simp: less_2_cases_iff inj_on_def numeral_2_eq_2 less_Suc_eq)
  from enumerate_keys_complete [OF this] show ?thesis by simp
qed

section \<open>The candidate estimate is the least matching counter\<close>

lemma sint_min32: "sint (min32 a b) = min (sint a) (sint b)"
  by (simp add: min32_def)

text \<open>The counter a key matches at position \<open>p\<close>: the total for 0, else that of its bit.\<close>

definition matched :: "i32 list \<Rightarrow> nat \<Rightarrow> byte list \<Rightarrow> nat \<Rightarrow> i32" where
  "matched row n key p =
     (if p = 0 then row ! 0 else if key_bit key (p - 1) then row ! p else row ! (p + n))"

lemma Min_insert_range:
  "sint (min32 a b) = Min (insert (sint b) S)" if "sint a = Min S" "finite S" "S \<noteq> {}"
  using that by (simp add: sint_min32 min.commute)

lemma est_byte_min:
  assumes "8 \<le> len" "finite S" "S \<noteq> {}" "sint est = Min S"
  shows "snd (est_byte row n val (est, len)) = len - 8 \<and>
    sint (fst (est_byte row n val (est, len))) =
      Min (S \<union> (\<lambda>p. sint (if bit val (len - p) then row ! p else row ! (p + n))) ` {len - 8 <.. len})"
proof -
  define g where "g p = sint (if bit val (len - p) then row ! p else row ! (p + n))" for p
  define I where "I j s \<longleftrightarrow> (case s of (e, v, l) \<Rightarrow> v = drop_bit j val \<and> l = len - j \<and>
      sint e = Min (S \<union> g ` {len - j <.. len}))" for j :: nat and s :: "i32 \<times> byte \<times> nat"
  have "I 8 (for_upto 8 (\<lambda>j. est_bit row n) (est, val, len))"
  proof (rule for_upto_rule)
    show "I 0 (est, val, len)" using assms(4) by (simp add: I_def)
    fix j s assume j: "j < (8::nat)" and "I j s"
    then obtain e where s: "s = (e, drop_bit j val, len - j)" and e: "sint e = Min (S \<union> g ` {len - j <.. len})"
      by (cases s) (auto simp: I_def)
    have b: "drop_bit j val AND 1 = 1 \<longleftrightarrow> bit val j"
      unfolding and_one_odd by (simp add: bit_drop_bit_eq del: bit_0)
    have d: "drop_bit 1 (drop_bit j val) = drop_bit (Suc j) val" by (simp add: drop_bit_drop_bit)
    define v where "v = (if bit val j then row ! (len - j) else row ! (len - j + n))"
    have r: "est_bit row n s = (min32 e v, drop_bit (Suc j) val, len - Suc j)"
      unfolding s est_bit_def by (simp add: b v_def d del: drop_bit_Suc)
    have gv: "g (len - j) = sint v" using j assms(1) by (simp add: g_def v_def)
    have set: "{len - Suc j <.. len} = insert (len - j) {len - j <.. len}" using j assms(1) by auto
    have "sint (min32 e v) = Min (insert (sint v) (S \<union> g ` {len - j <.. len}))"
      by (rule Min_insert_range [OF e]) (use assms(2,3) in auto)
    then show "I (Suc j) (est_bit row n s)" unfolding r by (simp add: I_def set gv)
  qed
  then show ?thesis by (auto simp: I_def est_byte_def g_def split: prod.splits)
qed

lemma est_in_row_min:
  assumes "n = 8 * m"
  shows "sint (est_in_row row n key) = Min ((\<lambda>p. sint (matched row n key p)) ` {..n})"
proof -
  define I where "I i s \<longleftrightarrow> (case s of (e, len) \<Rightarrow> len = n - 8 * i \<and>
      sint e = Min ((\<lambda>p. sint (matched row n key p)) ` insert 0 {n - 8 * i <.. n}))"
    for i :: nat and s :: "i32 \<times> nat"
  have "I (n div 8) (for_upto (n div 8) (\<lambda>i. est_byte row n (key ! (n div 8 - 1 - i))) (row ! 0, n))"
  proof (rule for_upto_rule)
    show "I 0 (row ! 0, n)" by (simp add: I_def matched_def)
    fix i s assume i: "i < n div 8" and "I i s"
    then obtain e where s: "s = (e, n - 8 * i)"
      and e: "sint e = Min ((\<lambda>p. sint (matched row n key p)) ` insert 0 {n - 8 * i <.. n})"
      by (cases s) (auto simp: I_def)
    have nm: "n div 8 = m" "8 \<le> n - 8 * i" using i assms by auto
    have kb: "bit (key ! (m - 1 - i)) (n - 8 * i - p) \<longleftrightarrow> key_bit key (p - 1)"
      if "p \<in> {n - 8 * i - 8 <.. n - 8 * i}" for p
      using key_bit_in_byte [of n m i p key] that assms i nm(1) by simp
    let ?b = "key ! (m - 1 - i)"
    have img: "(\<lambda>p. sint (if bit ?b (n - 8 * i - p) then row ! p else row ! (p + n))) `
        {n - 8 * i - 8 <.. n - 8 * i} =
      (\<lambda>p. sint (matched row n key p)) ` {n - 8 * i - 8 <.. n - 8 * i}"
      using kb by (intro image_cong) (auto simp: matched_def)
    have un: "insert 0 {n - 8 * i <.. n} \<union> {n - 8 * i - 8 <.. n - 8 * i} = insert 0 {n - 8 * Suc i <.. n}"
      using nm(2) by auto
    have "snd (est_byte row n ?b s) = n - 8 * i - 8 \<and>
      sint (fst (est_byte row n ?b s)) = Min ((\<lambda>p. sint (matched row n key p)) ` insert 0 {n - 8 * i <.. n} \<union>
        (\<lambda>p. sint (matched row n key p)) ` {n - 8 * i - 8 <.. n - 8 * i})"
      unfolding s img [symmetric] by (rule est_byte_min [OF nm(2)]) (use e in auto)
    then show "I (Suc i) (est_byte row n (key ! (n div 8 - 1 - i)) s)"
      unfolding image_Un [symmetric] un nm(1) by (auto simp: I_def split: prod.splits)
  qed
  moreover have "insert 0 {n - 8 * (n div 8) <.. n} = {..n}" using assms by auto
  ultimately show ?thesis by (auto simp: I_def est_in_row_def split: prod.splits)
qed

lemma est_candidate_min:
  assumes "8 dvd lgn skl"
  shows "sint (est_candidate skl start key) = Min (insert (sint (counts skl ! start ! 0))
    ((\<lambda>(k, p). sint (matched (counts skl ! (k * width skl + bucket_of skl k key)) (lgn skl) key p)) `
      ({..<depth skl} \<times> {..lgn skl})))"
proof -
  obtain m where m: "lgn skl = 8 * m" using assms by blast
  define R where "R k = counts skl ! (k * width skl + bucket_of skl k key)" for k
  define f where "f = (\<lambda>(k, p). sint (matched (R k) (lgn skl) key p))"
  define I where "I k e \<longleftrightarrow> sint e = Min (insert (sint (counts skl ! start ! 0)) (f ` ({..<k} \<times> {..lgn skl})))"
    for k :: nat and e :: i32
  have "I (depth skl) (est_candidate skl start key)"
    unfolding est_candidate_def R_def [symmetric]
  proof (rule for_upto_rule)
    show "I 0 (counts skl ! start ! 0)" by (simp add: I_def)
    fix k e assume "k < depth skl" "I k e"
    let ?S = "insert (sint (counts skl ! start ! 0)) (f ` ({..<k} \<times> {..lgn skl}))"
    let ?T = "(\<lambda>p. sint (matched (R k) (lgn skl) key p)) ` {..lgn skl}"
    have s: "{..<Suc k} \<times> {..lgn skl} = {..<k} \<times> {..lgn skl} \<union> Pair k ` {..lgn skl}"
      by (auto simp: lessThan_Suc)
    have "f ` Pair k ` {..lgn skl} = ?T" by (auto simp: f_def image_image)
    then have S': "insert (sint (counts skl ! start ! 0)) (f ` ({..<Suc k} \<times> {..lgn skl})) = ?S \<union> ?T"
      unfolding s image_Un by auto
    have "sint (min32 e (est_in_row (R k) (lgn skl) key)) = min (Min ?S) (Min ?T)"
      using \<open>I k e\<close> est_in_row_min [OF m, of "R k" key] by (simp add: sint_min32 I_def)
    also have "\<dots> = Min (?S \<union> ?T)" by (rule Min_Un [symmetric]) auto
    finally show "I (Suc k) (min32 e (est_in_row (R k) (lgn skl) key))" unfolding I_def S' .
  qed
  then show ?thesis by (simp add: I_def f_def R_def)
qed

section \<open>What the identification reports\<close>

definition found_ok :: "skl_t \<Rightarrow> dbl \<Rightarrow> nat \<Rightarrow> found list \<Rightarrow> bool" where
  "found_ok skl ratio max_ret fs \<longleftrightarrow> distinct (map fkey fs) \<and> length fs \<le> max_ret \<and>
     (\<forall>f \<in> set fs. \<exists>i < depth skl.
        fval f = est_candidate skl (i * width skl + bucket_of skl i (fkey f)) (fkey f) \<and>
        ratio * cnt (counts skl ! (i * width skl + bucket_of skl i (fkey f)) ! 0) \<le> cnt (fval f))"

lemma try_guess_ok:
  assumes "try_guess skl ratio max_ret i j infos g fs = Inr fs'" "found_ok skl ratio max_ret fs" "i < depth skl"
  shows "found_ok skl ratio max_ret fs'"
proof (cases "fs' = fs")
  case False
  then have g: "bucket_of skl i g = j" "g \<notin> fkey ` set fs" "length fs \<noteq> max_ret"
    and fs': "ratio * cnt (counts skl ! (i * width skl + j) ! 0) \<le> cnt (est_candidate skl (i * width skl + j) g)"
    "fs' = fs @ [\<lparr>fkey = g, fval = est_candidate skl (i * width skl + j) g,
       fconfs = confidences (lgn skl) g infos\<rparr>]"
    using assms(1) by (auto simp: try_guess_def Let_def split: if_splits)
  then show ?thesis using assms(2,3) by (auto simp: found_ok_def)
qed (use assms in simp)

lemma try_guesses_ok:
  "try_guesses skl ratio max_ret i j infos gs fs = Inr fs' \<Longrightarrow> found_ok skl ratio max_ret fs \<Longrightarrow>
    i < depth skl \<Longrightarrow> found_ok skl ratio max_ret fs'"
  by (induction gs arbitrary: fs) (auto dest: try_guess_ok)

lemma identify_bucket_ok:
  assumes "identify_bucket erf skl ratio max_ret i j st = Inr st'" "found_ok skl ratio max_ret (snd st)"
    "i < depth skl"
  shows "found_ok skl ratio max_ret (snd st')"
  using assms try_guesses_ok by (cases st) (auto simp: identify_bucket_def Let_def split: prod.splits)

lemma compute_bit_dists_keeps:
  "compute_bit_dists skl0 = Inr skl \<Longrightarrow>
    skl = skl0\<lparr>bit_mean := bit_mean skl, bit_std := bit_std skl\<rparr>"
  by (auto simp: compute_bit_dists_def Let_def split: if_splits)

lemma found_ok_dists: "found_ok (skl\<lparr>bit_mean := m, bit_std := d\<rparr>) = found_ok skl"
proof -
  have b: "bucket_of (skl\<lparr>bit_mean := m, bit_std := d\<rparr>) = bucket_of skl"
    by (simp add: bucket_of_def fun_eq_iff)
  then have "est_candidate (skl\<lparr>bit_mean := m, bit_std := d\<rparr>) = est_candidate skl"
    by (simp add: est_candidate_def fun_eq_iff)
  then show ?thesis using b by (simp add: found_ok_def fun_eq_iff)
qed

lemma identify_ok:
  assumes "SKL_Identify_Thresh erf skl0 ratio max_ret template = Inr (skl, fs)"
  shows "found_ok skl0 ratio max_ret fs \<and> skl = skl0\<lparr>bit_mean := bit_mean skl, bit_std := bit_std skl\<rparr>"
proof -
  obtain template' where c: "compute_bit_dists skl0 = Inr skl" and l:
    "for_res (depth skl) (\<lambda>i. for_res (width skl) (\<lambda>j. identify_bucket erf skl ratio max_ret i j))
      (template, []) = Inr (template', fs)"
    using assms by (auto simp: SKL_Identify_Thresh_def)
  have "found_ok skl ratio max_ret (snd (template', fs))"
  proof (rule for_res_rule [OF l, where I = "\<lambda>_ st. found_ok skl ratio max_ret (snd st)"])
    show "found_ok skl ratio max_ret (snd (template, []))" by (simp add: found_ok_def)
    fix i st st' assume i: "i < depth skl" and st: "found_ok skl ratio max_ret (snd st)"
      and r: "for_res (width skl) (\<lambda>j. identify_bucket erf skl ratio max_ret i j) st = Inr st'"
    show "found_ok skl ratio max_ret (snd st')"
      by (rule for_res_rule [OF r, where I = "\<lambda>_ st. found_ok skl ratio max_ret (snd st)"])
        (use st i identify_bucket_ok in auto)
  qed
  moreover note d = compute_bit_dists_keeps [OF c]
  ultimately show ?thesis by (metis found_ok_dists snd_conv)
qed

lemma est_candidate_own:
  assumes "skl_ok skl" "i < depth skl"
  shows "sint (est_candidate skl (i * width skl + bucket_of skl i key) key) =
    Min ((\<lambda>(k, p). sint (matched (counts skl ! (k * width skl + bucket_of skl k key)) (lgn skl) key p)) `
      ({..<depth skl} \<times> {..lgn skl}))"
proof -
  let ?f = "\<lambda>(k, p). sint (matched (counts skl ! (k * width skl + bucket_of skl k key)) (lgn skl) key p)"
  have "?f (i, 0) \<in> ?f ` ({..<depth skl} \<times> {..lgn skl})" using assms(2) by (intro imageI) simp
  then have "insert (sint (counts skl ! (i * width skl + bucket_of skl i key) ! 0))
      (?f ` ({..<depth skl} \<times> {..lgn skl})) = ?f ` ({..<depth skl} \<times> {..lgn skl})"
    by (intro insert_absorb) (simp add: matched_def)
  then show ?thesis using est_candidate_min [of skl] assms(1) by (simp add: skl_ok_def)
qed

lemma SKL_Identify_sound_gen:
  assumes "SKL_Identify_Thresh erf skl ratio max_ret template = Inr (skl', fs)" "skl_ok skl"
  shows "distinct (map fkey fs) \<and> length fs \<le> max_ret \<and> counts skl' = counts skl \<and>
    (\<forall>f \<in> set fs.
      sint (fval f) = Min ((\<lambda>(k, p). sint (matched (counts skl ! (k * width skl + bucket_of skl k (fkey f)))
          (lgn skl) (fkey f) p)) ` ({..<depth skl} \<times> {..lgn skl})) \<and>
      (\<exists>i < depth skl.
         ratio * cnt (counts skl ! (i * width skl + bucket_of skl i (fkey f)) ! 0) \<le> cnt (fval f)))"
proof -
  have ok: "found_ok skl ratio max_ret fs" and "counts skl' = counts skl"
    using identify_ok [OF assms(1)] by (auto dest: arg_cong [where f = counts])
  moreover have "sint (fval f) = Min ((\<lambda>(k, p). sint (matched (counts skl ! (k * width skl +
      bucket_of skl k (fkey f))) (lgn skl) (fkey f) p)) ` ({..<depth skl} \<times> {..lgn skl}))"
    if f: "f \<in> set fs" for f
  proof -
    obtain i where i: "i < depth skl"
      "fval f = est_candidate skl (i * width skl + bucket_of skl i (fkey f)) (fkey f)"
      using ok f unfolding found_ok_def by blast
    show ?thesis unfolding i(2) by (rule est_candidate_own [OF assms(2) i(1)])
  qed
  ultimately show ?thesis unfolding found_ok_def by blast
qed

lemma identify_depth:
  assumes "SKL_Identify_Thresh erf skl ratio max_ret template = Inr (skl', fs)" "f \<in> set fs"
  shows "depth skl \<noteq> 0"
  using identify_ok [OF assms(1)] assms(2) by (auto simp: found_ok_def)

text \<open>C22: What the identification reports, whatever the statistics say: no key twice, at most
  \<open>max_ret\<close> keys, each with the least counter it matches over all rows and bits as its size, and
  that size is at least the share \<open>ratio\<close> of one of its buckets.\<close>

theorem SKL_Identify_sound:
  assumes "SKL_Identify_Thresh erf skl ratio max_ret template = Inr (skl', fs)" "skl_ok skl"
  shows "distinct (map fkey fs) \<and> length fs \<le> max_ret \<and> counts skl' = counts skl \<and>
    (\<forall>f \<in> set fs.
      sint (fval f) = Min ((\<lambda>(k, p). sint (matched (counts skl ! (k * width skl + bucket_of skl k (fkey f)))
          (lgn skl) (fkey f) p)) ` ({..<depth skl} \<times> {..lgn skl})) \<and>
      (\<exists>i < depth skl.
         ratio * cnt (counts skl ! (i * width skl + bucket_of skl i (fkey f)) ! 0) \<le> cnt (fval f)))"
  by (rule SKL_Identify_sound_gen [OF assms])

section \<open>Reported sizes are never below the true sizes\<close>

definition flow_total :: "(byte list \<times> i32) list \<Rightarrow> byte list \<Rightarrow> int" where
  "flow_total kvs key = sum_list (map (\<lambda>kv. sint (snd kv)) (filter (\<lambda>kv. fst kv = key) kvs))"

lemma sint_sum_list:
  "\<forall>kv \<in> set xs. 0 \<le> sint (snd kv :: i32) \<Longrightarrow> sum_list (map (\<lambda>kv. sint (snd kv)) xs) < 2 ^ 31 \<Longrightarrow>
    sint (sum_list (map snd xs)) = sum_list (map (\<lambda>kv. sint (snd kv)) xs)"
proof (induction xs)
  case (Cons x xs)
  have n: "0 \<le> sum_list (map (\<lambda>kv. sint (snd kv)) xs)"
    using Cons.prems(1) by (intro sum_list_nonneg) auto
  have ih: "sint (sum_list (map snd xs)) = sum_list (map (\<lambda>kv. sint (snd kv)) xs)"
    using Cons n by simp
  let ?n = "sint (snd x) + sum_list (map (\<lambda>kv. sint (snd kv)) xs)"
  have "snd x + sum_list (map snd xs) = word_of_int ?n" by (simp flip: ih)
  moreover have "sint (word_of_int ?n :: i32) = ?n"
    using Cons.prems n by (intro sint_of_int_i32) auto
  ultimately show ?case by simp
qed simp

lemma sum_list_filter_mono:
  assumes "\<forall>x \<in> set xs. 0 \<le> (f x :: int)" "\<And>x. P x \<Longrightarrow> Q x"
  shows "sum_list (map f (filter P xs)) \<le> sum_list (map f (filter Q xs))"
  using assms by (induction xs) (auto intro: add_increasing)

lemma flow_total_le_selected:
  assumes "\<forall>kv \<in> set kvs. 0 \<le> sint (snd kv)" "sum_list (map (\<lambda>kv. sint (snd kv)) kvs) < 2 ^ 31" "P key"
  shows "flow_total kvs key \<le> sint (sum_selected skl kvs P)"
proof -
  let ?f = "\<lambda>kv. sint (snd kv)"
  have "sum_list (map ?f (filter (\<lambda>kv. P (fst kv)) kvs)) \<le> sum_list (map ?f (filter (\<lambda>_. True) kvs))"
    using assms(1) by (intro sum_list_filter_mono) auto
  then have "sint (sum_selected skl kvs P) = sum_list (map ?f (filter (\<lambda>kv. P (fst kv)) kvs))"
    using assms(1,2) unfolding sum_selected_def by (intro sint_sum_list) auto
  moreover have "flow_total kvs key \<le> sum_list (map ?f (filter (\<lambda>kv. P (fst kv)) kvs))"
    unfolding flow_total_def using assms(1,3) by (intro sum_list_filter_mono) auto
  ultimately show ?thesis by simp
qed

lemma completed_sketch_sel:
  assumes "same_sketch u s"
  shows "skl_ok u" "bucket_of u = bucket_of s" "width u = width s" "lgn u = lgn s" "depth u = depth s"
  using assms by (auto simp: same_sketch_def bucket_of_def fun_eq_iff)

lemma matched_ge_flow:
  assumes "fresh_sketch s" "\<forall>kv \<in> set kvs. 0 \<le> sint (snd kv)"
    "sum_list (map (\<lambda>kv. sint (snd kv)) kvs) < 2 ^ 31"
    and "SKL_CompleteZeroes (run_sketch SKL_Update kvs s) = Inr u" "k < depth u" "p \<le> lgn u"
  shows "flow_total kvs key \<le> sint (matched (counts u ! (k * width u + bucket_of u k key)) (lgn u) key p)"
proof -
  note ok = fresh_sketch_ok [OF assms(1)]
  note u = completed_sketch_sel [OF completed_same [OF ok assms(4)]]
  define j where "j = bucket_of s k key"
  have j: "j < width s" using bucket_of_less ok by (simp add: j_def skl_ok_def)
  have ks: "k < depth s" using assms(5) u(5) by simp
  show ?thesis
  proof (cases "p = 0")
    case True
    have "cell u (k * width s + j, 0) = sum_selected s kvs (\<lambda>key. bucket_of s k key = j)"
      using completed_cells [OF assms(1,4) ks j] by blast
    then show ?thesis
      using flow_total_le_selected [OF assms(2,3), of "\<lambda>key. bucket_of s k key = j" key s] True u
      by (simp add: matched_def cell_def j_def)
  next
    case False
    note c = completed_cells [OF assms(1,4) ks j, of p]
    show ?thesis
      using flow_total_le_selected [OF assms(2,3), of "\<lambda>key. bucket_of s k key = j \<and> key_bit key (p - 1)" key s]
        flow_total_le_selected [OF assms(2,3), of "\<lambda>key. bucket_of s k key = j \<and> \<not> key_bit key (p - 1)" key s]
        c False assms(6) u by (simp add: matched_def cell_def j_def)
  qed
qed

lemma identify_no_underestimate_gen:
  assumes "fresh_sketch s" "\<forall>kv \<in> set kvs. 0 \<le> sint (snd kv)"
    "sum_list (map (\<lambda>kv. sint (snd kv)) kvs) < 2 ^ 31"
    and "SKL_CompleteZeroes (run_sketch SKL_Update kvs s) = Inr u"
    and "SKL_Identify_Thresh erf u ratio max_ret template = Inr (u', fs)" "f \<in> set fs"
  shows "flow_total kvs (fkey f) \<le> sint (fval f)"
proof -
  let ?k = "fkey f"
  have u: "skl_ok u"
    by (rule completed_sketch_sel(1) [OF completed_same [OF fresh_sketch_ok [OF assms(1)] assms(4)]])
  let ?m = "\<lambda>(k, p). sint (matched (counts u ! (k * width u + bucket_of u k ?k)) (lgn u) ?k p)"
  have e: "sint (fval f) = Min (?m ` ({..<depth u} \<times> {..lgn u}))"
    using SKL_Identify_sound_gen [OF assms(5) u] assms(6) by blast
  have "depth u \<noteq> 0" using identify_depth [OF assms(5)] assms(6) by auto
  moreover have "\<forall>x \<in> ?m ` ({..<depth u} \<times> {..lgn u}). flow_total kvs ?k \<le> x"
    using matched_ge_flow [OF assms(1-4)] by auto
  ultimately show ?thesis unfolding e by (intro Min.boundedI) auto
qed

text \<open>C6: On the completed sketch of a stream of non-negative sizes whose total fits in 31 bits, the
  size reported for a flow is never less than the flow's true size, whatever the thresholds and
  the bit statistics are.\<close>

theorem SKL_Identify_no_underestimate:
  assumes "fresh_sketch s" "\<forall>kv \<in> set kvs. 0 \<le> sint (snd kv)"
    "sum_list (map (\<lambda>kv. sint (snd kv)) kvs) < 2 ^ 31"
    and "SKL_CompleteZeroes (run_sketch SKL_Update kvs s) = Inr u"
    and "SKL_Identify_Thresh erf u ratio max_ret template = Inr (u', fs)" "f \<in> set fs"
  shows "flow_total kvs (fkey f) \<le> sint (fval f)"
  by (rule identify_no_underestimate_gen [OF assms])

end
