(* ===== verification/Sketch_Recovery.thy ===== *)
theory Sketch_Recovery
  imports Sketch_Infer
begin

unbundle bit_operations_syntax

text \<open>
  When the identification of \<^verbatim>\<open>alg_sketchlearn.c\<close> is exact: a bucket whose bit counters settle every
  bit gives back its key, and a flow that has a bucket of some row for itself is reported with
  its exact size.
\<close>

section \<open>The threshold of the bit test\<close>

definition is_ratio :: "dbl \<Rightarrow> bool" where
  "is_ratio r \<longleftrightarrow> dfin r \<and> wf_dbl r \<and> 0 \<le> dval r \<and> dval r < 1"

lemma rnd_tiny: "p2 (- 1074) \<le> x \<Longrightarrow> 0 < rnd x"
  using rnd_mono [of "p2 (- 1074)" x] rnd_representable [of 1 "- 1074"] p2_pos [of "- 1074"]
  by (simp del: p2_pos)

lemma rnd_le_int: "0 \<le> x \<Longrightarrow> x \<le> real m \<Longrightarrow> m < 2 ^ 53 \<Longrightarrow> rnd x \<le> real m"
  using rnd_mono [of x "real m"] rnd_int by simp

lemma wf_dbl_gap:
  assumes "wf_dbl x" "dfin x" "dval x < 1"
  shows "p2 (- 1074) \<le> 1 - dval x"
proof -
  obtain s m e where x: "x = Fin s m e" using assms(2) by (cases x) auto
  have e: "- 1074 \<le> e \<or> m = 0" using assms(1) x by auto
  have one: "(1::real) = real_of_int (2 ^ 1074) * p2 (- 1074)" by (simp add: p2_def powr_realpow)
  have "\<exists>k. dval x = real_of_int k * p2 (- 1074)"
  proof (cases "m = 0")
    case False
    then have "p2 e = 2 ^ nat (e + 1074) * p2 (- 1074)"
      using e p2_nat [of "e + 1074"] p2_add [of "e + 1074" "- 1074"] by simp
    then have "dval x = real_of_int ((if s then - 1 else 1) * int m * 2 ^ nat (e + 1074)) * p2 (- 1074)"
      by (simp add: x)
    then show ?thesis by blast
  qed (auto simp: x intro: exI [of _ 0])
  then obtain k where k: "dval x = real_of_int k * p2 (- 1074)" by blast
  have d: "1 - dval x = real_of_int (2 ^ 1074 - k) * p2 (- 1074)"
    unfolding k by (subst one) (simp only: of_int_diff left_diff_distrib)
  then have "0 < real_of_int (2 ^ 1074 - k) * p2 (- 1074)" using assms(3) by linarith
  then have "1 \<le> 2 ^ 1074 - k" by (simp add: zero_less_mult_iff)
  then have "1 \<le> real_of_int (2 ^ 1074 - k)" by linarith
  from mult_right_mono [OF this, of "p2 (- 1074)"] show ?thesis unfolding d by simp
qed

lemma cnt_exact: "dfin (cnt c) \<and> wf_dbl (cnt c) \<and> dval (cnt c) = real_of_int (sint c)"
  using dbl_of_int_exact [of "sint c"] sint_i32_range [of c] by (simp add: cnt_def)

lemma one_dbl: "dfin (1 :: dbl)" "dval (1 :: dbl) = 1"
  using p2_add [of 52 "- 52"] p2_numeral [of "num.Bit0 (num.Bit0 (num.Bit1 (num.Bit0 (num.Bit1 num.One))))"]
  by (simp_all add: one_dbl_def)

lemma threshold:
  assumes "is_ratio r" "0 \<le> sint V"
  shows "(1 - r) * cnt V \<le> cnt V" "0 < sint V \<Longrightarrow> \<not> (1 - r) * cnt V \<le> cnt 0" "r * cnt V \<le> cnt V"
proof -
  define v where "v = nat (sint V)"
  have v: "real v = dval (cnt V)" "v < 2 ^ 53"
    using assms(2) sint_i32_range [of V] cnt_exact [of V] by (simp_all add: v_def)
  note r = assms(1) [unfolded is_ratio_def]
  have big: "real v < p2 1024" using p2_1024_big [OF v(2)] .
  define y where "y = dval (1 - r)"
  have b1: "rnd \<bar>1 - dval r\<bar> \<le> 1" using rnd_le_int [of "1 - dval r" 1] r by simp
  have "rnd \<bar>1 - dval r\<bar> < p2 1024" using b1 p2_1024_big [of 1] by simp
  then have y1: "dfin (1 - r)" "y = rnd (1 - dval r)"
    using dval_dsub [of 1 r] r one_dbl by (simp_all add: minus_dbl_def y_def rndr_def)
  have y: "0 < y" "y \<le> 1" using rnd_tiny [OF wf_dbl_gap] r b1 y1 by auto
  have p: "x * real v < p2 1024 \<and> rnd (x * real v) \<le> real v" if "0 \<le> x" "x \<le> 1" for x
  proof -
    have "x * real v \<le> real v" using that mult_right_mono [of x 1 "real v"] by simp
    then show ?thesis using rnd_le_int [of "x * real v" v] that v(2) big by auto
  qed
  have m: "dfin (x * cnt V) \<and> dval (x * cnt V) = rnd (dval x * real v)"
    if "dfin x" "0 \<le> dval x" "dval x \<le> 1" for x
  proof -
    have "0 \<le> dval x * real v" using that by simp
    then have a: "\<bar>dval x * real v\<bar> = dval x * real v" "rndr (dval x * real v) = rnd (dval x * real v)"
      by (simp_all add: rndr_def)
    have "rnd \<bar>dval x * dval (cnt V)\<bar> < p2 1024"
      using p [of "dval x"] that big unfolding v(1) [symmetric] a(1) by linarith
    then have "dfin (x * cnt V) \<and> dval (x * cnt V) = rndr (dval x * dval (cnt V))"
      using dval_dmul [of x "cnt V"] cnt_exact [of V] that(1) by (simp add: times_dbl_def)
    then show ?thesis unfolding v(1) [symmetric] a(2) .
  qed
  note m1 = m [of "1 - r"] and m2 = m [of r]
  show "(1 - r) * cnt V \<le> cnt V"
    using m1 y y1 p [of y] cnt_exact [of V] v(1) by (simp add: less_eq_dbl_def dle_iff y_def)
  show "r * cnt V \<le> cnt V"
    using m2 r p [of "dval r"] cnt_exact [of V] v(1) by (simp add: less_eq_dbl_def dle_iff)
  assume "0 < sint V"
  then have "1 \<le> v" by (simp add: v_def)
  then have "1 \<le> real v" by simp
  have "0 < rnd (y * real v)"
  proof -
    have "p2 (- 1074) \<le> y"
      using rnd_mono [OF _ wf_dbl_gap [of r]] rnd_representable [of 1 "- 1074"] r y1(2) by simp
    also have "y \<le> y * real v" using y \<open>1 \<le> real v\<close> mult_left_mono [of 1 "real v" y] by simp
    finally show ?thesis by (rule rnd_tiny)
  qed
  then show "\<not> (1 - r) * cnt V \<le> cnt 0"
    using m1 y y1 cnt_exact [of 0] by (simp add: less_eq_dbl_def dle_iff y_def)
qed

section \<open>A bucket whose counters settle every bit\<close>

definition settles :: "i32 list \<Rightarrow> nat \<Rightarrow> dbl \<Rightarrow> byte list \<Rightarrow> bool" where
  "settles cn n ratio key \<longleftrightarrow> (\<forall>p < n.
     if key_bit key p then (1 - ratio) * cnt (cn ! 0) \<le> cnt (cn ! (p + 1))
     else \<not> (1 - ratio) * cnt (cn ! 0) \<le> cnt (cn ! (p + 1)) \<and>
       (1 - ratio) * cnt (cn ! 0) \<le> cnt (cn ! (p + 1 + n)))"

lemma ucast_bit: "r < 8 \<Longrightarrow> ucast (push_bit r (1 :: u64)) = (push_bit r 1 :: byte)"
  by (rule bit_word_eqI) (auto simp: bit_ucast_iff push_bit_of_1 bit_exp_iff possible_bit_word)

lemma take_bit_8: "take_bit 8 (b :: byte) = b"
  by (rule take_bit_word_eq_self) simp

lemma take_bit_add_bit:
  fixes b :: byte
  assumes "r < 8"
  shows "take_bit r b + (if bit b r then push_bit r 1 else 0) = take_bit (Suc r) b"
proof (cases "bit b r")
  case True
  have "take_bit r b + push_bit r 1 = take_bit r b OR push_bit r 1"
    by (rule disjunctive_add_eq_or, rule bit_word_eqI) (auto simp: bit_simps)
  also have "\<dots> = take_bit (Suc r) b"
    by (rule bit_word_eqI) (use True assms in \<open>auto simp: bit_simps less_Suc_eq\<close>)
  finally show ?thesis using True by simp
next
  case False
  have "take_bit r b = take_bit (Suc r) b"
    by (rule bit_word_eqI) (use False in \<open>auto simp: bit_simps less_Suc_eq\<close>)
  then show ?thesis using False by simp
qed

definition certain :: "byte list \<Rightarrow> nat \<Rightarrow> bit_info" where
  "certain key p = \<lparr>bpos = p, bguess = get_bit key p, bprob = 1\<rparr>"

lemma find_bit_settled:
  assumes "settles cn n ratio key" "p < n"
  shows "find_bit erf cn n ratio mean std (Suc p) st =
    st\<lparr>fk := fk st + (if key_bit key p then ucast (fj st) else 0), finfos := finfos st @ [certain key p]\<rparr>"
proof (cases "key_bit key p")
  case True
  then have "(1 - ratio) * cnt (cn ! 0) \<le> cnt (cn ! Suc p)"
    using assms unfolding settles_def by auto
  then show ?thesis using True by (simp add: find_bit_def Let_def certain_def get_bit_key_bit)
next
  case False
  then have "\<not> (1 - ratio) * cnt (cn ! 0) \<le> cnt (cn ! Suc p)"
    "(1 - ratio) * cnt (cn ! 0) \<le> cnt (cn ! (Suc p + n))"
    using assms unfolding settles_def by auto
  then show ?thesis using False by (simp add: find_bit_def Let_def certain_def get_bit_key_bit)
qed

text \<open>
  The loop over the bits of a settled bucket after \<open>t\<close> of the \<open>n\<close> positions: the bytes it has left
  behind are those of the key, the byte it is in has its first bits.
\<close>

definition settled_upto :: "nat \<Rightarrow> byte list \<Rightarrow> byte list \<Rightarrow> nat \<Rightarrow> find_state \<Rightarrow> bool" where
  "settled_upto n key ret t st \<longleftrightarrow> fj st = push_bit (t mod 8) 1 \<and>
     fk st = take_bit (t mod 8) (key ! (length key - 1 - t div 8)) \<and> fconf st = 1 \<and>
     length (fret st) = length ret \<and>
     (\<forall>q < length ret. fret st ! q = (if length key - t div 8 \<le> q \<and> q < length key then key ! q else ret ! q)) \<and>
     finfos st = map (certain key) (rev [n - t..<n])"

text \<open>Where the position lies: in which byte of the key, and at which bit of it.\<close>

lemma key_bit_position:
  assumes "t < n" "n = 8 * length key"
  shows "n - t = Suc (n - 1 - t)" "(n - 1 - t) div 8 = length key - 1 - t div 8" "t div 8 < length key"
    "key_bit key (n - 1 - t) \<longleftrightarrow> bit (key ! (length key - 1 - t div 8)) (t mod 8)"
    "(n - 1 - t) mod 8 = 7 - t mod 8"
proof -
  have t: "t = 8 * (t div 8) + t mod 8" "t mod 8 < 8" by simp_all
  show d: "t div 8 < length key" using assms t by linarith
  have q: "(8 * q + e) div 8 = q" "(8 * q + e) mod 8 = e" if "e < 8" for q e :: nat using that by simp_all
  have e: "n - 1 - t = 8 * (length key - 1 - t div 8) + (7 - t mod 8)" "7 - t mod 8 < 8" using t d assms by linarith+
  show pm: "(n - 1 - t) div 8 = length key - 1 - t div 8" "(n - 1 - t) mod 8 = 7 - t mod 8"
    unfolding e(1) by (rule q [OF e(2)])+
  show "key_bit key (n - 1 - t) \<longleftrightarrow> bit (key ! (length key - 1 - t div 8)) (t mod 8)"
    using t(2) unfolding key_bit_def pm by simp
qed (use assms in simp)

lemma find_step_settled:
  assumes s: "settles cn n ratio key" and n: "n = 8 * length key" and l: "length key \<le> length ret"
    and t: "t < n" and I: "settled_upto n key ret t st"
  shows "settled_upto n key ret (Suc t) (find_step erf cn n ratio mean std (n - t) st)"
proof -
  define r where "r = t mod 8"
  define d where "d = t div 8"
  define p where "p = n - 1 - t"
  define b where "b = key ! (length key - 1 - d)"
  have t_eq: "t = 8 * d + r" "r < 8" by (simp_all add: r_def d_def)
  note pos = key_bit_position [OF t n, folded p_def r_def d_def]
  note Id = I [unfolded settled_upto_def, folded r_def d_def b_def]
  have p: "p < n" using t by (simp add: p_def)
  have fj: "ucast (fj st) = (push_bit r 1 :: byte)" using Id ucast_bit [OF t_eq(2)] by simp
  define st1 where "st1 = find_bit erf cn n ratio mean std (Suc p) st"
  have fk: "fk st + (if key_bit key p then ucast (fj st) else 0) = take_bit (Suc r) b"
    using take_bit_add_bit [OF t_eq(2), of b] Id unfolding fj pos(4) b_def by presburger
  have st1: "st1 = st\<lparr>fk := take_bit (Suc r) b, finfos := finfos st @ [certain key p]\<rparr>"
    unfolding st1_def find_bit_settled [OF s p] fk ..
  have infos: "finfos st1 = map (certain key) (rev [n - Suc t..<n])"
    using Id pos(1) by (simp add: st1 upt_conv_Cons p_def)
  have step: "find_step erf cn n ratio mean std (n - t) st =
      (if r = 7 then st1\<lparr>fret := (fret st1)[length key - 1 - d := fk st1], fk := 0, fj := 1\<rparr>
       else st1\<lparr>fj := push_bit 1 (fj st1)\<rparr>)"
    using t_eq(2) unfolding find_step_def pos(1) Let_def st1_def [symmetric] by (auto simp: pos(2,5))
  show ?thesis
  proof (cases "r = 7")
    case True
    then have "Suc t = 8 * Suc d" using t_eq by simp
    then have t': "Suc t mod 8 = 0" "Suc t div 8 = Suc d" by simp_all
    have "\<forall>q < length ret. ((fret st)[length key - 1 - d := b]) ! q =
        (if length key - Suc d \<le> q \<and> q < length key then key ! q else ret ! q)"
      using Id pos(3) l by (auto simp: nth_list_update b_def)
    then show ?thesis
      using Id infos True unfolding step settled_upto_def t' st1 by (simp add: take_bit_8)
  next
    case False
    then have "Suc t = 8 * d + Suc r" "Suc r < 8" using t_eq by simp_all
    then have t': "Suc t mod 8 = Suc r" "Suc t div 8 = d" by simp_all
    show ?thesis
      using Id infos False unfolding step settled_upto_def t' st1
      by (simp add: b_def push_bit_push_bit)
  qed
qed

lemma find_key_bits_settled:
  assumes s: "settles cn n ratio key" and n: "n = 8 * length key" and l: "length key \<le> length ret"
  shows "skl_find_key_bits erf cn n ratio mean std ret =
    (1, key @ drop (length key) ret, map (certain key) (rev [0..<n]))"
proof -
  let ?st = "for_upto n (\<lambda>t. find_step erf cn n ratio mean std (n - t))
    \<lparr>fj = 1, fk = 0, fconf = 1, fret = ret, finfos = []\<rparr>"
  have "settled_upto n key ret n ?st"
  proof (rule for_upto_rule [where I = "settled_upto n key ret"])
    show "settled_upto n key ret 0 \<lparr>fj = 1, fk = 0, fconf = 1, fret = ret, finfos = []\<rparr>"
      by (simp add: settled_upto_def linorder_not_less [symmetric])
  qed (rule find_step_settled [OF s n l])
  note st = this [unfolded settled_upto_def]
  have "fret ?st = key @ drop (length key) ret"
    using st n l by (intro nth_equalityI) (auto simp: nth_append)
  then show ?thesis using st by (simp add: skl_find_key_bits_def Let_def)
qed

section \<open>The candidates of a settled bucket\<close>

lemma enumerate_keys_0:
  assumes "n < 2 ^ 31"
  shows "enumerate_keys orig infos 0 n = (orig, [orig])"
proof -
  have z: "dfin (dbl_of_int (int 0))" "dval (dbl_of_int (int 0)) = 0"
    using dbl_of_int_exact [of 0] by simp_all
  have a: "dfin allow_bad_ratio" "0 \<le> dval allow_bad_ratio" "dval allow_bad_ratio \<le> 1"
  proof -
    have e: "allow_bad_ratio = Fin False 7205759403792794 (- 56)" by code_simp
    show "dfin allow_bad_ratio" "0 \<le> dval allow_bad_ratio" by (simp_all add: e)
    have "p2 (- 56) = 1 / 2 ^ 56" using p2_minus [of 56] p2_numeral by simp
    then show "dval allow_bad_ratio \<le> 1" by (simp add: e)
  qed
  have n: "dfin (dbl_of_int (int n))" "dval (dbl_of_int (int n)) = real n"
    using dbl_of_int_exact [of "int n"] assms by simp_all
  have "real n * dval allow_bad_ratio \<le> real n" using mult_left_mono [OF a(3), of "real n"] by simp
  moreover have "0 \<le> real n * dval allow_bad_ratio" using a(2) by simp
  ultimately have "dfin (dmul (dbl_of_int (int n)) allow_bad_ratio) \<and>
      dval (dmul (dbl_of_int (int n)) allow_bad_ratio) = rnd (real n * dval allow_bad_ratio)"
    using dval_dmul [OF n(1) a(1)] n(2) assms rnd_le_int [of "real n * dval allow_bad_ratio" n]
      p2_1024_big [of n] by (simp add: rndr_def)
  then have "dbl_of_int (int 0) \<le> dbl_of_int (int n) * allow_bad_ratio"
    using z rnd_nonneg by (simp add: less_eq_dbl_def times_dbl_def dle_iff)
  then show ?thesis by (simp add: enumerate_keys_def)
qed

lemma undecided_certain:
  "m \<le> length infos \<Longrightarrow> \<forall>x \<in> set infos. bprob x = 1 \<Longrightarrow> undecided infos m = 0"
proof (induction m)
  case (Suc m)
  have "\<not> 1 < min_conf" by code_simp
  then show ?case using Suc by simp
qed simp

lemma try_guess_grows:
  "try_guess skl ratio max_ret i j infos g fs = Inr fs' \<Longrightarrow> \<exists>ys. fs' = fs @ ys"
  by (auto simp: try_guess_def Let_def split: if_splits)

lemma try_guesses_grows:
  "try_guesses skl ratio max_ret i j infos gs fs = Inr fs' \<Longrightarrow> \<exists>ys. fs' = fs @ ys"
proof (induction gs arbitrary: fs)
  case (Cons g gs)
  then obtain fs1 where "try_guess skl ratio max_ret i j infos g fs = Inr fs1"
    "try_guesses skl ratio max_ret i j infos gs fs1 = Inr fs'" by auto
  then show ?case using try_guess_grows Cons.IH by fastforce
qed simp

lemma length_enumerate_search: "length (fst (enumerate_keys_search orig infos n)) = length orig"
proof (induction n arbitrary: orig)
  case (Suc n)
  then show ?case by (simp add: Let_def split_beta)
qed simp

lemma length_find_key_bits:
  "length (fst (snd (skl_find_key_bits erf cn n ratio mean std ret))) = length ret"
proof -
  have "length (fret (for_upto n (\<lambda>t. find_step erf cn n ratio mean std (n - t))
      \<lparr>fj = 1, fk = 0, fconf = 1, fret = ret, finfos = []\<rparr>)) = length ret"
    by (rule for_upto_rule [where I = "\<lambda>_ st. length (fret st) = length ret"])
      (auto simp: find_step_def find_bit_def Let_def split: prod.splits)
  then show ?thesis by (simp add: skl_find_key_bits_def Let_def)
qed

lemma identify_bucket_grows:
  assumes "identify_bucket erf skl ratio max_ret i j (t, fs) = Inr (t', fs')"
  shows "length t' = length t \<and> fkey ` set fs \<subseteq> fkey ` set fs'"
proof -
  obtain conf t1 infos0 where f: "skl_find_key_bits erf (counts skl ! (i * width skl + j)) (lgn skl)
      ratio (bit_mean skl) (bit_std skl) t = (conf, t1, infos0)" by (metis prod_cases3)
  obtain t2 gs where e: "enumerate_keys t1 (qsort cmp_bit_info infos0)
      (undecided (qsort cmp_bit_info infos0) (length (qsort cmp_bit_info infos0))) (lgn skl) = (t2, gs)"
    by fastforce
  have "length t1 = length t" using length_find_key_bits f by (metis fst_conv snd_conv)
  moreover have "length t2 = length t1"
    using e length_enumerate_search by (auto simp: enumerate_keys_def split: if_splits) (metis fst_conv)
  moreover have "t' = t2" "\<exists>ys. fs' = fs @ ys"
    using assms try_guesses_grows e [unfolded length_qsort]
    by (auto simp: identify_bucket_def f Let_def)
  ultimately show ?thesis by auto
qed

lemma identify_bucket_settled:
  assumes "identify_bucket erf skl ratio max_ret i j (t, fs) = Inr (t', fs')"
    and "settles (counts skl ! (i * width skl + j)) (lgn skl) ratio key"
    and "lgn skl = 8 * length key" "length key \<le> length t" "lgn skl < 2 ^ 31" "bucket_of skl i key = j"
    and "ratio * cnt (counts skl ! (i * width skl + j) ! 0) \<le> cnt (est_candidate skl (i * width skl + j) key)"
  shows "key \<in> fkey ` set fs'"
proof -
  let ?is = "qsort cmp_bit_info (map (certain key) (rev [0..<lgn skl]))"
  have "set ?is = set (map (certain key) (rev [0..<lgn skl]))"
    by (metis mset_qsort set_mset_mset)
  then have u: "undecided ?is (length ?is) = 0"
    by (intro undecided_certain) (auto simp: certain_def)
  have tk: "take (lgn skl div 8) (key @ drop (length key) t) = key" using assms(3) by simp
  have "try_guesses skl ratio max_ret i j ?is [key] fs = Inr fs'"
    using assms(1) unfolding identify_bucket_def split find_key_bits_settled [OF assms(2,3,4)] Let_def u
      enumerate_keys_0 [OF assms(5)] list.map tk by auto
  then show ?thesis
    using assms(6,7) by (auto simp: try_guess_def Let_def split: if_splits)
qed

section \<open>Flows with a bucket of their own\<close>

definition isolated :: "skl_t \<Rightarrow> (byte list \<times> i32) list \<Rightarrow> nat \<Rightarrow> byte list \<Rightarrow> bool" where
  "isolated s kvs i key \<longleftrightarrow> (\<forall>kv \<in> set kvs. bucket_of s i (fst kv) = bucket_of s i key \<longrightarrow> fst kv = key)"

lemma sum_selected_isolated:
  assumes "\<forall>kv \<in> set kvs. P (fst kv) \<longrightarrow> fst kv = key"
  shows "sum_selected s kvs P = (if P key then sum_selected s kvs (\<lambda>k. k = key) else 0)"
proof -
  have "filter (\<lambda>kv. P (fst kv)) kvs = filter (\<lambda>kv. P key \<and> fst kv = key) kvs"
    using assms by (intro filter_cong) auto
  then show ?thesis by (simp add: sum_selected_def)
qed

lemma sint_sum_selected_flow:
  assumes "\<forall>kv \<in> set kvs. 0 \<le> sint (snd kv)" "sum_list (map (\<lambda>kv. sint (snd kv)) kvs) < 2 ^ 31"
  shows "sint (sum_selected s kvs (\<lambda>k. k = key)) = flow_total kvs key"
proof -
  have "sum_list (map (\<lambda>kv. sint (snd kv)) (filter (\<lambda>kv. fst kv = key) kvs)) \<le>
      sum_list (map (\<lambda>kv. sint (snd kv)) (filter (\<lambda>_. True) kvs))"
    using assms(1) by (intro sum_list_filter_mono) auto
  then show ?thesis
    using assms unfolding sum_selected_def flow_total_def by (intro sint_sum_list) auto
qed

text \<open>The completed row of the bucket of an isolated flow: every counter is the flow's size or 0.\<close>

lemma isolated_row:
  assumes "fresh_sketch s" "SKL_CompleteZeroes (run_sketch SKL_Update kvs s) = Inr u"
    and "isolated s kvs i key" "i < depth s"
  defines "row \<equiv> counts u ! (i * width s + bucket_of s i key)"
    and "V \<equiv> sum_selected s kvs (\<lambda>k. k = key)"
  shows "row ! 0 = V"
    and "p < lgn s \<Longrightarrow> row ! (p + 1) = (if key_bit key p then V else 0)"
    and "p < lgn s \<Longrightarrow> row ! (p + 1 + lgn s) = (if key_bit key p then 0 else V)"
proof -
  have j: "bucket_of s i key < width s"
    using bucket_of_less fresh_sketch_ok [OF assms(1)] by (simp add: skl_ok_def)
  note c = completed_cells [OF assms(1,2,4) j, unfolded cell_def split]
  have iso: "\<forall>kv \<in> set kvs. bucket_of s i (fst kv) = bucket_of s i key \<and> Q (fst kv) \<longrightarrow> fst kv = key" for Q
    using assms(3) by (auto simp: isolated_def)
  show "row ! 0 = V"
    using c [of 0] sum_selected_isolated [OF iso [of "\<lambda>_. True"]] by (simp add: row_def V_def)
  show "row ! (p + 1) = (if key_bit key p then V else 0)" if "p < lgn s"
    using c [of "p + 1"] that sum_selected_isolated [OF iso [of "\<lambda>k. key_bit k p"]] by (simp add: row_def V_def)
  show "row ! (p + 1 + lgn s) = (if key_bit key p then 0 else V)" if "p < lgn s"
    using c [of "p + 1"] that sum_selected_isolated [OF iso [of "\<lambda>k. \<not> key_bit k p"]] by (simp add: row_def V_def)
qed

lemma isolated_settles:
  assumes "fresh_sketch s" "SKL_CompleteZeroes (run_sketch SKL_Update kvs s) = Inr u"
    and "isolated s kvs i key" "i < depth s" "is_ratio ratio" "0 < sint (sum_selected s kvs (\<lambda>k. k = key))"
  shows "settles (counts u ! (i * width s + bucket_of s i key)) (lgn s) ratio key"
  using isolated_row [OF assms(1-4)] threshold [OF assms(5), of "sum_selected s kvs (\<lambda>k. k = key)"] assms(6)
  unfolding settles_def by auto

lemma isolated_estimate:
  assumes "fresh_sketch s" "\<forall>kv \<in> set kvs. 0 \<le> sint (snd kv)"
    "sum_list (map (\<lambda>kv. sint (snd kv)) kvs) < 2 ^ 31"
    and "SKL_CompleteZeroes (run_sketch SKL_Update kvs s) = Inr u" "isolated s kvs i key" "i < depth s" "r < depth s"
  shows "sint (est_candidate u (r * width u + bucket_of u r key) key) = flow_total kvs key"
proof -
  note u = completed_sketch_sel [OF completed_same [OF fresh_sketch_ok [OF assms(1)] assms(4)]]
  let ?m = "\<lambda>(k, p). sint (matched (counts u ! (k * width u + bucket_of u k key)) (lgn u) key p)"
  let ?I = "{..<depth u} \<times> {..lgn u}"
  have e: "sint (est_candidate u (r * width u + bucket_of u r key) key) = Min (?m ` ?I)"
    using est_candidate_own [OF u(1)] assms(7) u(5) by simp
  have own: "?m (i, 0) = flow_total kvs key"
    using isolated_row(1) [OF assms(1,4,5,6)] sint_sum_selected_flow [OF assms(2,3)] u by (simp add: matched_def)
  have "?m (i, 0) \<in> ?m ` ?I" using assms(6) u(5) by (intro imageI) simp
  then have "Min (?m ` ?I) \<le> flow_total kvs key" unfolding own by (intro Min_le) auto
  moreover have "\<forall>x \<in> ?m ` ?I. flow_total kvs key \<le> x" using matched_ge_flow [OF assms(1-4)] by auto
  moreover have "?I \<noteq> {}" using assms(6) u(5) by auto
  ultimately show ?thesis unfolding e by (intro antisym Min.boundedI) auto
qed

lemma same_dists_cong:
  assumes "skl = u\<lparr>bit_mean := m, bit_std := d\<rparr>"
  shows "bucket_of skl = bucket_of u" "est_candidate skl = est_candidate u" "counts skl = counts u"
    "lgn skl = lgn u" "depth skl = depth u" "width skl = width u"
proof -
  show b: "bucket_of skl = bucket_of u" by (simp add: assms bucket_of_def fun_eq_iff)
  then show "est_candidate skl = est_candidate u" by (simp add: est_candidate_def fun_eq_iff assms)
qed (simp_all add: assms)

lemma identify_bucket_isolated:
  assumes f: "fresh_sketch s" "\<forall>kv \<in> set kvs. 0 \<le> sint (snd kv)"
    "sum_list (map (\<lambda>kv. sint (snd kv)) kvs) < 2 ^ 31"
    and u: "SKL_CompleteZeroes (run_sketch SKL_Update kvs s) = Inr u" "compute_bit_dists u = Inr skl"
    and key: "is_ratio ratio" "lgn s = 8 * length key" "i < depth s" "isolated s kvs i key"
      "0 < flow_total kvs key" "length key \<le> length t"
    and b: "identify_bucket erf skl ratio max_ret i (bucket_of s i key) (t, fs1) = Inr (t2, fs2)"
  shows "key \<in> fkey ` set fs2"
proof (rule identify_bucket_settled [OF b])
  let ?j = "bucket_of s i key" and ?V = "sum_selected s kvs (\<lambda>k. k = key)"
  have V: "sint ?V = flow_total kvs key" by (rule sint_sum_selected_flow [OF f(2,3)])
  note sel = completed_sketch_sel [OF completed_same [OF fresh_sketch_ok [OF f(1)] u(1)]]
    same_dists_cong [OF compute_bit_dists_keeps [OF u(2)]]
  have "sint (est_candidate skl (i * width skl + ?j) key) = sint ?V"
    using isolated_estimate [OF f u(1) key(4,3,3)] V sel by simp
  then have e: "est_candidate skl (i * width skl + ?j) key = ?V" by (simp add: signed_word_eqI)
  show "settles (counts skl ! (i * width skl + ?j)) (lgn skl) ratio key"
    using isolated_settles [OF f(1) u(1) key(4,3,1)] key(5) V sel by simp
  show "ratio * cnt (counts skl ! (i * width skl + ?j) ! 0) \<le> cnt (est_candidate skl (i * width skl + ?j) key)"
    unfolding e using threshold(3) [OF key(1), of ?V] key(5) V isolated_row(1) [OF f(1) u(1) key(4,3)] sel by simp
  show "lgn skl < 2 ^ 31" "lgn skl = 8 * length key" "length key \<le> length t" "bucket_of skl i key = ?j"
    using fresh_sketch_ok [OF f(1)] key sel by (simp_all add: skl_ok_def)
qed

text \<open>What one bucket contributes is in the result of the loop over all buckets.\<close>

lemma identify_loop_keeps:
  assumes l: "for_res d (\<lambda>i. for_res w (\<lambda>j. identify_bucket erf skl ratio max_ret i j)) st = Inr st'"
    and ij: "i < d" "j < w"
    and here: "\<And>t fs t2 fs2. identify_bucket erf skl ratio max_ret i j (t, fs) = Inr (t2, fs2) \<Longrightarrow>
      length t = length (fst st) \<Longrightarrow> key \<in> fkey ` set fs2"
  shows "key \<in> fkey ` set (snd st')"
proof -
  define J where "J b st1 \<longleftrightarrow> length (fst st1) = length (fst st) \<and> (b \<longrightarrow> key \<in> fkey ` set (snd st1))"
    for b and st1 :: "byte list \<times> found list"
  have step: "J (b \<or> (r, q) = (i, j)) st2" if "identify_bucket erf skl ratio max_ret r q st1 = Inr st2" "J b st1"
    for b r q st1 st2
    using identify_bucket_grows [of erf skl ratio max_ret r q "fst st1" "snd st1" "fst st2" "snd st2"]
      here [of "fst st1" "snd st1" "fst st2" "snd st2"] that by (auto simp: J_def)
  have "J (i < d) st'"
  proof (rule for_res_rule [OF l])
    show "J (i < 0) st" by (simp add: J_def)
    fix r st1 st2 assume r: "r < d" "J (i < r) st1"
      and b: "for_res w (\<lambda>j. identify_bucket erf skl ratio max_ret r j) st1 = Inr st2"
    have "J (i < r \<or> i = r \<and> j < w) st2"
    proof (rule for_res_rule [OF b])
      show "J (i < r \<or> i = r \<and> j < 0) st1" using r by simp
      fix q sta stb assume "J (i < r \<or> i = r \<and> j < q) sta"
        and "identify_bucket erf skl ratio max_ret r q sta = Inr stb"
      from step [OF this(2,1)] show "J (i < r \<or> i = r \<and> j < Suc q) stb"
        by (rule back_subst [where P = "\<lambda>b. J b stb"]) auto
    qed
    then show "J (i < Suc r) st2" using ij(2) by (auto elim!: back_subst [where P = "\<lambda>b. J b st2"])
  qed
  then show ?thesis using ij(1) by (simp add: J_def)
qed

lemma SKL_Identify_isolated_gen:
  assumes "fresh_sketch s" "\<forall>kv \<in> set kvs. 0 \<le> sint (snd kv)"
    "sum_list (map (\<lambda>kv. sint (snd kv)) kvs) < 2 ^ 31"
    and "SKL_CompleteZeroes (run_sketch SKL_Update kvs s) = Inr u"
    and "SKL_Identify_Thresh erf u ratio max_ret template = Inr (u', fs)"
    and "is_ratio ratio" "lgn s = 8 * length key" "length key \<le> length template"
    and "i < depth s" "isolated s kvs i key" "0 < flow_total kvs key"
  shows "\<exists>f \<in> set fs. fkey f = key \<and> sint (fval f) = flow_total kvs key"
proof -
  note ok = fresh_sketch_ok [OF assms(1)]
  note u = completed_sketch_sel [OF completed_same [OF ok assms(4)]]
  obtain skl t' where c: "compute_bit_dists u = Inr skl" and l:
    "for_res (depth skl) (\<lambda>i. for_res (width skl) (\<lambda>j. identify_bucket erf skl ratio max_ret i j))
      (template, []) = Inr (t', fs)"
    using assms(5) by (auto simp: SKL_Identify_Thresh_def)
  note k = same_dists_cong [OF compute_bit_dists_keeps [OF c]]
  have "bucket_of s i key < width s" using bucket_of_less ok by (simp add: skl_ok_def)
  then have "key \<in> fkey ` set (snd (t', fs))"
    using k u assms(8,9)
    by (intro identify_loop_keeps [OF l, of i "bucket_of s i key"]
      identify_bucket_isolated [OF assms(1-4) c assms(6,7,9,10,11)]) auto
  then obtain f where f: "f \<in> set fs" "fkey f = key" by auto
  obtain r where "r < depth u" "fval f = est_candidate u (r * width u + bucket_of u r key) key"
    using identify_ok [OF assms(5)] f by (auto simp: found_ok_def)
  then show ?thesis
    using isolated_estimate [OF assms(1-4,10,9), of r] f u(5) by auto
qed

text \<open>C5: When identification returns, a flow of positive size that has a bucket of some row for itself is
  reported, and with its exact size, for every threshold from 0 up to but not including 1 (sizes not
  negative, with a sum below \<open>2 ^ 31\<close>).\<close>

theorem SKL_Identify_isolated:
  assumes "fresh_sketch s" "\<forall>kv \<in> set kvs. 0 \<le> sint (snd kv)"
    "sum_list (map (\<lambda>kv. sint (snd kv)) kvs) < 2 ^ 31"
    and "SKL_CompleteZeroes (run_sketch SKL_Update kvs s) = Inr u"
    and "SKL_Identify_Thresh erf u ratio max_ret template = Inr (u', fs)"
    and "is_ratio ratio" "lgn s = 8 * length key" "length key \<le> length template"
    and "i < depth s" "isolated s kvs i key" "0 < flow_total kvs key"
  shows "\<exists>f \<in> set fs. fkey f = key \<and> sint (fval f) = flow_total kvs key"
  by (rule SKL_Identify_isolated_gen [OF assms])

section \<open>Identification returns when every bucket is settled\<close>

lemma identify_bucket_total:
  assumes "settles (counts skl ! (i * width skl + j)) (lgn skl) ratio key"
    and "lgn skl = 8 * length key" "length key \<le> length t" "lgn skl < 2 ^ 31" "length fs < max_ret"
  shows "\<exists>t' ys. identify_bucket erf skl ratio max_ret i j (t, fs) = Inr (t', fs @ ys) \<and> length t' = length t \<and>
    (ys = [] \<or> (\<exists>f. ys = [f] \<and> fkey f = key \<and> key \<notin> fkey ` set fs))"
proof -
  let ?is = "qsort cmp_bit_info (map (certain key) (rev [0..<lgn skl]))"
  have "set ?is = set (map (certain key) (rev [0..<lgn skl]))"
    by (metis mset_qsort set_mset_mset)
  then have u: "undecided ?is (length ?is) = 0"
    by (intro undecided_certain) (auto simp: certain_def)
  have tk: "take (lgn skl div 8) (key @ drop (length key) t) = key" using assms(2) by simp
  have i: "identify_bucket erf skl ratio max_ret i j (t, fs) =
      rbind (try_guess skl ratio max_ret i j ?is key fs) (\<lambda>fs'. Inr (key @ drop (length key) t, fs'))"
    unfolding identify_bucket_def split find_key_bits_settled [OF assms(1,2,3)] Let_def u
      enumerate_keys_0 [OF assms(4)] list.map tk
    by (cases "try_guess skl ratio max_ret i j ?is key fs") auto
  show ?thesis unfolding i using assms(3,5) by (auto simp: try_guess_def Let_def)
qed

definition all_settled :: "skl_t \<Rightarrow> dbl \<Rightarrow> byte list set \<Rightarrow> bool" where
  "all_settled skl ratio S \<longleftrightarrow> (\<forall>i < depth skl. \<forall>j < width skl. \<exists>key \<in> S.
     settles (counts skl ! (i * width skl + j)) (lgn skl) ratio key)"

lemma SKL_Identify_returns_gen:
  assumes "skl_ok u" "depth u * width u \<noteq> 1" "all_settled u ratio S" "finite S" "card S < max_ret"
    and "\<forall>key \<in> S. lgn u = 8 * length key" "lgn u div 8 \<le> length template"
  shows "\<exists>u' fs. SKL_Identify_Thresh erf u ratio max_ret template = Inr (u', fs)"
proof -
  obtain skl where c: "compute_bit_dists u = Inr skl" using compute_bit_dists_total [OF _ assms(2)] assms(1)
    by (auto simp: skl_ok_def)
  note k = same_dists_cong [OF compute_bit_dists_keeps [OF c]]
  define J where "J st \<longleftrightarrow> length (fst st) = length template \<and> distinct (map fkey (snd st)) \<and>
      fkey ` set (snd st) \<subseteq> S" for st :: "byte list \<times> found list"
  have J: "\<exists>st2. identify_bucket erf skl ratio max_ret i j st = Inr st2 \<and> J st2"
    if "i < depth skl" "j < width skl" "J st" for i j st
  proof -
    note ij = that(1,2)
    obtain t fs where st: "st = (t, fs)" by fastforce
    obtain key where key: "key \<in> S" "settles (counts skl ! (i * width skl + j)) (lgn skl) ratio key"
      using assms(3) ij k unfolding all_settled_def by auto
    have "length fs = card (fkey ` set fs)"
      using that(3) distinct_card [of "map fkey fs"] by (simp add: J_def st)
    also have "\<dots> \<le> card S" using that(3) assms(4) by (intro card_mono) (simp_all add: J_def st)
    finally have "length fs < max_ret" using assms(5) by simp
    moreover have "lgn skl = 8 * length key" "length key \<le> length t" "lgn skl < 2 ^ 31"
      using assms(1,6,7) key(1) k that(3) by (auto simp: J_def st skl_ok_def)
    ultimately show ?thesis
      using identify_bucket_total [OF key(2), of t fs max_ret erf] that(3) key(1) by (auto simp: J_def st)
  qed
  have "\<exists>st. for_res (depth skl) (\<lambda>i. for_res (width skl) (\<lambda>j. identify_bucket erf skl ratio max_ret i j))
      (template, []) = Inr st \<and> J st"
  proof (rule for_res_total [where I = "\<lambda>_. J"])
    show "J (template, [])" by (simp add: J_def)
    fix i st assume "i < depth skl" "J st"
    then show "\<exists>st2. for_res (width skl) (\<lambda>j. identify_bucket erf skl ratio max_ret i j) st = Inr st2 \<and> J st2"
      by (intro for_res_total [where I = "\<lambda>_. J"]) (use J in auto)
  qed
  then show ?thesis by (auto simp: SKL_Identify_Thresh_def c)
qed

text \<open>C28: When the counters of every bucket settle every bit, the identification returns, provided
  \<open>max_ret\<close> is above the number of different keys the buckets settle on.\<close>

theorem SKL_Identify_returns:
  assumes "skl_ok u" "depth u * width u \<noteq> 1" "all_settled u ratio S" "finite S" "card S < max_ret"
    and "\<forall>key \<in> S. lgn u = 8 * length key" "lgn u div 8 \<le> length template"
  shows "\<exists>u' fs. SKL_Identify_Thresh erf u ratio max_ret template = Inr (u', fs)"
  by (rule SKL_Identify_returns_gen [OF assms])

section \<open>A concrete run\<close>

lemma half_is_ratio: "is_ratio (dlit 1 2)"
proof -
  have e: "dlit 1 2 = Fin False 4503599627370496 (- 53)" by code_simp
  have "p2 (- 53) = 1 / 2 ^ 53" using p2_minus [of 53] p2_numeral by simp
  then show ?thesis by (simp add: e is_ratio_def)
qed

lemma demo_stream_facts:
  "isolated demo_sketch [([5], 3)] 0 [5]" "flow_total [([5], 3)] [5] = 3"
  by (simp_all add: isolated_def flow_total_def)

text \<open>A stream of one record settles every bucket: those of its key on the key, the empty ones on all ones.\<close>

lemma key_bit_ones: "p < 8 * n \<Longrightarrow> key_bit (replicate n 255) p"
proof -
  assume "p < 8 * n"
  then have "replicate n (255 :: byte) ! (p div 8) = 255" by simp
  moreover have "bit (255 :: byte) (7 - p mod 8)"
  proof -
    have e: "(255 :: byte) = - 1" by simp
    show ?thesis unfolding e by (simp add: bit_minus_1_iff possible_bit_word)
  qed
  ultimately show ?thesis by (simp add: key_bit_def)
qed

lemma one_record_settles:
  assumes "fresh_sketch s" "SKL_CompleteZeroes (run_sketch SKL_Update [(key, v)] s) = Inr u"
    and "lgn s = 8 * length key" "0 < sint v"
  shows "all_settled u (dlit 1 2) {key, replicate (length key) 255}"
proof -
  let ?kvs = "[(key, v)]"
  note c = completed_sketch_sel [OF completed_same [OF fresh_sketch_ok [OF assms(1)] assms(2)]]
  have v: "0 < sint (sum_selected s ?kvs (\<lambda>k. k = key))" using assms(4) by (simp add: sum_selected_def)
  show ?thesis
    unfolding all_settled_def
  proof (intro allI impI)
    fix i j assume ij: "i < depth u" "j < width u"
    show "\<exists>k \<in> {key, replicate (length key) 255}. settles (counts u ! (i * width u + j)) (lgn u) (dlit 1 2) k"
    proof (cases "bucket_of s i key = j")
      case True
      have iso: "isolated s ?kvs i key" by (simp add: isolated_def)
      show ?thesis
        using isolated_settles [OF assms(1,2) iso _ half_is_ratio v] True c ij by auto
    next
      case False
      note z = completed_cells [OF assms(1,2), of i j, unfolded cell_def split]
      have z0: "counts u ! (i * width s + j) ! 0 = 0"
        and z1: "p < lgn s \<Longrightarrow> counts u ! (i * width s + j) ! Suc p = 0" for p
        using z [of 0] z [of "Suc p"] ij c False by simp_all
      have "settles (counts u ! (i * width s + j)) (lgn s) (dlit 1 2) (replicate (length key) 255)"
        using threshold(1) [OF half_is_ratio, of 0] z0 z1 key_bit_ones assms(3) by (auto simp: settles_def)
      then show ?thesis using c by simp
    qed
  qed
qed

lemma demo_completed:
  "\<exists>u. SKL_CompleteZeroes (run_sketch SKL_Update [([5], 3)] demo_sketch) = Inr u \<and> skl_ok u \<and>
     depth u * width u \<noteq> 1 \<and> lgn u = 8 \<and> all_settled u (dlit 1 2) {[5], [255]}"
proof -
  obtain u where u: "SKL_CompleteZeroes (run_sketch SKL_Update [([5], 3)] demo_sketch) = Inr u"
    using SKL_CompleteZeroes_demo by blast
  note c = completed_sketch_sel [OF completed_same [OF demo_sketch_ok(1) u]]
  show ?thesis using u c one_record_settles [OF demo_sketch_fresh u] by (simp add: demo_sketch_def del: One_nat_def)
qed

lemma SKL_Identify_returns_witness:
  "\<exists>u r. SKL_CompleteZeroes (run_sketch SKL_Update [([5], 3)] demo_sketch) = Inr u \<and>
     SKL_Identify_Thresh id u (dlit 1 2) 3 [0] = Inr r"
proof -
  obtain u where u: "SKL_CompleteZeroes (run_sketch SKL_Update [([5], 3)] demo_sketch) = Inr u" "skl_ok u"
    "depth u * width u \<noteq> 1" "lgn u = 8" "all_settled u (dlit 1 2) {[5], [255]}"
    using demo_completed by blast
  have "finite {[5 :: byte], [255]}" "card {[5 :: byte], [255]} < 3"
    "\<forall>key \<in> {[5], [255]}. lgn u = 8 * length key" "lgn u div 8 \<le> length [0 :: byte]"
    using u(4) by simp_all
  from SKL_Identify_returns [OF u(2,3,5) this, of id] u(1) show ?thesis by blast
qed

lemma demo_identified:
  "\<exists>u u' fs. SKL_CompleteZeroes (run_sketch SKL_Update [([5], 3)] demo_sketch) = Inr u \<and> skl_ok u \<and>
     SKL_Identify_Thresh id u (dlit 1 2) 3 [0] = Inr (u', fs)"
proof -
  obtain u where u: "SKL_CompleteZeroes (run_sketch SKL_Update [([5], 3)] demo_sketch) = Inr u" "skl_ok u"
    "depth u * width u \<noteq> 1" "lgn u = 8" "all_settled u (dlit 1 2) {[5], [255]}"
    using demo_completed by blast
  have "finite {[5 :: byte], [255]}" "card {[5 :: byte], [255]} < 3"
    "\<forall>key \<in> {[5], [255]}. lgn u = 8 * length key" "lgn u div 8 \<le> length [0 :: byte]"
    using u(4) by simp_all
  from SKL_Identify_returns_gen [OF u(2,3,5) this, of id] u(1,2) show ?thesis by blast
qed

lemma SKL_Identify_isolated_witness:
  "\<exists>u u' fs f. SKL_CompleteZeroes (run_sketch SKL_Update [([5], 3)] demo_sketch) = Inr u \<and>
     SKL_Identify_Thresh id u (dlit 1 2) 3 [0] = Inr (u', fs) \<and> f \<in> set fs \<and> fkey f = [5] \<and> sint (fval f) = 3"
proof -
  obtain u u' fs where u: "SKL_CompleteZeroes (run_sketch SKL_Update [([5], 3)] demo_sketch) = Inr u"
    "SKL_Identify_Thresh id u (dlit 1 2) 3 [0] = Inr (u', fs)"
    using demo_identified by blast
  have h: "\<forall>kv \<in> set [([5 :: byte], 3 :: i32)]. 0 \<le> sint (snd kv)"
    "sum_list (map (\<lambda>kv. sint (snd kv)) [([5 :: byte], 3 :: i32)]) < 2 ^ 31"
    "lgn demo_sketch = 8 * length [5 :: byte]" "length [5 :: byte] \<le> length [0 :: byte]"
    "0 < depth demo_sketch" "0 < flow_total [([5], 3)] [5]"
    by (simp_all add: demo_sketch_def flow_total_def)
  from SKL_Identify_isolated [OF demo_sketch_fresh h(1,2) u half_is_ratio h(3,4,5) demo_stream_facts(1) h(6)]
  show ?thesis using u demo_stream_facts(2) by auto
qed

lemma demo_reported:
  "\<exists>u u' fs f. SKL_CompleteZeroes (run_sketch SKL_Update [([5], 3)] demo_sketch) = Inr u \<and>
     SKL_Identify_Thresh id u (dlit 1 2) 3 [0] = Inr (u', fs) \<and> f \<in> set fs \<and> fkey f = [5] \<and> sint (fval f) = 3"
proof -
  obtain u u' fs where u: "SKL_CompleteZeroes (run_sketch SKL_Update [([5], 3)] demo_sketch) = Inr u"
    "SKL_Identify_Thresh id u (dlit 1 2) 3 [0] = Inr (u', fs)"
    using demo_identified by blast
  have h: "\<forall>kv \<in> set [([5 :: byte], 3 :: i32)]. 0 \<le> sint (snd kv)"
    "sum_list (map (\<lambda>kv. sint (snd kv)) [([5 :: byte], 3 :: i32)]) < 2 ^ 31"
    "lgn demo_sketch = 8 * length [5 :: byte]" "length [5 :: byte] \<le> length [0 :: byte]"
    "0 < depth demo_sketch" "0 < flow_total [([5], 3)] [5]"
    by (simp_all add: demo_sketch_def flow_total_def)
  from SKL_Identify_isolated_gen [OF demo_sketch_fresh h(1,2) u half_is_ratio h(3,4,5) demo_stream_facts(1) h(6)]
  show ?thesis using u demo_stream_facts(2) by auto
qed

lemma SKL_Identify_no_underestimate_witness:
  "\<exists>u u' fs f. SKL_CompleteZeroes (run_sketch SKL_Update [([5], 3)] demo_sketch) = Inr u \<and>
     SKL_Identify_Thresh id u (dlit 1 2) 3 [0] = Inr (u', fs) \<and> f \<in> set fs \<and> fkey f = [5] \<and> 3 \<le> sint (fval f)"
proof -
  obtain u u' fs f where u: "SKL_CompleteZeroes (run_sketch SKL_Update [([5], 3)] demo_sketch) = Inr u"
    "SKL_Identify_Thresh id u (dlit 1 2) 3 [0] = Inr (u', fs)" "f \<in> set fs" "fkey f = [5]"
    using demo_reported by blast
  have h: "\<forall>kv \<in> set [([5 :: byte], 3 :: i32)]. 0 \<le> sint (snd kv)"
    "sum_list (map (\<lambda>kv. sint (snd kv)) [([5 :: byte], 3 :: i32)]) < 2 ^ 31" by simp_all
  from SKL_Identify_no_underestimate [OF demo_sketch_fresh h u(1,2,3)] u demo_stream_facts(2)
  show ?thesis by auto
qed

lemma SKL_Identify_sound_witness:
  "\<exists>u u' fs. SKL_CompleteZeroes (run_sketch SKL_Update [([5], 3)] demo_sketch) = Inr u \<and>
     SKL_Identify_Thresh id u (dlit 1 2) 3 [0] = Inr (u', fs) \<and> distinct (map fkey fs) \<and> length fs \<le> 3"
  using demo_identified SKL_Identify_sound by blast

end
