(* ===== verification/Sketch_Size.thy ===== *)
theory Sketch_Size
  imports Sketch_Recovery
begin

text \<open>
  The size queries of \<^verbatim>\<open>alg_sketchlearn.c\<close> for a key restricted to some bits: the older query
  \<open>SKL_Est_old\<close>, and the bounds that it and \<open>SKL_Est_Size\<close> satisfy.
\<close>

section \<open>The older query\<close>

text \<open>
  The loop that counts the bits of low probability in one bucket. It uses the loop variable
  minus 1, not the bit position, as the index into \<open>bit_mean\<close> and \<open>bit_std\<close>, so its first
  iteration reads before the arrays whenever neither counter decides the bit.
\<close>

fun low_bits :: "(dbl \<Rightarrow> dbl) \<Rightarrow> skl_t \<Rightarrow> i32 list \<Rightarrow> byte list \<Rightarrow> dbl \<Rightarrow> nat \<Rightarrow> nat \<Rightarrow> nat list \<Rightarrow> nat \<Rightarrow> nat res" where
  "low_bits erf skl cn key ratio n_bit i [] n_low = Inr n_low"
| "low_bits erf skl cn key ratio n_bit i (pos # bits) n_low =
     (let V = cnt (cn ! 0); p = 1 * cnt (cn ! (pos + 1)) div V;
          n_low' =
            (if (1 - ratio) * V \<le> cnt (cn ! (pos + 1)) then Inr n_low
             else if (1 - ratio) * V \<le> cnt (cn ! (pos + lgn skl + 1)) then Inr n_low
             else if i = 0 then Inl OutOfBounds
             else
               let (p1, p2) = bit_probs erf p ratio (bit_mean skl ! (i - 1)) (bit_std skl ! (i - 1));
                   q = (if get_bit key pos = 1 then p1 else p2) div (p1 + p2)
               in Inr (if q < min_conf then n_low + 1 else n_low))
      in rbind n_low' (\<lambda>n.
           if dbl_of_int (int n_bit) * allow_bad_ratio < dbl_of_int (int n) then Inr n
           else low_bits erf skl cn key ratio n_bit (i + 1) bits n))"

text \<open>One bucket of the second branch; the bucket is taken from row 0 whatever the row is.\<close>

definition old_bucket :: "(dbl \<Rightarrow> dbl) \<Rightarrow> skl_t \<Rightarrow> byte list \<Rightarrow> nat list \<Rightarrow> nat \<Rightarrow> i32 \<Rightarrow> i32 res" where
  "old_bucket erf skl key bits bucket est_row =
     (let cn = counts skl ! bucket; est_bucket = naive_size cn (lgn skl) key bits in
      if sint est_bucket \<le> 0 then Inr est_row
      else rbind (low_bits erf skl cn key (1 * cnt est_bucket div cnt (cn ! 0)) (length bits) 0 bits 0) (\<lambda>n_low.
        Inr (if dbl_of_int (int n_low) < dbl_of_int (int (length bits)) * allow_bad_ratio
             then est_row + est_bucket else est_row)))"

definition SKL_Est_old :: "(dbl \<Rightarrow> dbl) \<Rightarrow> skl_t \<Rightarrow> byte list \<Rightarrow> nat list \<Rightarrow> (i32 \<times> skl_t) res" where
  "SKL_Est_old erf skl key bits =
     (if length bits = lgn skl then
        Inr (for_upto (depth skl) (\<lambda>k ret.
          let est = naive_size (counts skl ! (k * width skl + bucket_of skl k key)) (lgn skl) key bits
          in if k = 0 \<or> sint est < sint ret then est else ret) 0, skl)
      else
        rbind (compute_bit_dists skl) (\<lambda>skl'.
        rbind (for_res (depth skl') (\<lambda>k ret.
          rbind (for_res (width skl') (old_bucket erf skl' key bits) 0) (\<lambda>est_row.
          Inr (if k = 0 \<or> sint est_row < sint ret then est_row else ret))) 0) (\<lambda>ret.
        Inr (ret, skl'))))"

section \<open>The least counter of a row\<close>

lemma own_cnt_matched: "own_cnt cn len key p = matched cn len key (p + 1)"
  by (simp add: own_cnt_def matched_def get_bit_key_bit)

lemma naive_size_min:
  "sint (naive_size cn len key bits) =
     Min ((\<lambda>p. sint (matched cn len key p)) ` insert 0 (Suc ` set bits))"
proof -
  let ?m = "\<lambda>p. sint (matched cn len key p)"
  define I where "I i e \<longleftrightarrow> sint e = Min (?m ` insert 0 (Suc ` set (take i bits)))" for i and e :: i32
  have "I (length bits) (naive_size cn len key bits)"
    unfolding naive_size_def
  proof (rule for_upto_rule)
    show "I 0 (cn ! 0)" by (simp add: I_def matched_def)
    fix i e assume i: "i < length bits" "I i e"
    have s: "insert 0 (Suc ` set (take (Suc i) bits)) = insert (Suc (bits ! i)) (insert 0 (Suc ` set (take i bits)))"
      using i(1) by (auto simp: take_Suc_conv_app_nth)
    have "sint (min32 e (own_cnt cn len key (bits ! i))) =
        Min (insert (sint (own_cnt cn len key (bits ! i))) (?m ` insert 0 (Suc ` set (take i bits))))"
      by (rule Min_insert_range) (use i(2) in \<open>auto simp: I_def\<close>)
    then show "I (Suc i) (min32 e (own_cnt cn len key (bits ! i)))"
      unfolding I_def s own_cnt_matched by simp
  qed
  then show ?thesis by (simp add: I_def)
qed

lemma least_row:
  assumes "0 < (d :: nat)"
  shows "sint (for_upto d (\<lambda>k ret. if k = 0 \<or> sint (f k) < sint ret then f k else ret) (0 :: i32)) =
    Min ((\<lambda>k. sint (f k)) ` {..<d})"
proof -
  define I where "I k e \<longleftrightarrow> k = 0 \<or> sint e = Min ((\<lambda>k. sint (f k)) ` {..<k})" for k :: nat and e :: i32
  have "I d (for_upto d (\<lambda>k ret. if k = 0 \<or> sint (f k) < sint ret then f k else ret) 0)"
  proof (rule for_upto_rule)
    show "I 0 0" by (simp add: I_def)
    fix k e assume "k < d" "I k e"
    then show "I (Suc k) (if k = 0 \<or> sint (f k) < sint e then f k else e)"
    proof (cases "k = 0")
      case False
      then have "Min (insert (sint (f k)) ((\<lambda>k. sint (f k)) ` {..<k})) =
          min (sint (f k)) (Min ((\<lambda>k. sint (f k)) ` {..<k}))"
        by (intro Min_insert) (auto simp: lessThan_empty_iff)
      then show ?thesis using False \<open>I k e\<close> by (simp add: I_def lessThan_Suc min_def)
    qed (simp add: I_def lessThan_Suc)
  qed
  then show ?thesis using assms by (simp add: I_def)
qed

text \<open>Asked for all bits of a key on the completed sketch of a stream, the older query never
  returns less than the size of the flow, and exactly that when the flow has a bucket of some
  row for itself.\<close>

theorem SKL_Est_old_bounds:
  assumes "fresh_sketch s" "\<forall>kv \<in> set kvs. 0 \<le> sint (snd kv)"
    "sum_list (map (\<lambda>kv. sint (snd kv)) kvs) < 2 ^ 31"
    and "SKL_CompleteZeroes (run_sketch SKL_Update kvs s) = Inr u"
    and "length bits = lgn s" "\<forall>p \<in> set bits. p < lgn s" "i < depth s"
  shows "\<exists>ret. SKL_Est_old erf u key bits = Inr (ret, u) \<and> flow_total kvs key \<le> sint ret \<and>
    (isolated s kvs i key \<longrightarrow> sint ret = flow_total kvs key)"
proof -
  note u = completed_sketch_sel [OF completed_same [OF fresh_sketch_ok [OF assms(1)] assms(4)]]
  define f where "f k = naive_size (counts u ! (k * width u + bucket_of u k key)) (lgn u) key bits" for k
  define ret where "ret = for_upto (depth u) (\<lambda>k ret. if k = 0 \<or> sint (f k) < sint ret then f k else ret) 0"
  have d: "0 < depth u" using assms(7) u(5) by simp
  have e: "SKL_Est_old erf u key bits = Inr (ret, u)"
    using assms(5) u(4) unfolding SKL_Est_old_def ret_def f_def Let_def by simp
  have r: "sint ret = Min ((\<lambda>k. sint (f k)) ` {..<depth u})" unfolding ret_def by (rule least_row [OF d])
  have row: "flow_total kvs key \<le> sint (f k)" if k: "k < depth u" for k
  proof -
    have "\<forall>x \<in> (\<lambda>p. sint (matched (counts u ! (k * width u + bucket_of u k key)) (lgn u) key p)) `
        insert 0 (Suc ` set bits). flow_total kvs key \<le> x"
      using matched_ge_flow [OF assms(1-4) k, of _ key] assms(6) u(4) by (auto simp: Suc_le_eq)
    then show ?thesis unfolding f_def naive_size_min by (intro Min.boundedI) auto
  qed
  then have low: "flow_total kvs key \<le> sint ret" unfolding r using d by (intro Min.boundedI) auto
  have "sint ret = flow_total kvs key" if iso: "isolated s kvs i key"
  proof -
    have "sint (f i) \<le> sint (matched (counts u ! (i * width u + bucket_of u i key)) (lgn u) key 0)"
      unfolding f_def naive_size_min by (intro Min_le) auto
    also have "\<dots> = flow_total kvs key"
      using isolated_row(1) [OF assms(1,4) iso assms(7)] sint_sum_selected_flow [OF assms(2,3)] u by (simp add: matched_def)
    finally have "sint (f i) \<le> flow_total kvs key" .
    moreover have "sint ret \<le> sint (f i)" unfolding r using assms(7) u(5) by (intro Min_le) auto
    ultimately show ?thesis using low by simp
  qed
  then show ?thesis using e low by blast
qed

lemma SKL_Est_old_bounds_witness:
  "\<exists>u ret. SKL_CompleteZeroes (run_sketch SKL_Update [([5], 3)] demo_sketch) = Inr u \<and>
     SKL_Est_old id u [5] [0..<8] = Inr (ret, u) \<and> sint ret = 3"
proof -
  obtain u where u: "SKL_CompleteZeroes (run_sketch SKL_Update [([5], 3)] demo_sketch) = Inr u"
    using SKL_CompleteZeroes_demo by blast
  have h: "\<forall>kv \<in> set [([5 :: byte], 3 :: i32)]. 0 \<le> sint (snd kv)"
    "sum_list (map (\<lambda>kv. sint (snd kv)) [([5 :: byte], 3 :: i32)]) < 2 ^ 31"
    "length [0..<8] = lgn demo_sketch" "\<forall>p \<in> set [0..<8]. p < lgn demo_sketch" "0 < depth demo_sketch"
    by (simp_all add: demo_sketch_def del: upt_Suc)
  from SKL_Est_old_bounds [OF demo_sketch_fresh h(1,2) u h(3,4,5), of id "[5]"] demo_stream_facts
  show ?thesis using u by auto
qed

section \<open>The query of the paper\<close>

lemma est_bucket_size_returns:
  "(\<exists>r. skl_est_bucket_size erf cn len key mean std bits infos = Inr r) \<longleftrightarrow>
     2 \<le> length bits \<and> length bits \<le> 104"
  by (auto simp: skl_est_bucket_size_def pick_estimate_def Let_def)

lemma SKL_Est_Size_total:
  "(\<exists>r. SKL_Est_Size erf skl key bits infos = Inr r) \<longleftrightarrow>
     depth skl = 0 \<or> 2 \<le> length bits \<and> length bits \<le> 104"
proof
  assume "\<exists>r. SKL_Est_Size erf skl key bits infos = Inr r"
  then obtain r where r: "SKL_Est_Size erf skl key bits infos = Inr r" by blast
  have "depth skl = 0 \<or> 2 \<le> length bits \<and> length bits \<le> 104"
  proof (rule for_res_rule [OF r [unfolded SKL_Est_Size_def], where I = "\<lambda>k _. k = 0 \<or> 2 \<le> length bits \<and> length bits \<le> 104"])
    fix k and st st' :: "i32 \<times> bit_info list"
    assume b: "(case st of (ret, infos) \<Rightarrow>
       rbind (skl_est_bucket_size erf (counts skl ! (k * width skl + bucket_of skl k key)) (lgn skl) key
               (bit_mean skl) (bit_std skl) bits infos) (\<lambda>(est, infos').
       Inr (if k = 0 \<or> sint est < sint ret then est else ret, infos'))) = Inr st'"
    obtain ret "is" where "st = (ret, is)" by fastforce
    with b have "\<exists>r. skl_est_bucket_size erf (counts skl ! (k * width skl + bucket_of skl k key)) (lgn skl) key
        (bit_mean skl) (bit_std skl) bits is = Inr r" by auto
    then show "Suc k = 0 \<or> 2 \<le> length bits \<and> length bits \<le> 104" unfolding est_bucket_size_returns ..
  qed simp
  then show "depth skl = 0 \<or> 2 \<le> length bits \<and> length bits \<le> 104" .
next
  assume a: "depth skl = 0 \<or> 2 \<le> length bits \<and> length bits \<le> 104"
  have "\<exists>r. SKL_Est_Size erf skl key bits infos = Inr r \<and> True"
    unfolding SKL_Est_Size_def
  proof (rule for_res_total [where I = "\<lambda>_ _. True"])
    fix k and st :: "i32 \<times> bit_info list"
    assume "k < depth skl"
    then have "2 \<le> length bits \<and> length bits \<le> 104" using a by simp
    then obtain e where "skl_est_bucket_size erf (counts skl ! (k * width skl + bucket_of skl k key)) (lgn skl) key
        (bit_mean skl) (bit_std skl) bits (snd st) = Inr e" using est_bucket_size_returns by blast
    then show "\<exists>t. (case st of (ret, infos) \<Rightarrow>
        rbind (skl_est_bucket_size erf (counts skl ! (k * width skl + bucket_of skl k key)) (lgn skl) key
               (bit_mean skl) (bit_std skl) bits infos) (\<lambda>(est, infos').
        Inr (if k = 0 \<or> sint est < sint ret then est else ret, infos'))) = Inr t \<and> True"
      by (cases st; cases e) simp
  qed simp
  then show "\<exists>r. SKL_Est_Size erf skl key bits infos = Inr r" by blast
qed

lemma est_size_le_gen:
  assumes "SKL_Est_Size erf skl key bits infos = Inr (est, infos')" "k < depth skl"
    and "p = 0 \<or> p \<in> Suc ` set bits"
  shows "sint est \<le> sint (matched (counts skl ! (k * width skl + bucket_of skl k key)) (lgn skl) key p)"
proof -
  define row where "row k = counts skl ! (k * width skl + bucket_of skl k key)" for k
  define I where "I r st \<longleftrightarrow> (\<forall>q < r. sint (fst st) \<le> sint (naive_size (row q) (lgn skl) key bits))"
    for r :: nat and st :: "i32 \<times> bit_info list"
  have one: "sint e \<le> sint (naive_size cn len key bits)"
    if "skl_est_bucket_size erf cn len key m d bits is = Inr (e, is')" for cn len m d e and "is" is' :: "bit_info list"
    using that by (auto simp: skl_est_bucket_size_def Let_def split: if_splits)
  have "I (depth skl) (est, infos')"
  proof (rule for_res_rule [OF assms(1) [unfolded SKL_Est_Size_def]])
    show "I 0 (0, infos)" by (simp add: I_def)
    fix r st st' assume r: "r < depth skl" "I r st" and b: "(case st of (ret, infos) \<Rightarrow>
       rbind (skl_est_bucket_size erf (counts skl ! (r * width skl + bucket_of skl r key)) (lgn skl) key
               (bit_mean skl) (bit_std skl) bits infos) (\<lambda>(est, infos').
       Inr (if r = 0 \<or> sint est < sint ret then est else ret, infos'))) = Inr st'"
    obtain ret "is" where st: "st = (ret, is)" by fastforce
    from b obtain e is' where e: "skl_est_bucket_size erf (row r) (lgn skl) key (bit_mean skl) (bit_std skl) bits is =
        Inr (e, is')" "st' = (if r = 0 \<or> sint e < sint ret then e else ret, is')"
      by (auto simp: st row_def)
    have "sint (fst st') \<le> sint e \<and> (r \<noteq> 0 \<longrightarrow> sint (fst st') \<le> sint ret)" by (simp add: e(2))
    then show "I (Suc r) st'"
      using r(2) one [OF e(1)] by (fastforce simp: I_def st less_Suc_eq)
  qed
  then have "sint est \<le> sint (naive_size (row k) (lgn skl) key bits)" using assms(2) by (simp add: I_def)
  also have "\<dots> \<le> sint (matched (row k) (lgn skl) key p)"
    unfolding naive_size_min using assms(3) by (intro Min_le) auto
  finally show ?thesis by (simp add: row_def)
qed

text \<open>\<open>SKL_Est_Size\<close> never exceeds any counter the key matches: in every row, neither the total of
  the key's bucket nor the counter of one of the queried bits is below the estimate.\<close>

theorem SKL_Est_Size_le:
  assumes "SKL_Est_Size erf skl key bits infos = Inr (est, infos')" "k < depth skl"
    and "p = 0 \<or> p \<in> Suc ` set bits"
  shows "sint est \<le> sint (matched (counts skl ! (k * width skl + bucket_of skl k key)) (lgn skl) key p)"
  by (rule est_size_le_gen [OF assms])

lemma SKL_Est_Size_le_witness:
  "\<exists>est infos. SKL_Est_Size id demo_sketch [5] [0, 1] [] = Inr (est, infos) \<and>
     sint est \<le> sint (matched (counts demo_sketch ! (0 * width demo_sketch + bucket_of demo_sketch 0 [5]))
       (lgn demo_sketch) [5] 0)"
proof -
  have "\<exists>r. SKL_Est_Size id demo_sketch [5] [0, 1] [] = Inr r"
    unfolding SKL_Est_Size_total by simp
  then obtain est infos where e: "SKL_Est_Size id demo_sketch [5] [0, 1] [] = Inr (est, infos)" by auto
  have d: "0 < depth demo_sketch" by (simp add: demo_sketch_def)
  from SKL_Est_Size_le [OF e d, of 0] e show ?thesis by blast
qed

text \<open>\<open>SKL_Est_Size\<close> returns an estimate exactly when 2 to 104 bits are queried (or there is no
  row); for fewer it reads the element before the array of estimates, for more it writes past it.\<close>

theorem SKL_Est_Size_returns:
  "(\<exists>r. SKL_Est_Size erf skl key bits infos = Inr r) \<longleftrightarrow>
     depth skl = 0 \<or> 2 \<le> length bits \<and> length bits \<le> 104"
  by (rule SKL_Est_Size_total)

end
