(* ===== verification/Controller.thy ===== *)
theory Controller
  imports Dp_Simulate Sketch_Size Sketch_Recovery Key_Table
begin

text \<open>
  \<^verbatim>\<open>controller.c\<close>: the controller reads the sketch of each interval, extracts the large flows with
  the thresholds 1/2 and 1/3, removes them from the sketch, and reports them against the true
  flows. The numbers the reports print with \<open>%lf\<close> stay numbers here (\<open>ODbl\<close>); how the C library
  renders them is left out. The clock readings are a parameter.
\<close>

section \<open>Environment\<close>

text \<open>
  The settings the program reads (each getter gives the same value whenever it is called), the
  value \<open>rand()\<close> has in the process, the library function \<open>erf\<close>, the readable text files, the paths
  that can be opened for writing, the size of the result arrays, and what uninitialised local
  arrays hold.
\<close>

record ctl_env =
  ce_dir :: "string option"
  ce_width :: i32
  ce_depth :: i32
  ce_key_len :: i32
  ce_timeout :: dbl
  ce_rand :: u64
  ce_erf :: "dbl \<Rightarrow> dbl"
  ce_reads :: "string \<Rightarrow> string option"
  ce_writable :: "string \<Rightarrow> bool"
  ce_max_ret :: nat
  ce_template :: "byte list"
  ce_infos :: "bit_info list"
  ce_junk :: u32
  ce_stack :: tuple_t

definition min_thresh :: dbl where
  "min_thresh = dlit 3 10"

definition new_sketch :: "ctl_env \<Rightarrow> u64 \<Rightarrow> (skl_t \<times> u64) res" where
  "new_sketch env glob =
     (if sint (ce_depth env) < 0 \<or> sint (ce_key_len env) < 0 then Inl OutOfBounds
      else SKL_Init (ce_rand env) glob (sint (ce_width env)) (nat (sint (ce_depth env)))
             (nat (sint (ce_key_len env))))"

definition new_table :: "ctl_env \<Rightarrow> u64 \<Rightarrow> (key_tbl \<times> u64) res" where
  "new_table env glob =
     (if sint (ce_key_len env) < 0 then Inl OutOfBounds
      else key_tbl_init (ce_rand env) glob (nat (sint (ce_key_len env))) 60000 10 (ce_timeout env))"

section \<open>Detection\<close>

text \<open>\<open>remove_large\<close> subtracts the listed flows and completes the sketch again.\<close>

definition remove_large :: "skl_t \<Rightarrow> rich_tuple_t list \<Rightarrow> skl_t res" where
  "remove_large skl flows =
     SKL_CompleteZeroes
       (fold (\<lambda>r s. SKL_Update s (key_bytes (rkey r)) (- rsize r)) flows skl)"

text \<open>
  The loop that copies the identified flows into \<open>list_tmp\<close> and leaves out those seen before: \<open>i\<close>
  counts the identified flows, \<open>n\<close> those kept. The confidences go to element \<open>i\<close>, not \<open>n\<close>.
\<close>

fun dedupe :: "found list \<Rightarrow> nat \<Rightarrow> nat \<Rightarrow> key_tbl \<Rightarrow> rich_tuple_t list \<Rightarrow> (nat \<times> key_tbl \<times> rich_tuple_t list) res" where
  "dedupe [] i n tbl tmp = Inr (n, tbl, tmp)"
| "dedupe (f # fs) i n tbl tmp =
     (let key = bytes_key (fkey f)
      in if key_tbl_find tbl key \<noteq> None then dedupe fs (i + 1) n tbl tmp
         else
           rbind (key_tbl_add tbl key 1) (\<lambda>tbl'.
           rbind (arr_get tmp n) (\<lambda>r. rbind (arr_set tmp n (r\<lparr>rkey := key, rsize := fval f\<rparr>)) (\<lambda>tmp1.
           rbind (arr_get tmp1 i) (\<lambda>q. rbind (arr_set tmp1 i (q\<lparr>rconf := fconfs f\<rparr>)) (\<lambda>tmp2.
             dedupe fs (i + 1) (n + 1) tbl' tmp2))))))"

definition cmp_rich :: "rich_tuple_t \<Rightarrow> rich_tuple_t \<Rightarrow> int" where
  "cmp_rich a b = cmp (rkey a, rsize a) (rkey b, rsize b)"

text \<open>
  The loop that estimates the sizes and keeps the confident flows: \<open>list_tmp\<close> and the results so
  far. \<open>bits_104\<close> asks for all 104 bits, whatever the key length: the counters of shorter keys are
  read past their end.
\<close>

definition bits_104 :: "nat list" where
  "bits_104 = [0..<104]"

definition accept_flow ::
    "ctl_env \<Rightarrow> skl_t \<Rightarrow> nat \<Rightarrow> rich_tuple_t list \<times> rich_tuple_t list \<Rightarrow> (rich_tuple_t list \<times> rich_tuple_t list) res" where
  "accept_flow env skl i = (\<lambda>(tmp, ret).
     let r0 = (tmp ! i)\<lparr>rsize := 0\<rparr>
     in rbind (if lgn skl < 104 then Inl OutOfBounds
               else SKL_Est_Size (ce_erf env) skl (key_bytes (rkey r0)) bits_104 (ce_infos env)) (\<lambda>(est, infos).
       if sint est \<le> 0 then Inr (tmp[i := r0], ret)
       else
         let r1 = r0\<lparr>rconf := qsort cmp_lf (rconf r0)\<rparr>
         in if rconf r1 ! (lgn skl * 9 div 10) < 0 then Inr (tmp[i := r1], ret)
            else if ce_max_ret env \<le> length ret then Inl OutOfBounds
            else Inr (tmp[i := r1\<lparr>rsize := est\<rparr>], ret @ [r1\<lparr>rsize := est\<rparr>])))"

record detect_state =
  d_skl :: skl_t
  d_tbl :: key_tbl
  d_tmp :: "rich_tuple_t list"
  d_ret :: "rich_tuple_t list"

text \<open>One round of the loop; \<open>True\<close> when it found a flow.\<close>

definition detect_round :: "ctl_env \<Rightarrow> dbl \<Rightarrow> detect_state \<Rightarrow> (bool \<times> detect_state) res" where
  "detect_round env thresh st =
     rbind (SKL_Identify_Thresh (ce_erf env) (d_skl st) thresh (ce_max_ret env) (ce_template env)) (\<lambda>(skl1, fs).
     rbind (dedupe fs 0 0 (d_tbl st) (d_tmp st)) (\<lambda>(n, tbl', tmp1).
     let tmp2 = qsort cmp_rich (take n tmp1) @ drop n tmp1
     in rbind (for_res n (accept_flow env skl1) (tmp2, d_ret st)) (\<lambda>(tmp3, ret').
        rbind (remove_large skl1 (take n tmp3)) (\<lambda>skl2.
          Inr (length ret' \<noteq> length (d_ret st),
               \<lparr>d_skl = skl2, d_tbl = tbl', d_tmp = tmp3, d_ret = ret'\<rparr>)))))"

partial_function (option) detect_loop :: "ctl_env \<Rightarrow> dbl \<Rightarrow> detect_state \<Rightarrow> rich_tuple_t list res option" where
  [code]: "detect_loop env thresh st =
     (case detect_round env thresh st of
        Inl e \<Rightarrow> Some (Inl e)
      | Inr (again, st') \<Rightarrow> if again then detect_loop env thresh st' else Some (Inr (d_ret st')))"

definition zero_rich :: rich_tuple_t where
  "zero_rich = \<lparr>rkey = zero_key, rsize = 0, rindex = 0, rconf = replicate 104 0\<rparr>"

text \<open>The detected flows, and the seed of the hash functions after the call.\<close>

definition detect_with_thresh ::
    "ctl_env \<Rightarrow> u64 \<Rightarrow> skl_t \<Rightarrow> dbl \<Rightarrow> (rich_tuple_t list \<times> u64) res option" where
  "detect_with_thresh env glob skl thresh =
     (case rbind (new_sketch env glob) (\<lambda>(skl0, glob1).
           rbind (SKL_Copy skl0 skl) (\<lambda>skl_new.
           rbind (new_table env glob1) (\<lambda>(tbl, glob2).
             Inr (\<lparr>d_skl = skl_new, d_tbl = tbl, d_tmp = replicate (ce_max_ret env) zero_rich, d_ret = []\<rparr>, glob2))))
      of Inl e \<Rightarrow> Some (Inl e)
       | Inr (st, glob2) \<Rightarrow> map_option (\<lambda>r. rbind r (\<lambda>ret. Inr (ret, glob2))) (detect_loop env thresh st))"

section \<open>Inference on one interval\<close>

text \<open>Printed text: strings, and numbers printed with \<open>%lf\<close>.\<close>

datatype out_item = OStr string | ODbl dbl

type_synonym out_text = "out_item list"

definition nl :: string where "nl = [CHR 0x0A]"
definition tab :: string where "tab = [CHR 0x09]"

definition rich_tuple :: "rich_tuple_t \<Rightarrow> tuple_t" where
  "rich_tuple r = zero_tuple\<lparr>tkey := rkey r, tsize := rsize r\<rparr>"

record infer_state =
  i_skl :: skl_t
  i_glob :: u64
  i_tbl :: key_tbl
  i_list :: "rich_tuple_t list"
  i_all :: "tuple_t list"
  i_out :: out_text

text \<open>Recording the extracted flows: those whose key is new go to both lists and the table.\<close>

fun record_flows :: "nat \<Rightarrow> rich_tuple_t list \<Rightarrow> infer_state \<Rightarrow> infer_state res" where
  "record_flows max_ret [] st = Inr st"
| "record_flows max_ret (r # rs) st =
     (if key_tbl_find (i_tbl st) (rkey r) = None then
        (if max_ret \<le> length (i_list st) \<or> max_ret \<le> length (i_all st) then Inl OutOfBounds
         else rbind (key_tbl_add (i_tbl st) (rkey r) (rsize r)) (\<lambda>tbl.
           record_flows max_ret rs (st\<lparr>i_tbl := tbl, i_list := i_list st @ [r],
             i_all := i_all st @ [rich_tuple r]\<rparr>)))
      else record_flows max_ret rs st)"

partial_function (option) infer_loop :: "ctl_env \<Rightarrow> nat \<Rightarrow> infer_state \<Rightarrow> infer_state res option" where
  [code]: "infer_loop env d st =
     (let thresh = 1 div dbl_of_int (int d)
      in if thresh < min_thresh then Some (Inr st)
         else case detect_with_thresh env (i_glob st) (i_skl st) thresh of
           None \<Rightarrow> None
         | Some (Inl e) \<Rightarrow> Some (Inl e)
         | Some (Inr (ret, glob)) \<Rightarrow>
             if ret = [] then Some (Inr (st\<lparr>i_glob := glob\<rparr>))
             else case rbind (record_flows (ce_max_ret env) ret (st\<lparr>i_glob := glob\<rparr>)) (\<lambda>st1.
                         rbind (remove_large (i_skl st1) ret) (\<lambda>skl.
                           Inr (st1\<lparr>i_skl := skl,
                             i_out := i_out st1 @ [OStr (tab @ ''detect '' @ show_int (int (length ret)) @
                               '' keys with thresh ''), ODbl thresh, OStr nl]\<rparr>))) of
               Inl e \<Rightarrow> Some (Inl e)
             | Inr st2 \<Rightarrow> infer_loop env (d + 1) st2)"

section \<open>The reports of an interval\<close>

definition conf_quantiles :: "nat \<Rightarrow> rich_tuple_t \<Rightarrow> out_text" where
  "conf_quantiles n r =
     (let c = qsort cmp_lf (rconf r)
      in [OStr tab, ODbl (c ! (n div 2)), OStr '' '', ODbl (c ! (n * 3 div 4)), OStr '' '',
          ODbl (c ! (n * 4 div 5)), OStr '' '', ODbl (c ! (n * 9 div 10)), OStr '' '',
          ODbl (c ! (n * 99 div 100)), OStr '' '', ODbl (c ! (n - 1)), OStr nl])"

text \<open>A detected flow in the quality file and in the file of large flows.\<close>

definition quality_entry :: "key_tbl \<Rightarrow> nat \<Rightarrow> rich_tuple_t \<Rightarrow> out_text" where
  "quality_entry tbl_true n r =
     OStr (print_tuple (rich_tuple r)) #
     (case key_tbl_find tbl_true (rkey r) of
        Some p \<Rightarrow>
          (let size = tsize (tuple (get_entry tbl_true p))
           in [OStr (''    true '' @ show_int (sint size) @ '' (''),
               ODbl (1 * dbl_of_int (sint (rsize r - size)) div dbl_of_int (sint size)), OStr ('')'' @ nl)])
      | None \<Rightarrow> [OStr (''    fp'' @ nl)]) @ conf_quantiles n r"

definition keys_entry :: "nat \<Rightarrow> rich_tuple_t \<Rightarrow> out_text" where
  "keys_entry n r =
     OStr (print_tuple (rich_tuple r)) #
     concat (map (\<lambda>j. [OStr (show_int (int j) @ '' ''), ODbl (rconf r ! j), OStr nl]) [0..<n])"

definition false_positive :: "key_tbl \<Rightarrow> rich_tuple_t \<Rightarrow> bool" where
  "false_positive tbl_true r \<longleftrightarrow> key_tbl_find tbl_true (rkey r) = None"

text \<open>
  The loop over the true flows, largest first: \<open>large\<close>, \<open>first_fn\<close>, \<open>fn_large\<close> and the printed flows
  that were missed.
\<close>

record missed =
  m_large :: int
  m_first_fn :: i32
  m_fn_large :: int
  m_out :: out_text

definition true_flow :: "key_tbl \<Rightarrow> dbl \<Rightarrow> tuple_t list \<Rightarrow> nat \<Rightarrow> missed \<Rightarrow> missed" where
  "true_flow tbl_detect bound list_true i m =
     (let t = list_true ! i; size = dbl_of_int (sint (tsize t));
          m1 = (if size < bound then m\<lparr>m_large := int i - 1\<rparr> else m)
      in if key_tbl_find tbl_detect (tkey t) = None then
           let m2 = m1\<lparr>m_out := m_out m1 @ [OStr (print_tuple t)]\<rparr>;
               m3 = (if m_first_fn m2 = 0 then m2\<lparr>m_first_fn := tsize t\<rparr> else m2)
           in if bound < size then m3\<lparr>m_fn_large := m_fn_large m3 + 1\<rparr> else m3
         else m1)"

definition missed_flows :: "key_tbl \<Rightarrow> dbl \<Rightarrow> tuple_t list \<Rightarrow> missed" where
  "missed_flows tbl_detect bound list_true =
     for_upto (length list_true) (true_flow tbl_detect bound list_true)
       \<lparr>m_large = 0, m_first_fn = 0, m_fn_large = 0, m_out = []\<rparr>"

definition stat_text :: "ctl_env \<Rightarrow> u64 \<Rightarrow> int \<Rightarrow> int \<Rightarrow> missed \<Rightarrow> out_text" where
  "stat_text env tot_size n_detect n_fp m =
     [OStr (show_int n_detect @ '' flows extracted'' @ nl @ tab @ show_int n_fp @ '' are false positives, fp rate (''),
      ODbl (1 * dbl_of_int n_fp div dbl_of_int n_detect * dbl_of_int 100), OStr (''%)'' @ nl),
      OStr (''Theory:'' @ nl @ tab @ ''flows >''), ODbl (dbl_of_int 100 div dbl_of_int (sint (ce_width env))),
      OStr (''% of total traffic are guaranteed to be extraced'' @ nl),
      OStr (''Experiment:'' @ nl @ tab @ ''flows >''),
      ODbl (dbl_of_int 100 * dbl_of_int (sint (m_first_fn m)) div dbl_of_int (uint tot_size)),
      OStr (''% of total traffic are all extraced'' @ nl @ tab @
        ''flows >0.01% of total traffic are extraced with probability ''),
      ODbl (dbl_of_int 100 * dbl_of_int (m_large m - m_fn_large m) div dbl_of_int (m_large m)), OStr (''%'' @ nl)]"

text \<open>An output path; a path that cannot be opened gives a null stream, which is then written to.\<close>

definition out_path :: "ctl_env \<Rightarrow> string \<Rightarrow> nat \<Rightarrow> string res" where
  "out_path env fmt i =
     rbind (str_arg (ce_dir env)) (\<lambda>d.
     rbind (sprintf_100 (parse_fmt fmt) [d, IntArg (int i)]) (\<lambda>path.
       if ce_writable env path then Inr path else Inl OutOfBounds))"

definition in_path :: "ctl_env \<Rightarrow> string \<Rightarrow> farg list \<Rightarrow> string res" where
  "in_path env fmt args =
     rbind (str_arg (ce_dir env)) (\<lambda>d. sprintf_100 (parse_fmt fmt) (d # args))"

record interval_report =
  r_skl :: skl_t
  r_glob :: u64
  r_all :: "tuple_t list"
  r_files :: "(string \<times> out_text) list"
  r_stat :: out_text

definition begin_inference :: "ctl_env \<Rightarrow> nat \<Rightarrow> u64 \<Rightarrow> skl_t \<Rightarrow> u64 \<Rightarrow> (key_tbl \<times> string \<times> infer_state) res" where
  "begin_inference env interval glob skl tot_size =
     rbind (new_table env glob) (\<lambda>(tbl_true0, glob1).
     rbind (new_table env glob1) (\<lambda>(tbl_detect, glob2).
     rbind (in_path env ''%s/true_flows/true_%d'' [IntArg (int interval)]) (\<lambda>true_path.
     rbind (key_tbl_read_file (ce_junk env) (ce_stack env) (ce_reads env true_path) tbl_true0) (\<lambda>(tot, tbl_true).
     rbind (out_path env ''%s/controller/quality_%d'' interval) (\<lambda>quality.
       Inr (tbl_true, quality,
            \<lparr>i_skl = skl, i_glob = glob2, i_tbl = tbl_detect, i_list = [], i_all = [],
             i_out = [OStr (''tot_size '' @ show_int (uint tot_size) @ '' avg '' @
               show_int (uint (tot_size div of_nat (width skl))) @ nl)]\<rparr>))))))"

definition end_inference ::
    "ctl_env \<Rightarrow> nat \<Rightarrow> u64 \<Rightarrow> key_tbl \<Rightarrow> string \<Rightarrow> infer_state \<Rightarrow> interval_report res" where
  "end_inference env interval tot_size tbl_true quality st =
     rbind (out_path env ''%s/controller/res_sketch_%d'' interval) (\<lambda>res_path.
     rbind (out_path env ''%s/controller/large_flows_%d'' interval) (\<lambda>keys_path.
       let n = lgn (i_skl st);
           flows = qsort cmp_rich (i_list st);
           fps = filter (false_positive tbl_true) flows;
           list_true = qsort cmp_tuple (key_tbl_get_all tbl_true);
           bound = dbl_of_int (uint tot_size) * dlit 1 10000;
           m = missed_flows (i_tbl st) bound list_true
       in Inr \<lparr>r_skl = i_skl st, r_glob = i_glob st, r_all = i_all st,
               r_files =
                 [(res_path, [OStr (SKL_Print (i_skl st))]),
                  (keys_path, concat (map (keys_entry n) flows)),
                  (quality, i_out st @ [OStr (''====Final Results===='' @ nl)] @
                     concat (map (quality_entry tbl_true n) flows) @ [OStr (''false positives:'' @ nl)] @
                     map (\<lambda>r. OStr (print_tuple (rich_tuple r))) fps @ [OStr (''false negatives:'' @ nl)] @ m_out m)],
               r_stat = stat_text env tot_size (int (length flows)) (int (length fps)) m\<rparr>))"

definition do_inference :: "ctl_env \<Rightarrow> nat \<Rightarrow> u64 \<Rightarrow> skl_t \<Rightarrow> u64 \<Rightarrow> interval_report res option" where
  "do_inference env interval glob skl tot_size =
     (case begin_inference env interval glob skl tot_size of
        Inl e \<Rightarrow> Some (Inl e)
      | Inr (tbl_true, quality, st) \<Rightarrow>
          map_option (\<lambda>r. rbind r (end_inference env interval tot_size tbl_true quality)) (infer_loop env 2 st))"

section \<open>The program\<close>

text \<open>\<open>tot_size\<close>: the totals of the buckets of row 0, as 64-bit numbers.\<close>

definition row0_total :: "skl_t \<Rightarrow> u64" where
  "row0_total skl = for_upto (min (width skl) (sk_size skl)) (\<lambda>i tot. tot + scast (counts skl ! i ! 0)) 0"

record ctl_state =
  c_skl :: skl_t
  c_glob :: u64
  c_files :: "(string \<times> out_text) list"
  c_stat :: out_text

text \<open>The sketch file of interval \<open>i\<close>, read into the sketch.\<close>

definition read_interval :: "ctl_env \<Rightarrow> u64 \<Rightarrow> nat \<Rightarrow> skl_t \<Rightarrow> skl_t res" where
  "read_interval env junk64 i skl =
     rbind (in_path env ''%s/sketches/%s_%d'' [StrArg ''sketchlearn'', IntArg (int i)]) (\<lambda>path.
       SKL_ReadFile junk64 (ce_junk env) (ce_reads env path) skl)"

text \<open>The loop over the intervals, of which \<open>n\<close> are left; \<open>clock i\<close> is the time inference takes.\<close>

fun ctl_intervals :: "ctl_env \<Rightarrow> u64 \<Rightarrow> (nat \<Rightarrow> u64) \<Rightarrow> nat \<Rightarrow> nat \<Rightarrow> ctl_state \<Rightarrow> ctl_state res option" where
  "ctl_intervals env junk64 clock i 0 st = Some (Inr st)"
| "ctl_intervals env junk64 clock i (Suc n) st =
     (case read_interval env junk64 i (c_skl st) of
        Inl e \<Rightarrow> Some (Inl e)
      | Inr skl \<Rightarrow>
          (case do_inference env i (c_glob st) skl (row0_total skl) of
             None \<Rightarrow> None
           | Some (Inl e) \<Rightarrow> Some (Inl e)
           | Some (Inr r) \<Rightarrow>
               ctl_intervals env junk64 clock (i + 1) n
                 \<lparr>c_skl = r_skl r, c_glob = r_glob r, c_files = c_files st @ r_files r,
                  c_stat = c_stat st @ [OStr (''time interval: '' @ show_int (int i) @ nl)] @ r_stat r @
                    [OStr ''decode_time: '',
                     ODbl (1 * dbl_of_int (uint (clock i)) div dbl_of_int 1000000), OStr (nl @ nl),
                     OStr (''====================='' @ nl @ nl)]\<rparr>))"

definition ctl_setup ::
    "'d iniparser \<Rightarrow> 'd conf_t \<Rightarrow> u64 \<Rightarrow> (dbl \<Rightarrow> dbl) \<Rightarrow> (string \<Rightarrow> string option) \<Rightarrow> (string \<Rightarrow> bool) \<Rightarrow>
     nat \<Rightarrow> byte list \<Rightarrow> bit_info list \<Rightarrow> u32 \<Rightarrow> tuple_t \<Rightarrow> ctl_env res" where
  "ctl_setup ini conf rand erf reads writable max_ret template infos junk stack =
     rbind (conf_common_trace_dir ini conf) (\<lambda>dir.
     rbind (conf_skl_width ini conf) (\<lambda>width.
     rbind (conf_skl_depth ini conf) (\<lambda>depth.
     rbind (conf_common_key_len ini conf) (\<lambda>key_len.
     rbind (conf_keytbl_timeout ini conf) (\<lambda>timeout.
       Inr \<lparr>ce_dir = dir, ce_width = width, ce_depth = depth, ce_key_len = key_len, ce_timeout = timeout,
            ce_rand = rand, ce_erf = erf, ce_reads = reads, ce_writable = writable, ce_max_ret = max_ret,
            ce_template = template, ce_infos = infos, ce_junk = junk, ce_stack = stack\<rparr>)))))"

definition controller ::
    "'d iniparser \<Rightarrow> ('d conf_t \<Rightarrow> ctl_env res) \<Rightarrow> u64 \<Rightarrow> (nat \<Rightarrow> u64) \<Rightarrow> string list \<Rightarrow> ctl_state res option" where
  "controller ini setup junk64 clock argv =
     (case (if length argv \<noteq> 2 then Inl ExitError
            else
              rbind (Config_Init ini (Some (argv ! 1))) (\<lambda>conf.
              rbind (conf_common_num_interval ini conf) (\<lambda>n.
              rbind (setup conf) (\<lambda>env.
              rbind (new_sketch env 0) (\<lambda>(skl, glob).
              rbind (in_path env ''%s/controller'' []) (\<lambda>dir.
              rbind (in_path env ''%s/controller/stat'' []) (\<lambda>stat.
                if ce_writable env stat then Inr (env, nat (sint (ucast n :: i32)), skl, glob)
                else Inl ExitError))))))) of
        Inl e \<Rightarrow> Some (Inl e)
      | Inr (env, n, skl, glob) \<Rightarrow>
          ctl_intervals env junk64 clock 0 n \<lparr>c_skl = skl, c_glob = glob, c_files = [], c_stat = []\<rparr>)"

section \<open>The controller ends\<close>

text \<open>
  A round that finds a flow has seen a key that no earlier round had, and there are finitely many
  keys.
\<close>

definition known :: "key_tbl \<Rightarrow> flow_key set" where
  "known tbl = {k. kt_total tbl k \<noteq> None}"

lemma finite_flow_key: "finite (A :: flow_key set)"
proof (rule finite_subset [OF subset_UNIV], rule finite_imageD)
  have "key_bytes ` UNIV \<subseteq> {bs. set bs \<subseteq> UNIV \<and> length bs = 13}" by auto
  then show "finite (key_bytes ` UNIV)" by (rule finite_subset) (rule finite_lists_length_eq [OF finite])
  show "inj_on key_bytes UNIV" by (rule inj_onI) simp
qed

lemma find_known: "key_tbl_find tbl k = None \<longleftrightarrow> k \<notin> known tbl"
  unfolding known_def kt_total_def by (cases "key_tbl_find tbl k") auto

lemma add_known:
  assumes "key_tbl_add tbl k v = Inr tbl'" "kt_flows tbl"
  shows "kt_flows tbl' \<and> known tbl' = insert k (known tbl)"
proof -
  have f: "kt_acc tbl \<and> kbits tbl div 8 = 13" using assms(2) by (simp add: kt_flows_def)
  have "kt_total tbl' j \<noteq> None \<longleftrightarrow> j = k \<or> kt_total tbl j \<noteq> None" for j
  proof (cases "j = k")
    case True
    then show ?thesis using keytbl.look_add [OF f assms(1), of j] by simp
  next
    case False
    then have "take 13 (key_bytes j) \<noteq> take 13 (key_bytes k)" by simp
    then show ?thesis using keytbl.look_add_other [OF f assms(1), of j] False by simp
  qed
  then show ?thesis using keytbl.add_inv [OF f assms(1)] by (auto simp: known_def kt_flows_def)
qed

lemma dedupe_known:
  assumes "dedupe fs i n tbl tmp = Inr (n', tbl', tmp')" "kt_flows tbl"
  shows "kt_flows tbl' \<and> n \<le> n' \<and> known tbl \<subseteq> known tbl' \<and> (n < n' \<longrightarrow> known tbl \<subset> known tbl') \<and>
    length tmp' = length tmp"
  using assms
proof (induction fs i n tbl tmp rule: dedupe.induct)
  case (2 f fs i n tbl tmp)
  let ?key = "bytes_key (fkey f)"
  show ?case
  proof (cases "key_tbl_find tbl ?key = None")
    case True
    then obtain tbl1 tmp1 where a: "key_tbl_add tbl ?key 1 = Inr tbl1"
      "dedupe fs (i + 1) (n + 1) tbl1 tmp1 = Inr (n', tbl', tmp')" "length tmp1 = length tmp"
      using "2.prems"(1) by (auto simp: Let_def rbind_Inr_iff arr_get_def arr_set_def split: if_splits)
    have k: "kt_flows tbl1" "known tbl1 = insert ?key (known tbl)" "?key \<notin> known tbl"
      using add_known [OF a(1) "2.prems"(2)] True by (auto simp: find_known)
    have "kt_flows tbl' \<and> n + 1 \<le> n' \<and> known tbl1 \<subseteq> known tbl' \<and> length tmp' = length tmp1"
      using a k(1) True "2.prems"(1) "2.IH"(2) by (auto simp: Let_def rbind_Inr_iff arr_get_def arr_set_def split: if_splits)
    then show ?thesis using k a(3) by auto
  next
    case False
    then show ?thesis using "2.IH"(1) "2.prems" by (auto simp: Let_def)
  qed
qed simp

lemma detect_roundE:
  assumes "detect_round env thresh st = Inr (again, st')"
  obtains skl1 fs n tbl' tmp1 tmp3 ret' skl2 where
    "SKL_Identify_Thresh (ce_erf env) (d_skl st) thresh (ce_max_ret env) (ce_template env) = Inr (skl1, fs)"
    "dedupe fs 0 0 (d_tbl st) (d_tmp st) = Inr (n, tbl', tmp1)"
    "for_res n (accept_flow env skl1) (qsort cmp_rich (take n tmp1) @ drop n tmp1, d_ret st) = Inr (tmp3, ret')"
    "remove_large skl1 (take n tmp3) = Inr skl2"
    "again = (length ret' \<noteq> length (d_ret st))"
    "st' = \<lparr>d_skl = skl2, d_tbl = tbl', d_tmp = tmp3, d_ret = ret'\<rparr>"
  using assms that unfolding detect_round_def Let_def by (clarsimp simp: case_prod_beta)

lemma detect_round_known:
  assumes "detect_round env thresh st = Inr (again, st')" "kt_flows (d_tbl st)"
  shows "kt_flows (d_tbl st') \<and> (again \<longrightarrow> known (d_tbl st) \<subset> known (d_tbl st'))"
proof -
  obtain skl1 fs n tbl' tmp1 tmp3 ret' skl2 where
    d: "dedupe fs 0 0 (d_tbl st) (d_tmp st) = Inr (n, tbl', tmp1)" and
    f: "for_res n (accept_flow env skl1) (qsort cmp_rich (take n tmp1) @ drop n tmp1, d_ret st) = Inr (tmp3, ret')" and
    r: "again = (length ret' \<noteq> length (d_ret st))"
      "st' = \<lparr>d_skl = skl2, d_tbl = tbl', d_tmp = tmp3, d_ret = ret'\<rparr>"
    by (rule detect_roundE [OF assms(1)])
  have "n \<noteq> 0" if again using f r(1) that by (cases n) auto
  then show ?thesis using dedupe_known [OF d assms(2)] r by auto
qed

lemma detect_loop_returns:
  assumes "kt_flows (d_tbl st)"
  shows "\<exists>r. detect_loop env thresh st = Some r"
  using assms
proof (induction "card (- known (d_tbl st))" arbitrary: st rule: less_induct)
  case less
  show ?case
  proof (cases "detect_round env thresh st")
    case (Inl e)
    then show ?thesis by (subst detect_loop.simps) simp
  next
    case (Inr r)
    obtain again st' where r: "r = (again, st')" by fastforce
    note k = detect_round_known [OF Inr [unfolded r] less.prems]
    show ?thesis
    proof (cases again)
      case True
      then have "- known (d_tbl st') \<subset> - known (d_tbl st)" using k by auto
      then have "card (- known (d_tbl st')) < card (- known (d_tbl st))"
        by (intro psubset_card_mono finite_flow_key)
      from less.hyps [OF this] k obtain q where "detect_loop env thresh st' = Some q" by blast
      then show ?thesis using Inr r True by (subst detect_loop.simps) simp
    next
      case False
      then show ?thesis using Inr r by (subst detect_loop.simps) simp
    qed
  qed
qed

lemma new_table_flows:
  assumes "new_table env glob = Inr (tbl, glob')" "ce_key_len env = 104" "ce_timeout env = - 1"
  shows "kt_flows tbl \<and> known tbl = {}"
proof -
  have "key_tbl_init (ce_rand env) glob 104 60000 10 (- 1) = Inr (tbl, glob')"
    using assms by (simp add: new_table_def)
  from init_flows [OF this] show ?thesis by (auto simp: INT_MAX_def known_def)
qed

lemma detect_returns:
  assumes "ce_key_len env = 104" "ce_timeout env = - 1"
  shows "\<exists>r. detect_with_thresh env glob skl thresh = Some r"
proof (cases "rbind (new_sketch env glob) (\<lambda>(skl0, glob1). rbind (SKL_Copy skl0 skl) (\<lambda>skl_new.
    rbind (new_table env glob1) (\<lambda>(tbl, glob2).
      Inr (\<lparr>d_skl = skl_new, d_tbl = tbl, d_tmp = replicate (ce_max_ret env) zero_rich, d_ret = []\<rparr>, glob2))))")
  case (Inl e)
  then show ?thesis by (simp add: detect_with_thresh_def)
next
  case (Inr r)
  obtain st glob2 where r: "r = (st, glob2)" by fastforce
  then have "kt_flows (d_tbl st)" using Inr new_table_flows [OF _ assms] by auto
  then obtain q where "detect_loop env thresh st = Some q" using detect_loop_returns by blast
  then show ?thesis using Inr r by (simp add: detect_with_thresh_def)
qed

lemma thresholds: "\<not> 1 div dbl_of_int 2 < min_thresh" "\<not> 1 div dbl_of_int 3 < min_thresh" "1 div dbl_of_int 4 < min_thresh"
  by code_simp+

text \<open>Two thresholds are tried at most: from \<open>d = 4\<close> on the loop stops at once.\<close>

lemma infer_loop_returns:
  assumes "ce_key_len env = 104" "ce_timeout env = - 1" "d \<in> {2, 3, 4}"
  shows "\<exists>r. infer_loop env d st = Some r"
proof -
  have 4: "infer_loop env 4 st = Some (Inr st)" for st
    using thresholds(3) by (subst infer_loop.simps) simp
  have step: "\<exists>r. infer_loop env e st = Some r" if "\<And>st. \<exists>r. infer_loop env (e + 1) st = Some r" for e st
  proof -
    obtain r where r: "detect_with_thresh env (i_glob st) (i_skl st) (1 div dbl_of_int (int e)) = Some r"
      using detect_returns [OF assms(1,2)] by blast
    show ?thesis using that
      by (subst infer_loop.simps) (auto simp: r Let_def split: sum.split)
  qed
  have 3: "\<exists>r. infer_loop env 3 st = Some r" for st using step [of 3] 4 by auto
  then show ?thesis using assms(3) step [of 2] 4 by auto
qed

text \<open>C8: the controller always ends. For keys of 104 bits and tables without expiry (the defaults),
  whatever the sketch and the files hold, every loop of the controller ends: the result is the
  reports of all intervals or one of the ways the process stops, never an endless loop. In
  particular the detection loop, which runs until a round finds nothing, gets there.
\<close>

theorem controller_returns:
  assumes "ce_key_len env = 104" "ce_timeout env = - 1"
  shows "\<exists>r. ctl_intervals env junk64 clock i n st = Some r"
proof (induction n arbitrary: i st)
  case (Suc n)
  have "\<exists>r. do_inference env i glob skl tot = Some r" for glob skl tot
  proof (cases "begin_inference env i glob skl tot")
    case (Inr b)
    obtain tbl quality st where b: "b = (tbl, quality, st)" by (cases b)
    obtain r where "infer_loop env 2 st = Some r" using infer_loop_returns [OF assms] by blast
    then show ?thesis using Inr b by (simp add: do_inference_def)
  qed (simp add: do_inference_def)
  then show ?case using Suc.IH by (auto split: sum.split option.split) (metis option.distinct(1))
qed simp

section \<open>What is left in the sketch\<close>

text \<open>The record that takes a detected flow out of a sketch.\<close>

definition removed :: "rich_tuple_t \<Rightarrow> tuple_t" where
  "removed r = (rich_tuple r)\<lparr>tsize := - rsize r\<rparr>"

definition stats_ok :: "skl_t \<Rightarrow> tuple_t list \<Rightarrow> skl_t \<Rightarrow> bool" where
  "stats_ok s g t \<longleftrightarrow> (\<exists>m d. length m = 104 \<and> length d = 104 \<and> t = with_stats m d (group_sketch s g))"

lemma remove_large_run:
  "remove_large skl flows = SKL_CompleteZeroes (run_sketch SKL_Update (key_stream (map removed flows)) skl)"
proof -
  have "fold (\<lambda>r s. SKL_Update s (key_bytes (rkey r)) (- rsize r)) flows skl =
      run_sketch SKL_Update (key_stream (map removed flows)) skl"
    by (induction flows arbitrary: skl) (simp_all add: key_stream_def removed_def rich_tuple_def)
  then show ?thesis by (simp add: remove_large_def)
qed

lemma remove_large_group:
  assumes "skl_ok s" "depth s * width s \<noteq> 1" "stats_ok s g t"
  shows "\<exists>u. remove_large t flows = Inr u \<and> stats_ok s (g @ map removed flows) u"
proof -
  from assms(3) obtain m d where t: "length m = 104" "length d = 104" "t = with_stats m d (group_sketch s g)"
    by (auto simp: stats_ok_def)
  have gs: "same_sketch (group_sketch s g) s" by (rule group_sketch_ok [OF assms(1)])
  then have g: "skl_ok (group_sketch s g)" "depth (group_sketch s g) * width (group_sketch s g) \<noteq> 1"
    using assms(2) by (auto simp: same_sketch_def)
  from complete_group [OF g(1) t(1,2) g(2), of "map removed flows"] show ?thesis
    unfolding remove_large_run t(3) run_sketch_stats group_sketch_more [OF assms(1)] by (auto simp: stats_ok_def)
qed

text \<open>The detected flows have positive sizes and different keys, which the table knows.\<close>

definition positive :: "rich_tuple_t list \<Rightarrow> bool" where
  "positive rs \<longleftrightarrow> (\<forall>r \<in> set rs. 0 < sint (rsize r))"

definition detect_inv :: "detect_state \<Rightarrow> bool" where
  "detect_inv st \<longleftrightarrow> kt_flows (d_tbl st) \<and> positive (d_ret st) \<and> distinct (map rkey (d_ret st)) \<and>
     rkey ` set (d_ret st) \<subseteq> known (d_tbl st)"

lemma take_Suc_update: "n < length ks \<Longrightarrow> take (Suc n) (ks[n := k]) = take n ks @ [k]"
  by (simp add: take_Suc_conv_app_nth)

lemma dedupe_keys:
  assumes "dedupe fs i n tbl tmp = Inr (n', tbl', tmp')" "kt_flows tbl" "n \<le> length tmp"
    and "distinct (take n (map rkey tmp))" "set (take n (map rkey tmp)) \<inter> K = {}"
    and "known tbl = K \<union> set (take n (map rkey tmp))"
  shows "n' \<le> length tmp' \<and> distinct (take n' (map rkey tmp')) \<and> set (take n' (map rkey tmp')) \<inter> K = {} \<and>
    known tbl' = K \<union> set (take n' (map rkey tmp'))"
  using assms
proof (induction fs i n tbl tmp rule: dedupe.induct)
  case (2 f fs i n tbl tmp)
  let ?key = "bytes_key (fkey f)"
  show ?case
  proof (cases "key_tbl_find tbl ?key = None")
    case True
    define tmp1 where "tmp1 = tmp[n := (tmp ! n)\<lparr>rkey := ?key, rsize := fval f\<rparr>]"
    define tmp2 where "tmp2 = tmp1[i := (tmp1 ! i)\<lparr>rconf := fconfs f\<rparr>]"
    from True "2.prems"(1) obtain tbl1 where a: "key_tbl_add tbl ?key 1 = Inr tbl1" "n < length tmp" "i < length tmp"
      "dedupe fs (i + 1) (n + 1) tbl1 tmp2 = Inr (n', tbl', tmp')"
      by (auto simp: Let_def rbind_Inr_iff arr_get_def arr_set_def tmp1_def tmp2_def split: if_splits)
    note k = add_known [OF a(1) "2.prems"(2)]
    have new: "?key \<notin> known tbl" using True by (simp add: find_known)
    have "map rkey tmp2 = map rkey tmp1" unfolding tmp2_def
      using a(3) by (simp add: map_update) (metis length_map list_update_id nth_map tmp1_def length_list_update)
    then have m: "map rkey tmp2 = (map rkey tmp)[n := ?key]" by (simp add: tmp1_def map_update)
    have t: "take (n + 1) (map rkey tmp2) = take n (map rkey tmp) @ [?key]"
      unfolding m using take_Suc_update [of n "map rkey tmp"] a(2) by simp
    have "length tmp2 = length tmp" by (simp add: tmp2_def tmp1_def)
    have nn: "\<not> key_tbl_find tbl ?key \<noteq> None" using True by simp
    have p: "n + 1 \<le> length tmp2" "distinct (take (n + 1) (map rkey tmp2))"
      "set (take (n + 1) (map rkey tmp2)) \<inter> K = {}" "known tbl1 = K \<union> set (take (n + 1) (map rkey tmp2))"
      using \<open>length tmp2 = length tmp\<close> a(2) "2.prems"(4-6) new k unfolding t by auto
    show ?thesis by (rule "2.IH"(2) [OF refl nn a(4) conjunct1 [OF k] p])
  next
    case False
    then show ?thesis using "2.IH"(1) "2.prems" by (auto simp: Let_def)
  qed
qed simp

text \<open>Accepting keeps the keys of \<open>list_tmp\<close> and appends some of them, in order.\<close>

lemma accept_flow_keys:
  assumes "accept_flow env skl i (tmp, ret) = Inr (tmp', ret')" "i < length tmp"
  shows "map rkey tmp' = map rkey tmp \<and>
    (ret' = ret \<or> (\<exists>r. ret' = ret @ [r] \<and> rkey r = rkey (tmp ! i) \<and> 0 < sint (rsize r)))"
proof -
  have e: "\<exists>r. tmp' = tmp[i := r] \<and> rkey r = rkey (tmp ! i) \<and> (ret' = ret \<or> ret' = ret @ [r] \<and> 0 < sint (rsize r))"
    using assms by (auto simp: accept_flow_def Let_def rbind_Inr_iff split: if_splits)
  then obtain r where r: "tmp' = tmp[i := r]" "rkey r = rkey (tmp ! i)" "ret' = ret \<or> ret' = ret @ [r] \<and> 0 < sint (rsize r)"
    by blast
  have "map rkey tmp' = (map rkey tmp)[i := map rkey tmp ! i]" using r(1,2) assms(2) by (simp add: map_update)
  then have "map rkey tmp' = map rkey tmp" by (simp only: list_update_id)
  then show ?thesis using r(2,3) by auto
qed

lemma detect_round_inv:
  assumes "detect_round env thresh st = Inr (again, st')" "detect_inv st"
  shows "detect_inv st'"
proof -
  obtain skl1 fs n tbl' tmp1 tmp3 ret' skl2 where
    d: "dedupe fs 0 0 (d_tbl st) (d_tmp st) = Inr (n, tbl', tmp1)"
    and f: "for_res n (accept_flow env skl1) (qsort cmp_rich (take n tmp1) @ drop n tmp1, d_ret st) = Inr (tmp3, ret')"
    and r: "st' = \<lparr>d_skl = skl2, d_tbl = tbl', d_tmp = tmp3, d_ret = ret'\<rparr>"
    by (rule detect_roundE [OF assms(1)])
  define K where "K = known (d_tbl st)"
  have i: "kt_flows (d_tbl st)" "positive (d_ret st)" "distinct (map rkey (d_ret st))" "rkey ` set (d_ret st) \<subseteq> K"
    using assms(2) by (auto simp: detect_inv_def K_def)
  have k: "n \<le> length tmp1" "distinct (take n (map rkey tmp1))" "set (take n (map rkey tmp1)) \<inter> K = {}"
    "known tbl' = K \<union> set (take n (map rkey tmp1))"
    using dedupe_keys [OF d i(1), of K] by (simp_all add: K_def [symmetric])
  define tmp2 where "tmp2 = qsort cmp_rich (take n tmp1) @ drop n tmp1"
  define ks where "ks = map rkey tmp2"
  have q: "mset (map rkey (qsort cmp_rich (take n tmp1))) = mset (take n (map rkey tmp1))"
    by (simp add: mset_qsort take_map)
  have t: "take n ks = map rkey (qsort cmp_rich (take n tmp1))" using k(1) by (simp add: ks_def tmp2_def)
  have n: "n \<le> length ks" "distinct (take n ks)" "set (take n ks) = set (take n (map rkey tmp1))"
    using k(1,2) mset_eq_imp_distinct_iff [OF q] mset_eq_setD [OF q] by (simp_all add: t) (simp add: ks_def tmp2_def)
  let ?I = "\<lambda>i (tmp, ret). map rkey tmp = ks \<and> positive ret \<and> distinct (map rkey ret) \<and>
    rkey ` set ret \<subseteq> K \<union> set (take i ks)"
  have "?I n (tmp3, ret')"
  proof (rule for_res_rule [OF f, where I = ?I])
    show "?I 0 (qsort cmp_rich (take n tmp1) @ drop n tmp1, d_ret st)"
      using i by (simp add: ks_def tmp2_def)
  next
    fix j x y assume j: "j < n" "?I j x" "accept_flow env skl1 j x = Inr y"
    obtain tm rt tm' rt' where xy: "x = (tm, rt)" "y = (tm', rt')" by (cases x, cases y) auto
    have h: "map rkey tm = ks" "positive rt" "distinct (map rkey rt)" "rkey ` set rt \<subseteq> K \<union> set (take j ks)"
      using j(2) xy by auto
    have l: "j < length tm" "j < length ks" using j(1) n(1) h(1) by auto
    note a = accept_flow_keys [OF j(3) [unfolded xy] l(1)]
    have kj: "rkey (tm ! j) = ks ! j" using h(1) l(1) by auto
    have s: "take (Suc j) ks = take j ks @ [ks ! j]" using l(2) by (rule take_Suc_conv_app_nth)
    have "take (Suc j) (take n ks) = take (Suc j) ks" using j(1) by (simp add: min_def)
    then have "distinct (take (Suc j) ks)" using n(2) distinct_take by metis
    then have nj: "ks ! j \<notin> set (take j ks)" unfolding s by simp
    have "take n ks ! j = ks ! j" "j < length (take n ks)" using j(1) n(1) by simp_all
    then have "ks ! j \<in> set (take n ks)" by (metis nth_mem)
    then have "ks ! j \<notin> K" using n(3) k(3) by blast
    then have nr: "ks ! j \<notin> rkey ` set rt" using h(4) nj by blast
    have m: "map rkey tm' = ks" using a h(1) by simp
    from a have "rt' = rt \<or> (\<exists>r. rt' = rt @ [r] \<and> rkey r = ks ! j \<and> 0 < sint (rsize r))" unfolding kj by blast
    then show "?I (Suc j) y"
    proof
      assume "rt' = rt"
      then show ?thesis using m h(2-4) by (simp add: xy s) blast
    next
      assume "\<exists>r. rt' = rt @ [r] \<and> rkey r = ks ! j \<and> 0 < sint (rsize r)"
      then obtain q where q: "rt' = rt @ [q]" "rkey q = ks ! j" "0 < sint (rsize q)" by blast
      have "positive rt'" using h(2) q by (simp add: positive_def)
      moreover have "distinct (map rkey rt')" using h(3) nr q(1,2) by simp
      moreover have "rkey ` set rt' \<subseteq> K \<union> set (take (Suc j) ks)"
        using h(4) unfolding s q(1) by (simp add: q(2)) blast
      ultimately show ?thesis using m by (simp add: xy)
    qed
  qed
  then show ?thesis using dedupe_known [OF d i(1)] k(4) n(3) by (auto simp: detect_inv_def r)
qed

lemma detect_loop_inv:
  assumes "detect_inv st" "detect_loop env thresh st = Some (Inr ret)"
  shows "\<exists>st'. detect_inv st' \<and> ret = d_ret st'"
  using assms
proof (induction "card (- known (d_tbl st))" arbitrary: st rule: less_induct)
  case less
  obtain again st' where r: "detect_round env thresh st = Inr (again, st')"
    using less.prems(2) by (subst (asm) detect_loop.simps) (auto split: sum.splits)
  have "kt_flows (d_tbl st)" using less.prems(1) by (simp add: detect_inv_def)
  note k = detect_round_known [OF r this] and p = detect_round_inv [OF r less.prems(1)]
  show ?case
  proof (cases again)
    case True
    then have "- known (d_tbl st') \<subset> - known (d_tbl st)" using k by auto
    then have "card (- known (d_tbl st')) < card (- known (d_tbl st))"
      by (intro psubset_card_mono finite_flow_key)
    moreover have "detect_loop env thresh st' = Some (Inr ret)"
      using less.prems(2) r True by (subst (asm) detect_loop.simps) simp
    ultimately show ?thesis using less.hyps p by blast
  next
    case False
    then show ?thesis using less.prems(2) r p by (subst (asm) detect_loop.simps) auto
  qed
qed

lemma detect_flows:
  assumes "detect_with_thresh env glob skl thresh = Some (Inr (ret, glob'))" "ce_key_len env = 104" "ce_timeout env = - 1"
  shows "positive ret \<and> distinct (map rkey ret)"
proof -
  from assms(1) obtain x tbl g where st: "new_table env g = Inr (tbl, glob')"
    "detect_loop env thresh \<lparr>d_skl = x, d_tbl = tbl, d_tmp = replicate (ce_max_ret env) zero_rich, d_ret = []\<rparr>
      = Some (Inr ret)"
    by (auto simp: detect_with_thresh_def split: sum.splits)
  from new_table_flows [OF st(1) assms(2,3)] detect_loop_inv [OF _ st(2)] show ?thesis
    by (auto simp: positive_def detect_inv_def)
qed

text \<open>Recording a list of flows with different keys: those that are new, in order.\<close>

lemma record_flows_new:
  assumes "record_flows max_ret rs st = Inr st'" "kt_flows (i_tbl st)" "distinct (map rkey rs)"
  shows "i_skl st' = i_skl st \<and> i_glob st' = i_glob st \<and> kt_flows (i_tbl st') \<and>
    known (i_tbl st') = known (i_tbl st) \<union> rkey ` set rs \<and>
    i_all st' = i_all st @ map rich_tuple (filter (\<lambda>r. rkey r \<notin> known (i_tbl st)) rs)"
  using assms
proof (induction max_ret rs st rule: record_flows.induct)
  case (2 max_ret r rs st)
  show ?case
  proof (cases "key_tbl_find (i_tbl st) (rkey r) = None")
    case True
    with "2.prems"(1) obtain tbl where a: "\<not> (max_ret \<le> length (i_list st) \<or> max_ret \<le> length (i_all st))"
      "key_tbl_add (i_tbl st) (rkey r) (rsize r) = Inr tbl"
      "record_flows max_ret rs (st\<lparr>i_tbl := tbl, i_list := i_list st @ [r], i_all := i_all st @ [rich_tuple r]\<rparr>) = Inr st'"
      by (auto split: if_splits)
    have k: "kt_flows tbl" "known tbl = insert (rkey r) (known (i_tbl st))" "rkey r \<notin> known (i_tbl st)"
      using add_known [OF a(2) "2.prems"(2)] True by (auto simp: find_known)
    have "rkey q \<noteq> rkey r" if "q \<in> set rs" for q
      using that "2.prems"(3) by (metis distinct.simps(2) imageI list.set_map list.simps(9))
    then have "filter (\<lambda>q. rkey q \<notin> known tbl) rs = filter (\<lambda>q. rkey q \<notin> known (i_tbl st)) rs"
      by (intro filter_cong) (simp_all add: k(2))
    then show ?thesis using "2.IH"(1) [OF True a(1,3)] k "2.prems"(3) by simp
  next
    case False
    then have "rkey r \<in> known (i_tbl st)" by (simp add: find_known)
    then show ?thesis using "2.IH"(2) [OF False] "2.prems" False by auto
  qed
qed simp

lemma infer_loopE:
  assumes "infer_loop env e st = Some (Inr st')" "\<not> 1 div dbl_of_int (int e) < min_thresh"
  obtains ret glob where
    "detect_with_thresh env (i_glob st) (i_skl st) (1 div dbl_of_int (int e)) = Some (Inr (ret, glob))"
    "ret = [] \<longrightarrow> st' = st\<lparr>i_glob := glob\<rparr>"
    "ret \<noteq> [] \<longrightarrow> (\<exists>st1 skl2 out. record_flows (ce_max_ret env) ret (st\<lparr>i_glob := glob\<rparr>) = Inr st1 \<and>
       remove_large (i_skl st1) ret = Inr skl2 \<and>
       infer_loop env (e + 1) (st1\<lparr>i_skl := skl2, i_out := out\<rparr>) = Some (Inr st'))"
proof -
  obtain ret glob where r:
    "detect_with_thresh env (i_glob st) (i_skl st) (1 div dbl_of_int (int e)) = Some (Inr (ret, glob))"
    using assms by (subst (asm) infer_loop.simps) (auto simp: Let_def split: option.splits sum.splits)
  show ?thesis
  proof (rule that [OF r]; intro impI)
    assume "ret = []"
    then show "st' = st\<lparr>i_glob := glob\<rparr>" using assms r by (subst (asm) infer_loop.simps) (simp add: Let_def)
  next
    assume "ret \<noteq> []"
    with assms r show "\<exists>st1 skl2 out. record_flows (ce_max_ret env) ret (st\<lparr>i_glob := glob\<rparr>) = Inr st1 \<and>
       remove_large (i_skl st1) ret = Inr skl2 \<and>
       infer_loop env (e + 1) (st1\<lparr>i_skl := skl2, i_out := out\<rparr>) = Some (Inr st')"
      by (subst (asm) infer_loop.simps) (auto simp: Let_def rbind_Inr_iff split: sum.splits)
  qed
qed

text \<open>One threshold: what is detected in the sketch of \<open>h\<close> is recorded and taken out.\<close>

definition infer_ok :: "skl_t \<Rightarrow> tuple_t list \<Rightarrow> infer_state \<Rightarrow> bool" where
  "infer_ok s h st \<longleftrightarrow> stats_ok s h (i_skl st) \<and> kt_flows (i_tbl st)"

lemma infer_stepE:
  assumes "infer_loop env e st = Some (Inr st')" "\<not> 1 div dbl_of_int (int e) < min_thresh" "infer_ok s h st"
    and "skl_ok s" "depth s * width s \<noteq> 1" "ce_key_len env = 104" "ce_timeout env = - 1"
  obtains ret glob st1 where
    "detect_with_thresh env (i_glob st) (i_skl st) (1 div dbl_of_int (int e)) = Some (Inr (ret, glob))"
    "positive ret" "distinct (map rkey ret)" "infer_ok s (h @ map removed ret) st1" "i_glob st1 = glob"
    "known (i_tbl st1) = known (i_tbl st) \<union> rkey ` set ret"
    "i_all st1 = i_all st @ map rich_tuple (filter (\<lambda>r. rkey r \<notin> known (i_tbl st)) ret)"
    "if ret = [] then st' = st1 else infer_loop env (e + 1) st1 = Some (Inr st')"
proof -
  obtain ret glob where r:
    "detect_with_thresh env (i_glob st) (i_skl st) (1 div dbl_of_int (int e)) = Some (Inr (ret, glob))"
    "ret = [] \<longrightarrow> st' = st\<lparr>i_glob := glob\<rparr>"
    "ret \<noteq> [] \<longrightarrow> (\<exists>st1 skl2 out. record_flows (ce_max_ret env) ret (st\<lparr>i_glob := glob\<rparr>) = Inr st1 \<and>
       remove_large (i_skl st1) ret = Inr skl2 \<and>
       infer_loop env (e + 1) (st1\<lparr>i_skl := skl2, i_out := out\<rparr>) = Some (Inr st'))"
    by (rule infer_loopE [OF assms(1,2)])
  note d = detect_flows [OF r(1) assms(6,7)]
  have i: "stats_ok s h (i_skl st)" "kt_flows (i_tbl st)" using assms(3) by (simp_all add: infer_ok_def)
  show ?thesis
  proof (cases "ret = []")
    case True
    then show ?thesis using r(2) d i by (intro that [OF r(1), of st']) (simp_all add: infer_ok_def)
  next
    case False
    then obtain st1 skl2 out where l: "record_flows (ce_max_ret env) ret (st\<lparr>i_glob := glob\<rparr>) = Inr st1"
      "remove_large (i_skl st1) ret = Inr skl2" "infer_loop env (e + 1) (st1\<lparr>i_skl := skl2, i_out := out\<rparr>) = Some (Inr st')"
      using r(3) by blast
    have f: "i_skl st1 = i_skl st" "i_glob st1 = glob" "kt_flows (i_tbl st1)"
      "known (i_tbl st1) = known (i_tbl st) \<union> rkey ` set ret"
      "i_all st1 = i_all st @ map rich_tuple (filter (\<lambda>r. rkey r \<notin> known (i_tbl st)) ret)"
      using record_flows_new [OF l(1)] i(2) d by simp_all
    have "stats_ok s (h @ map removed ret) skl2"
      using remove_large_group [OF assms(4,5) i(1), of ret] l(2) f(1) by auto
    then show ?thesis using f l(3) d False
      by (intro that [OF r(1), of "st1\<lparr>i_skl := skl2, i_out := out\<rparr>"]) (simp_all add: infer_ok_def)
  qed
qed

text \<open>C3: what inference takes out, leaves and reports, for the written sketch of the records \<open>g\<close> of an
  interval. Let \<open>ret1\<close> be the flows that \<open>detect_with_thresh\<close> finds in that sketch with the threshold
  1/2, and \<open>ret2\<close> those it finds with 1/3 in the sketch from which exactly \<open>ret1\<close> has been taken out (none
  when \<open>ret1\<close> is empty). All have positive sizes, and each list has every key once. The sketch
  after inference, the one printed as the residual, is counter by counter the completed sketch of \<open>g\<close>
  followed by the flows of both lists with negated sizes, and the reported flows are \<open>ret1\<close> and then
  those of \<open>ret2\<close> with other keys, in this order.\<close>

theorem do_inference_residual:
  assumes "skl_ok s" "depth s * width s \<noteq> 1" "ce_key_len env = 104" "ce_timeout env = - 1"
    and "stats_ok s g skl" "do_inference env i glob skl tot = Some (Inr r)"
  shows "\<exists>tbl_true quality st0 ret1 g1 mid ret2 g2.
    begin_inference env i glob skl tot = Inr (tbl_true, quality, st0) \<and>
    detect_with_thresh env (i_glob st0) skl (1 div dbl_of_int 2) = Some (Inr (ret1, g1)) \<and>
    stats_ok s (g @ map removed ret1) mid \<and>
    (if ret1 = [] then ret2 = [] else detect_with_thresh env g1 mid (1 div dbl_of_int 3) = Some (Inr (ret2, g2))) \<and>
    positive (ret1 @ ret2) \<and> distinct (map rkey ret1) \<and> distinct (map rkey ret2) \<and>
    stats_ok s (g @ map removed (ret1 @ ret2)) (r_skl r) \<and>
    SKL_Print (r_skl r) = SKL_Print (group_sketch s (g @ map removed (ret1 @ ret2))) \<and>
    r_all r = map rich_tuple (ret1 @ filter (\<lambda>r. rkey r \<notin> rkey ` set ret1) ret2)"
proof -
  from assms(6) obtain tbl quality st st' where b: "begin_inference env i glob skl tot = Inr (tbl, quality, st)"
    "infer_loop env 2 st = Some (Inr st')" "end_inference env i tot tbl quality st' = Inr r"
    by (auto simp: do_inference_def split: sum.splits)
  have e: "r_skl r = i_skl st'" "r_all r = i_all st'"
    using b(3) by (auto simp: end_inference_def Let_def)
  have st: "infer_ok s g st" "i_skl st = skl" "known (i_tbl st) = {}" "i_all st = []"
    using b(1) assms(5) new_table_flows [OF _ assms(3,4)] by (auto simp: begin_inference_def infer_ok_def)
  have th: "\<not> 1 div dbl_of_int (int 2) < min_thresh" "\<not> 1 div dbl_of_int (int 3) < min_thresh"
    using thresholds by simp_all
  obtain ret1 g1 st1 where 1:
    "detect_with_thresh env (i_glob st) (i_skl st) (1 div dbl_of_int (int 2)) = Some (Inr (ret1, g1))"
    "positive ret1" "distinct (map rkey ret1)" "infer_ok s (g @ map removed ret1) st1" "i_glob st1 = g1"
    "known (i_tbl st1) = known (i_tbl st) \<union> rkey ` set ret1"
    "i_all st1 = i_all st @ map rich_tuple (filter (\<lambda>r. rkey r \<notin> known (i_tbl st)) ret1)"
    "if ret1 = [] then st' = st1 else infer_loop env (2 + 1) st1 = Some (Inr st')"
    by (rule infer_stepE [OF b(2) th(1) st(1) assms(1-4)])
  have print: "SKL_Print u = SKL_Print (group_sketch s h)" if "stats_ok s h u" for u h
    using that by (auto simp: stats_ok_def)
  show ?thesis
  proof (cases "ret1 = []")
    case True
    then have "stats_ok s g (r_skl r)" "r_all r = []" using 1 e st by (auto simp: infer_ok_def)
    then show ?thesis using b(1) 1(1) st(2) True print assms(5)
      by (intro exI [of _ tbl] exI [of _ quality] exI [of _ st] exI [of _ "[]"] exI [of _ g1] exI [of _ skl]
          exI [of _ "[]"] exI [of _ 0]) (simp add: positive_def)
  next
    case False
    then have "infer_loop env 3 st1 = Some (Inr st')" using 1(8) by simp
    then obtain ret2 g2 st2 where 2:
      "detect_with_thresh env (i_glob st1) (i_skl st1) (1 div dbl_of_int (int 3)) = Some (Inr (ret2, g2))"
      "positive ret2" "distinct (map rkey ret2)" "infer_ok s ((g @ map removed ret1) @ map removed ret2) st2"
      "i_all st2 = i_all st1 @ map rich_tuple (filter (\<lambda>r. rkey r \<notin> known (i_tbl st1)) ret2)"
      "if ret2 = [] then st' = st2 else infer_loop env (3 + 1) st2 = Some (Inr st')"
      by (rule infer_stepE [OF _ th(2) 1(4) assms(1-4)])
    have "infer_loop env (3 + 1) st2 = Some (Inr st2)" using thresholds(3) by (subst infer_loop.simps) simp
    then have "st' = st2" using 2(6) by (auto split: if_splits)
    then have "stats_ok s (g @ map removed (ret1 @ ret2)) (r_skl r)"
      "r_all r = map rich_tuple (ret1 @ filter (\<lambda>r. rkey r \<notin> rkey ` set ret1) ret2)"
      using 2(4,5) 1(6,7) e st by (simp_all add: infer_ok_def)
    then show ?thesis using b(1) 1 2 st False print
      by (intro exI [of _ tbl] exI [of _ quality] exI [of _ st] exI [of _ ret1] exI [of _ g1] exI [of _ "i_skl st1"]
          exI [of _ ret2] exI [of _ g2]) (auto simp: positive_def infer_ok_def)
  qed
qed

section \<open>A concrete interval\<close>

text \<open>An interval without records: candidates are enumerated, but no estimate is positive.\<close>

lemma detect_thresh: "1 div dbl_of_int 2 = dlit 1 2"
  by code_simp

lemma identify_read:
  assumes "fresh_sketch s" "lgn s = 104" "depth s * width s \<noteq> 1" "length m = 104" "length d = 104"
  shows "\<exists>c. SKL_CompleteZeroes (run_sketch SKL_Update (key_stream g) s) = Inr c \<and>
    SKL_Identify_Thresh erf (with_stats m d (group_sketch s g)) ratio max_ret template =
      SKL_Identify_Thresh erf c ratio max_ret template"
proof -
  note ok = fresh_sketch_ok [OF assms(1)]
  let ?r = "run_sketch SKL_Update (key_stream g) s"
  have r: "skl_ok ?r" using run_ok [OF ok, of "key_stream g"] by (simp add: same_sketch_def)
  have e: "?r = with_stats (bit_mean ?r) (bit_std ?r) ?r" by (cases ?r) (simp add: with_stats_def)
  have l: "length (bit_mean ?r) = 104" "length (bit_std ?r) = 104" using r by (simp_all add: skl_ok_def)
  from complete_group [OF ok l assms(3), of g] obtain m' d' where
    c: "SKL_CompleteZeroes ?r = Inr (with_stats m' d' (group_sketch s g))" "length m' = 104" "length d' = 104"
    unfolding e [symmetric] by blast
  have "lgn (group_sketch s g) = 104" using group_sketch_ok [OF ok, of g] assms(2) by (simp add: same_sketch_def)
  from compute_bit_dists_stats [OF this assms(4,5) c(2,3)] show ?thesis
    using c(1) by (simp add: SKL_Identify_Thresh_def)
qed

lemma empty_group_zero:
  assumes "fresh_sketch s" "depth s * width s \<noteq> 1" "i < depth s" "j < width s" "p \<le> lgn s"
  shows "counts (group_sketch s []) ! (i * width s + j) ! p = 0"
proof -
  note ok = fresh_sketch_ok [OF assms(1)]
  have l: "length (bit_mean s) = 104" "length (bit_std s) = 104" using ok by (simp_all add: skl_ok_def)
  have "with_stats (bit_mean s) (bit_std s) (run_sketch SKL_Update (key_stream []) s) = run_sketch SKL_Update [] s"
    by (simp add: key_stream_def with_stats_def)
  with complete_group [OF ok l assms(2), of "[]"] obtain m d where
    c: "SKL_CompleteZeroes (run_sketch SKL_Update [] s) = Inr (with_stats m d (group_sketch s []))" by auto
  have "cell (with_stats m d (group_sketch s [])) (i * width s + j, p) = 0"
    using completed_cells [OF assms(1) c assms(3,4), of p] assms(5) by (cases "p = 0") (auto simp: sum_selected_def)
  then show ?thesis by (simp add: cell_def)
qed

lemma identify_empty:
  assumes "fresh_sketch s" "lgn s = 104" "depth s * width s \<noteq> 1" "length m = 104" "length d = 104"
    "13 \<le> length template" "2 \<le> max_ret"
  shows "\<exists>u fs. SKL_Identify_Thresh erf (with_stats m d (group_sketch s [])) (dlit 1 2) max_ret template = Inr (u, fs) \<and>
    stats_ok s [] u \<and> length fs \<le> max_ret"
proof -
  note ok = fresh_sketch_ok [OF assms(1)]
  let ?t = "with_stats m d (group_sketch s [])" and ?k = "replicate 13 (255 :: byte)"
  have gs: "same_sketch (group_sketch s []) s" by (rule group_sketch_ok [OF ok])
  then have gok: "skl_ok (group_sketch s [])" by (simp add: same_sketch_def)
  then have g: "skl_ok ?t" "lgn ?t = 104" "depth ?t * width ?t \<noteq> 1" "width ?t = width s" "depth ?t = depth s"
    using gs assms(2-3) skl_ok_stats [OF gok assms(4,5)] by (simp_all add: same_sketch_def)
  have "settles (counts ?t ! (i * width s + j)) 104 (dlit 1 2) ?k" if "i < depth s" "j < width s" for i j
    using threshold(1) [OF half_is_ratio, of 0] empty_group_zero [OF assms(1,3) that] key_bit_ones [of _ 13] assms(2)
    by (simp add: settles_def)
  then have all: "all_settled ?t (dlit 1 2) {?k}" using g by (simp add: all_settled_def)
  have c: "finite {?k}" "card {?k} < max_ret" "\<forall>key \<in> {?k}. lgn ?t = 8 * length key" "lgn ?t div 8 \<le> length template"
    using assms(6,7) g(2) by auto
  from SKL_Identify_returns_gen [OF g(1,3) all c, of erf]
  obtain u fs where i: "SKL_Identify_Thresh erf ?t (dlit 1 2) max_ret template = Inr (u, fs)" by blast
  then have cd: "compute_bit_dists ?t = Inr u" by (auto simp: SKL_Identify_Thresh_def)
  have "same_sketch u ?t" by (rule compute_bit_dists_ok [OF cd g(1)])
  then have "length (bit_mean u) = 104" "length (bit_std u) = 104" by (simp_all add: same_sketch_def skl_ok_def)
  moreover have "u = with_stats (bit_mean u) (bit_std u) (group_sketch s [])"
    using identify_ok [OF i] by (simp add: with_stats_def)
  ultimately have "stats_ok s [] u" unfolding stats_ok_def by blast
  then show ?thesis using i identify_ok [OF i] by (auto simp: found_ok_def)
qed

lemma next_prime_60000: "\<exists>p. calc_next_prime 60000 = Inr p"
  using calc_next_prime_ends [OF prime_int_65537, of 60000] by (auto simp: INT_MAX_def)

definition demo_ctl :: ctl_env where
  "demo_ctl = \<lparr>ce_dir = Some ''d'', ce_width = 3, ce_depth = 2, ce_key_len = 104, ce_timeout = - 1, ce_rand = 7,
     ce_erf = id, ce_reads = (\<lambda>p. Some []), ce_writable = (\<lambda>p. True), ce_max_ret = 3,
     ce_template = replicate 13 0, ce_infos = [], ce_junk = 0, ce_stack = zero_tuple\<rparr>"

lemma demo_ctl_fields [simp]:
  "ce_dir demo_ctl = Some ''d''" "ce_key_len demo_ctl = 104" "ce_timeout demo_ctl = - 1" "ce_erf demo_ctl = id"
  "ce_max_ret demo_ctl = 3" "ce_template demo_ctl = replicate 13 0" "ce_infos demo_ctl = []"
  "ce_reads demo_ctl p = Some []" "ce_writable demo_ctl p"
  by (simp_all add: demo_ctl_def)

lemma demo_new_sketch:
  "\<exists>s g. new_sketch demo_ctl glob = Inr (s, g) \<and> fresh_sketch s \<and> depth s = 2 \<and> width s = 3 \<and> lgn s = 104"
proof -
  have "calc_next_prime 3 = Inr 3" by code_simp
  then have "\<exists>s g. SKL_Init 7 glob 3 2 104 = Inr (s, g) \<and> depth s = 2 \<and> width s = 3"
    by (simp add: SKL_Init_def Let_def INT_MAX_def split: prod.split)
  then obtain s g where s: "SKL_Init 7 glob 3 2 104 = Inr (s, g)" "depth s = 2" "width s = 3" by blast
  then have "fresh_sketch s" "lgn s = 104" using SKL_Init_fresh [of 7 glob 3 2 104 s g] by (simp_all add: INT_MAX_def)
  moreover have "new_sketch demo_ctl glob = SKL_Init 7 glob 3 2 104" by (simp add: new_sketch_def demo_ctl_def)
  ultimately show ?thesis using s by auto
qed

lemma demo_new_table:
  "\<exists>tbl g. new_table demo_ctl glob = Inr (tbl, g) \<and> kt_acc tbl \<and> tbl_list_len tbl = 10 \<and>
    (\<forall>b < tbl_list_size tbl. list_len tbl ! b = 0)"
proof -
  have e: "new_table demo_ctl glob = key_tbl_init 7 glob 104 60000 10 (- 1)" by (simp add: new_table_def demo_ctl_def)
  obtain p where "calc_next_prime 60000 = Inr p" using next_prime_60000 by blast
  then have "\<exists>tbl g. key_tbl_init 7 glob 104 60000 10 (- 1) = Inr (tbl, g)"
    by (simp add: key_tbl_init_def Let_def split: prod.split)
  then obtain tbl g where t: "key_tbl_init 7 glob 104 60000 10 (- 1) = Inr (tbl, g)" by blast
  have i: "(60000 :: int) \<le> INT_MAX" by (simp add: INT_MAX_def)
  show ?thesis unfolding e using t key_tbl_init_fresh [OF t i] init_flows(2) [OF t i] by (auto simp: kt_flows_def)
qed

lemma dedupe_returns:
  assumes "kt_acc tbl" "\<forall>b < tbl_list_size tbl. list_len tbl ! b + length fs \<le> tbl_list_len tbl"
    and "n \<le> i" "i + length fs \<le> length tmp"
  shows "\<exists>r. dedupe fs i n tbl tmp = Inr r"
  using assms
proof (induction fs i n tbl tmp rule: dedupe.induct)
  case (2 f fs i n tbl tmp)
  let ?key = "bytes_key (fkey f)"
  show ?case
  proof (cases "key_tbl_find tbl ?key = None")
    case True
    have "bucket_no tbl ?key < tbl_list_size tbl" using "2.prems"(1) kt_inv_bucket_no by (auto simp: kt_acc_def)
    then have "list_len tbl ! bucket_no tbl ?key < tbl_list_len tbl" using "2.prems"(2) by fastforce
    from key_tbl_add_room [OF "2.prems"(1) this, of 1] obtain tbl1 where
      t: "key_tbl_add tbl ?key 1 = Inr tbl1" "tbl_list_len tbl1 = tbl_list_len tbl"
      "tbl_list_size tbl1 = tbl_list_size tbl" "\<forall>b < tbl_list_size tbl. list_len tbl1 ! b \<le> list_len tbl ! b + 1" by blast
    have room: "list_len tbl1 ! b + length fs \<le> tbl_list_len tbl1" if "b < tbl_list_size tbl1" for b
    proof -
      have "list_len tbl1 ! b \<le> list_len tbl ! b + 1" "list_len tbl ! b + length (f # fs) \<le> tbl_list_len tbl"
        using that t(3,4) "2.prems"(2) by auto
      then show ?thesis using t(2) by simp
    qed
    have acc: "kt_acc tbl1" using add_step [OF "2.prems"(1) t(1)] by simp
    have b: "n < length tmp" "i < length tmp" "n + 1 \<le> i + 1" "i + 1 + length fs \<le> length tmp" using "2.prems"(3,4) by auto
    let ?tmp1 = "tmp[n := (tmp ! n)\<lparr>rkey := ?key, rsize := fval f\<rparr>]"
    let ?tmp2 = "?tmp1[i := (?tmp1 ! i)\<lparr>rconf := fconfs f\<rparr>]"
    have "\<exists>r. dedupe fs (i + 1) (n + 1) tbl1 ?tmp2 = Inr r"
      using True room b by (intro "2.IH"(2) acc) auto
    then show ?thesis using True t(1) b by (simp add: Let_def arr_get_def arr_set_def)
  next
    case False
    then have f: "key_tbl_find tbl ?key \<noteq> None" by simp
    have "\<exists>r. dedupe fs (i + 1) n tbl tmp = Inr r"
      by (rule "2.IH"(1) [OF refl f]) (use "2.prems" in auto)
    then show ?thesis using f by (simp add: Let_def)
  qed
qed simp

lemma stats_shape:
  assumes "skl_ok s" "stats_ok s g u"
  shows "depth u = depth s \<and> width u = width s \<and> lgn u = lgn s \<and> bucket_of u = bucket_of s"
proof -
  obtain m d where u: "u = with_stats m d (group_sketch s g)" using assms(2) by (auto simp: stats_ok_def)
  have gs: "same_sketch (group_sketch s g) s" by (rule group_sketch_ok [OF assms(1)])
  then show ?thesis using same_sketch_sel [OF gs] by (auto simp: u same_sketch_def fun_eq_iff bucket_of_def)
qed

lemma empty_estimate:
  assumes "fresh_sketch s" "depth s * width s \<noteq> 1" "0 < depth s" "stats_ok s [] u"
    "SKL_Est_Size erf u key bits infos = Inr (est, infos')"
  shows "sint est \<le> 0"
proof -
  note ok = fresh_sketch_ok [OF assms(1)]
  obtain m d where u: "u = with_stats m d (group_sketch s [])" using assms(4) by (auto simp: stats_ok_def)
  have b: "depth u = depth s" "width u = width s" "lgn u = lgn s" "bucket_of u = bucket_of s"
    using stats_shape [OF ok assms(4)] by simp_all
  have "sint est \<le> sint (matched (counts u ! (0 * width u + bucket_of u 0 key)) (lgn u) key 0)"
    using est_size_le_gen [OF assms(5), of 0 0] b(1) assms(3) by simp
  also have "matched (counts u ! (0 * width u + bucket_of u 0 key)) (lgn u) key 0 = 0"
    using empty_group_zero [OF assms(1,2), of 0 "bucket_of s 0 key" 0] assms(3) bucket_of_less ok
    by (simp add: matched_def b skl_ok_def) (simp add: u)
  finally show ?thesis by simp
qed

lemma accept_empty:
  assumes "fresh_sketch s" "depth s * width s \<noteq> 1" "0 < depth s" "stats_ok s [] u" "lgn s = 104"
  shows "\<exists>tmp'. for_res n (accept_flow env u) (tmp, ret) = Inr (tmp', ret)"
proof -
  have "\<exists>st. for_res n (accept_flow env u) (tmp, ret) = Inr st \<and> snd st = ret"
  proof (rule for_res_total [where I = "\<lambda>_ st. snd st = ret"])
    fix i and st :: "rich_tuple_t list \<times> rich_tuple_t list" assume "snd st = ret"
    then obtain tm where st: "st = (tm, ret)" by (cases st) auto
    let ?r = "(tm ! i)\<lparr>rsize := 0\<rparr>"
    obtain est infos where e: "SKL_Est_Size (ce_erf env) u (key_bytes (rkey ?r)) bits_104 (ce_infos env) = Inr (est, infos)"
      using SKL_Est_Size_total [of "ce_erf env" u "key_bytes (rkey ?r)" bits_104 "ce_infos env"] by (auto simp: bits_104_def)
    have "lgn u = 104" using stats_shape [OF fresh_sketch_ok [OF assms(1)] assms(4)] assms(5) by simp
    with empty_estimate [OF assms(1-4) e] show "\<exists>t. accept_flow env u i st = Inr t \<and> snd t = ret"
      using e by (simp add: accept_flow_def st Let_def)
  qed simp
  then show ?thesis by auto
qed

lemma empty_group_counts:
  assumes "fresh_sketch s" "fresh_sketch s'" "sk_size s = sk_size s'" "lgn s = lgn s'"
  shows "counts (group_sketch s []) = counts (group_sketch s' [])"
  by (simp add: group_sketch_def key_stream_def complete_counts_eq fresh_sketch_ok assms fresh_counts)

text \<open>In the sketch of no records no flow is found: the candidates have estimates of zero.\<close>

lemma demo_detects_nothing:
  assumes "fresh_sketch s" "lgn s = 104" "depth s = 2" "width s = 3" "stats_ok s [] t"
  shows "\<exists>g'. detect_with_thresh demo_ctl g t (dlit 1 2) = Some (Inr ([], g'))"
proof -
  note ok = fresh_sketch_ok [OF assms(1)]
  obtain m d where t: "t = with_stats m d (group_sketch s [])" "length m = 104" "length d = 104"
    using assms(5) by (auto simp: stats_ok_def)
  have gs: "same_sketch (group_sketch s []) s" by (rule group_sketch_ok [OF ok])
  then have gok: "skl_ok (group_sketch s [])" by (simp add: same_sketch_def)
  then have tok: "skl_ok t" "lgn t = 104" "depth t = 2" "width t = 3"
    using gs assms(2-4) skl_ok_stats [OF gok t(2,3)] by (simp_all add: same_sketch_def t(1))
  obtain s0 g1 where s0: "new_sketch demo_ctl g = Inr (s0, g1)" "fresh_sketch s0" "depth s0 = 2" "width s0 = 3" "lgn s0 = 104"
    using demo_new_sketch by blast
  have s0ok: "skl_ok s0" by (rule fresh_sketch_ok [OF s0(2)])
  let ?n = "s0\<lparr>counts := counts t\<rparr>"
  have cp: "SKL_Copy s0 t = Inr ?n" by (rule SKL_Copy_cells) (simp add: same_shape_def tok s0 s0ok)
  have l: "length (bit_mean s0) = 104" "length (bit_std s0) = 104" using s0ok by (simp_all add: skl_ok_def)
  have sz: "sk_size s = sk_size s0" using ok s0ok assms(3,4) s0(3,4) by (simp add: skl_ok_def)
  have "same_sketch (group_sketch s0 []) s0" by (rule group_sketch_ok [OF s0ok])
  then have n: "?n = with_stats (bit_mean s0) (bit_std s0) (group_sketch s0 [])"
    using empty_group_counts [OF assms(1) s0(2) sz] assms(2) s0(5) t(1)
    by (simp add: group_sketch_def key_stream_def complete_counts_eq [OF s0ok] with_stats_def)
  have n1: "depth s0 * width s0 \<noteq> 1" "0 < depth s0" using s0(3,4) by auto
  obtain u fs where u: "SKL_Identify_Thresh id ?n (dlit 1 2) 3 (replicate 13 0) = Inr (u, fs)" "stats_ok s0 [] u"
    "length fs \<le> 3" unfolding n using identify_empty [OF s0(2,5) n1(1) l, of "replicate 13 0" 3 id] by auto
  obtain tbl g2 where tbl: "new_table demo_ctl g1 = Inr (tbl, g2)" "kt_acc tbl" "tbl_list_len tbl = 10"
    "\<forall>b < tbl_list_size tbl. list_len tbl ! b = 0" using demo_new_table by blast
  obtain k tbl' tmp1 where dd: "dedupe fs 0 0 tbl (replicate 3 zero_rich) = Inr (k, tbl', tmp1)"
    using dedupe_returns [OF tbl(2), of fs 0 0 "replicate 3 zero_rich"] tbl(3,4) u(3) by auto
  obtain tmp3 where a: "for_res k (accept_flow demo_ctl u) (qsort cmp_rich (take k tmp1) @ drop k tmp1, []) = Inr (tmp3, [])"
    using accept_empty [OF s0(2) n1 u(2) s0(5)] by blast
  obtain v where v: "remove_large u (take k tmp3) = Inr v" using remove_large_group [OF s0ok n1(1) u(2)] by blast
  let ?st = "\<lparr>d_skl = ?n, d_tbl = tbl, d_tmp = replicate 3 zero_rich, d_ret = []\<rparr>"
  have "\<exists>st'. detect_round demo_ctl (dlit 1 2) ?st = Inr (False, st') \<and> d_ret st' = []"
    using u(1) dd a v s0(5) by (simp add: detect_round_def Let_def)
  then have "detect_loop demo_ctl (dlit 1 2) ?st = Some (Inr [])"
    by (subst detect_loop.simps) auto
  then show ?thesis using s0(1) cp tbl(1) by (simp add: detect_with_thresh_def)
qed

lemma demo_paths_ctl:
  "sprintf_100 (parse_fmt ''%s/true_flows/true_%d'') [StrArg ''d'', IntArg 0] = Inr ''d/true_flows/true_0''"
  "sprintf_100 (parse_fmt ''%s/controller/quality_%d'') [StrArg ''d'', IntArg 0] = Inr ''d/controller/quality_0''"
  "sprintf_100 (parse_fmt ''%s/controller/res_sketch_%d'') [StrArg ''d'', IntArg 0] = Inr ''d/controller/res_sketch_0''"
  "sprintf_100 (parse_fmt ''%s/controller/large_flows_%d'') [StrArg ''d'', IntArg 0] = Inr ''d/controller/large_flows_0''"
  by code_simp+

lemma demo_inference:
  assumes "fresh_sketch s" "lgn s = 104" "depth s = 2" "width s = 3" "stats_ok s [] t"
  shows "\<exists>r. do_inference demo_ctl 0 g t 0 = Some (Inr r)"
proof -
  obtain tbl1 g1 where t1: "new_table demo_ctl g = Inr (tbl1, g1)" using demo_new_table by blast
  obtain tbl2 g2 where t2: "new_table demo_ctl g1 = Inr (tbl2, g2)" using demo_new_table by blast
  have p: "in_path demo_ctl ''%s/true_flows/true_%d'' [IntArg (int 0)] = Inr ''d/true_flows/true_0''"
    "out_path demo_ctl ''%s/controller/quality_%d'' 0 = Inr ''d/controller/quality_0''"
    "out_path demo_ctl ''%s/controller/res_sketch_%d'' 0 = Inr ''d/controller/res_sketch_0''"
    "out_path demo_ctl ''%s/controller/large_flows_%d'' 0 = Inr ''d/controller/large_flows_0''"
    by (simp_all add: in_path_def out_path_def str_arg_def demo_paths_ctl [simplified])
  have r: "key_tbl_read_file (ce_junk demo_ctl) (ce_stack demo_ctl) (ce_reads demo_ctl p) tbl1 = Inr (0, tbl1)" for p
    using lines_100.simps [of "[]"] by (simp add: key_tbl_read_file_def fgets_def)
  have b: "\<exists>quality st. begin_inference demo_ctl 0 g t 0 = Inr (tbl1, quality, st) \<and> i_skl st = t"
    by (simp add: begin_inference_def t1 t2 p(2) p(1) [simplified] r [simplified])
  then obtain quality st where b: "begin_inference demo_ctl 0 g t 0 = Inr (tbl1, quality, st)" "i_skl st = t" by blast
  obtain g' where "detect_with_thresh demo_ctl (i_glob st) t (dlit 1 2) = Some (Inr ([], g'))"
    using demo_detects_nothing [OF assms] by blast
  then have "infer_loop demo_ctl 2 st = Some (Inr (st\<lparr>i_glob := g'\<rparr>))"
    using thresholds(1) b(2) by (subst infer_loop.simps) (simp add: detect_thresh)
  then show ?thesis using b(1) by (simp add: do_inference_def end_inference_def p Let_def)
qed

lemma controller_returns_witness:
  "\<forall>st. \<exists>r. ctl_intervals demo_ctl 0 (\<lambda>i. 0) 0 2 st = Some r"
  using controller_returns [of demo_ctl] by simp

lemma do_inference_residual_witness:
  "\<exists>s t g r ret1 ret2. new_sketch demo_ctl 0 = Inr (s, g) \<and> stats_ok s [] t \<and>
    do_inference demo_ctl 0 g t 0 = Some (Inr r) \<and> positive (ret1 @ ret2) \<and>
    SKL_Print (r_skl r) = SKL_Print (group_sketch s (map removed (ret1 @ ret2))) \<and>
    r_all r = map rich_tuple (ret1 @ filter (\<lambda>r. rkey r \<notin> rkey ` set ret1) ret2)"
proof -
  obtain s g where s: "new_sketch demo_ctl 0 = Inr (s, g)" "fresh_sketch s" "depth s = 2" "width s = 3" "lgn s = 104"
    using demo_new_sketch by blast
  have ok: "skl_ok s" "depth s * width s \<noteq> 1" using fresh_sketch_ok [OF s(2)] s(3,4) by auto
  let ?t = "with_stats (bit_mean s) (bit_std s) (group_sketch s [])"
  have "length (bit_mean s) = 104" "length (bit_std s) = 104" using ok(1) by (simp_all add: skl_ok_def)
  then have t: "stats_ok s [] ?t" unfolding stats_ok_def by blast
  obtain r where r: "do_inference demo_ctl 0 g ?t 0 = Some (Inr r)" using demo_inference [OF s(2,5,3,4) t] by blast
  have "ce_key_len demo_ctl = 104" "ce_timeout demo_ctl = - 1" by simp_all
  from do_inference_residual [OF ok this t r] obtain ret1 ret2 where
    "positive (ret1 @ ret2)" "SKL_Print (r_skl r) = SKL_Print (group_sketch s ([] @ map removed (ret1 @ ret2)))"
    "r_all r = map rich_tuple (ret1 @ filter (\<lambda>r. rkey r \<notin> rkey ` set ret1) ret2)" by blast
  then show ?thesis using s(1) t r by (simp only: append_Nil) blast
qed

end
