(* ===== verification/End_To_End.thy ===== *)
theory End_To_End
  imports Controller
begin

text \<open>
  The programs together: what \<^verbatim>\<open>dp_simulate\<close> writes, \<^verbatim>\<open>controller\<close> reads. Both load the same settings,
  so that the path the worker prints for an interval is the one the controller looks for; both create
  their sketch of the same size and, as \<open>rand()\<close> is not seeded, with the same hash functions, as
  is the copy that the detection works on. So the identification theorems about a sketch in memory
  carry over to the files.
\<close>

section \<open>The configured sketch\<close>





section \<open>The hash functions of a process\<close>







section \<open>Inference keeps the sketch\<close>







section \<open>The files\<close>









section \<open>From the trace to the reported flows\<close>





section \<open>A concrete measurement\<close>















end
