(* ===== verification/True_Flows.thy ===== *)
theory True_Flows
  imports Driver Key_Table Sketch_Infer
begin

text \<open>
  \<^verbatim>\<open>true_flows.c\<close>: the exact flows of each interval of a record file. The worker keeps the exact
  flow table; at the end of each interval it writes the table to the next file and resets it.
  \<open>tf_handler\<close> is the body of the worker's loop for one record and \<open>true_flows\<close> prepares the two
  threads, which run like those of the data plane.
\<close>

section \<open>The worker\<close>

record tf_env =
  te_dir :: "string option"
  te_output :: bool
  te_writable :: "string \<Rightarrow> bool"

record tf_state =
  tf_tbl :: key_tbl
  tf_cnt_pkt :: u64
  tf_cnt_byte :: u64
  tf_interval :: u64
  tf_min_pkt :: u64
  tf_min_byte :: u64
  tf_min_flow :: i32
  tf_max_pkt :: u64
  tf_max_byte :: u64
  tf_max_flow :: i32
  tf_files :: "(string \<times> string) list"

definition tf_path :: "tf_env \<Rightarrow> u64 \<Rightarrow> string res" where
  "tf_path env i =
     rbind (str_arg (te_dir env)) (\<lambda>d.
       sprintf_100 (parse_fmt ''%s/true_flows/true_%llu'') [d, IntArg (uint i)])"

text \<open>Writing the table; \<open>key_tbl_print\<close> does not look whether the file could be opened.\<close>

definition tf_output :: "tf_env \<Rightarrow> tf_state \<Rightarrow> tf_state res" where
  "tf_output env w =
     (if te_output env then
        rbind (tf_path env (tf_interval w)) (\<lambda>path.
          if te_writable env path
          then Inr (w\<lparr>tf_files := tf_files w @ [(path, key_tbl_print (tf_tbl w))]\<rparr>)
          else Inl OutOfBounds)
      else Inr w)"

text \<open>The least and greatest numbers of an interval; zero stands for no interval yet.\<close>

definition tf_stats :: "tf_state \<Rightarrow> tf_state" where
  "tf_stats w =
     w\<lparr>tf_max_pkt := (if tf_max_pkt w < tf_cnt_pkt w then tf_cnt_pkt w else tf_max_pkt w),
       tf_max_byte := (if tf_max_byte w < tf_cnt_byte w then tf_cnt_byte w else tf_max_byte w),
       tf_max_flow := (if sint (tf_max_flow w) < sint (num_key (tf_tbl w)) then num_key (tf_tbl w) else tf_max_flow w),
       tf_min_pkt := (if tf_min_pkt w = 0 \<or> tf_cnt_pkt w < tf_min_pkt w then tf_cnt_pkt w else tf_min_pkt w),
       tf_min_byte := (if tf_min_byte w = 0 \<or> tf_cnt_byte w < tf_min_byte w then tf_cnt_byte w else tf_min_byte w),
       tf_min_flow := (if tf_min_flow w = 0 \<or> sint (num_key (tf_tbl w)) < sint (tf_min_flow w)
                       then num_key (tf_tbl w) else tf_min_flow w)\<rparr>"

text \<open>The file number moves on only when files are written.\<close>

definition tf_punc :: "tf_env \<Rightarrow> tf_state \<Rightarrow> tf_state res" where
  "tf_punc env w =
     rbind (tf_output env w) (\<lambda>w1.
       let w2 = tf_stats (if te_output env then w1\<lparr>tf_interval := tf_interval w1 + 1\<rparr> else w1)
       in Inr (w2\<lparr>tf_cnt_pkt := 0, tf_cnt_byte := 0, tf_tbl := key_tbl_reset (tf_tbl w2)\<rparr>))"

definition tf_handler :: "tf_env \<Rightarrow> tf_state \<Rightarrow> tuple_t \<Rightarrow> tf_state outcome" where
  "tf_handler env w t =
     (if flag t = TUPLE_TERM then
        (case tf_output env w of Inl e \<Rightarrow> Crash e | Inr w' \<Rightarrow> Stop w')
      else if flag t = TUPLE_PUNC then
        (case tf_punc env w of Inl e \<Rightarrow> Crash e | Inr w' \<Rightarrow> Go w' 1)
      else
        (case key_tbl_add (tf_tbl w) (tkey t) (tsize t) of
           Inl e \<Rightarrow> Crash e
         | Inr tbl \<Rightarrow> Go (w\<lparr>tf_tbl := tbl, tf_cnt_pkt := tf_cnt_pkt w + 1,
                           tf_cnt_byte := tf_cnt_byte w + scast (tsize t)\<rparr>) 0))"

definition tf_init :: "key_tbl \<Rightarrow> tf_state" where
  "tf_init tbl = \<lparr>tf_tbl = tbl, tf_cnt_pkt = 0, tf_cnt_byte = 0, tf_interval = 0, tf_min_pkt = 0,
     tf_min_byte = 0, tf_min_flow = 0, tf_max_pkt = 0, tf_max_byte = 0, tf_max_flow = 0, tf_files = []\<rparr>"

section \<open>The program\<close>

definition table_of_conf :: "'d iniparser \<Rightarrow> 'd conf_t \<Rightarrow> u64 \<Rightarrow> u64 \<Rightarrow> (key_tbl \<times> u64) res" where
  "table_of_conf ini conf rand glob =
     rbind (conf_common_key_len ini conf) (\<lambda>bit.
     rbind (conf_keytbl_timeout ini conf) (\<lambda>timeout.
       if sint bit < 0 then Inl OutOfBounds
       else key_tbl_init rand glob (nat (sint bit)) 10000 100 timeout))"

definition true_flows ::
    "'d iniparser \<Rightarrow> (string \<Rightarrow> byte list option) \<Rightarrow> (string \<Rightarrow> bool) \<Rightarrow> u64 \<Rightarrow> string list \<Rightarrow>
     (tf_env \<times> (tuple_t ringbuffer, tuple_t, tf_state) sys) res" where
  "true_flows ini fopen writable rand argv =
     (if length argv \<noteq> 2 then Inl ExitError
      else
        rbind (Config_Init ini (Some (argv ! 1))) (\<lambda>conf.
        rbind (conf_common_trace_dir ini conf) (\<lambda>dir.
        rbind (conf_common_record_file ini conf) (\<lambda>filename.
        rbind (conf_common_trace_bufsize ini conf) (\<lambda>buf_size.
        rbind (adapter_init fopen dir filename buf_size) (\<lambda>adapter.
        rbind (str_arg dir) (\<lambda>d. rbind (sprintf_100 (parse_fmt ''%s/true_flows'') [d]) (\<lambda>tmp.
        rbind (conf_common_is_output ini conf) (\<lambda>is_output.
        rbind (conf_common_is_pin_cpu ini conf) (\<lambda>is_pin.
        rbind (pin_if (is_pin \<noteq> 0) 1) (\<lambda>cpu.
        rbind (table_of_conf ini conf rand 0) (\<lambda>(tbl, glob).
        rbind (pin_if (is_pin \<noteq> 0) 0) (\<lambda>cpu'.
        rbind (conf_common_interval_len ini conf) (\<lambda>interval_len.
        rbind (main_actions interval_len (adapter_records adapter)) (\<lambda>as.
          Inr (\<lparr>te_dir = dir, te_output = (is_output \<noteq> 0), te_writable = writable\<rparr>,
               init_sys (create_ringbuffer zero_tuple) zero_tuple (tf_init tbl) as))))))))))))))))"

abbreviation tf_step :: "tf_env \<Rightarrow> (tuple_t ringbuffer, tuple_t, tf_state) sys \<Rightarrow>
    (tuple_t ringbuffer, tuple_t, tf_state) sys \<Rightarrow> bool" where
  "tf_step env \<equiv> sys_step write_ringbuffer read_ringbuffer flush_ringbuffer (tf_handler env)"

section \<open>Template keys\<close>

text \<open>
  \<open>set_bit\<close> and \<open>normalize_template_key\<close> stand in this file without a caller: the bits of a key
  that are not listed are cleared. An empty list is read before its start.
\<close>

definition set_bit_flows :: "byte list \<Rightarrow> nat \<Rightarrow> int \<Rightarrow> byte list" where
  "set_bit_flows a pos v =
     (let i = pos div 8; b = pos mod 8
      in if v = 1 then a[i := a ! i OR push_bit (7 - b) 1]
         else a[i := a ! i AND NOT (push_bit (7 - b) 1)])"

definition clear_range :: "nat \<Rightarrow> nat \<Rightarrow> byte list \<Rightarrow> byte list" where
  "clear_range a b key = fold (\<lambda>j k. set_bit_flows k j 0) [a..<b] key"

definition normalize_template_key :: "byte list \<Rightarrow> nat list \<Rightarrow> byte list res" where
  "normalize_template_key key bits =
     (if bits = [] \<or> length key < 13 \<or> (\<exists>b \<in> set bits. 8 * length key < b) then Inl OutOfBounds
      else
        let key1 = clear_range 0 (bits ! 0) key;
            key2 = for_upto (length bits - 1) (\<lambda>i. clear_range (bits ! i + 1) (bits ! (i + 1))) key1
        in Inr (clear_range (bits ! (length bits - 1) + 1) 104 key2))"

lemma set_bit_flows_eq: "set_bit_flows a pos v = set_bit_at a pos v"
  by (simp add: set_bit_flows_def set_bit_at_def Let_def)

lemma clear_range_bits:
  assumes "b \<le> 8 * length key"
  shows "length (clear_range a b key) = length key \<and>
    (\<forall>p < 8 * length key. key_bit (clear_range a b key) p \<longleftrightarrow> key_bit key p \<and> \<not> (a \<le> p \<and> p < b))"
  using assms
proof (induction b)
  case (Suc b)
  show ?case
  proof (cases "a \<le> b")
    case True
    then have e: "clear_range a (Suc b) key = set_bit_at (clear_range a b key) b 0"
      by (simp add: clear_range_def set_bit_flows_eq)
    show ?thesis unfolding e using Suc True by (auto simp: key_bit_set_bit_at)
  qed (simp add: clear_range_def)
qed (simp add: clear_range_def)

lemma clear_gaps:
  assumes "\<forall>b \<in> set bits. b \<le> 8 * length key" "k < length bits"
  shows "length (for_upto k (\<lambda>i. clear_range (bits ! i + 1) (bits ! (i + 1))) key) = length key \<and>
    (\<forall>p < 8 * length key. key_bit (for_upto k (\<lambda>i. clear_range (bits ! i + 1) (bits ! (i + 1))) key) p \<longleftrightarrow>
       key_bit key p \<and> (\<forall>i < k. \<not> (bits ! i < p \<and> p < bits ! (i + 1))))"
  using assms(2)
proof (induction k)
  case (Suc k)
  let ?key = "for_upto k (\<lambda>i. clear_range (bits ! i + 1) (bits ! (i + 1))) key"
  have "bits ! (k + 1) \<le> 8 * length ?key" using assms(1) Suc by simp
  from clear_range_bits [OF this, of "bits ! k + 1"] show ?case using Suc by (auto simp: less_Suc_eq Suc_le_eq)
qed simp

lemma sorted_gaps:
  assumes "sorted bits" "bits \<noteq> []" "p \<notin> set bits" "bits ! 0 \<le> p" "p \<le> bits ! (length bits - 1)"
  shows "\<exists>i < length bits - 1. bits ! i < p \<and> p < bits ! (i + 1)"
  using assms
proof (induction bits)
  case (Cons b bits)
  show ?case
  proof (cases bits)
    case Nil
    then show ?thesis using Cons.prems by simp
  next
    case (Cons c cs)
    show ?thesis
    proof (cases "p < c")
      case True
      have "b < p" using Cons.prems(3,4) by (cases "b = p") auto
      then show ?thesis using True Cons by (intro exI [of _ 0]) simp
    next
      case False
      have "sorted bits" "bits \<noteq> []" "p \<notin> set bits" "bits ! 0 \<le> p" "p \<le> bits ! (length bits - 1)"
        using Cons.prems False Cons by auto
      from Cons.IH [OF this] obtain i where "i < length bits - 1" "bits ! i < p" "p < bits ! (i + 1)" by blast
      then show ?thesis by (intro exI [of _ "Suc i"]) simp
    qed
  qed
qed simp

text \<open>A normalised template keeps its listed bits and has no other. For a key of 13 bytes and bit
  positions in ascending order, bit \<open>p\<close> of the result is set exactly when \<open>p\<close> is listed and set in
  the key.\<close>

theorem normalize_keeps_listed:
  assumes "sorted bits" "bits \<noteq> []" "\<forall>b \<in> set bits. b < 104" "length key = 13"
  shows "\<exists>key'. normalize_template_key key bits = Inr key' \<and> length key' = 13 \<and>
    (\<forall>p < 104. key_bit key' p \<longleftrightarrow> p \<in> set bits \<and> key_bit key p)"
proof -
  let ?n = "length bits - 1"
  let ?k1 = "clear_range 0 (bits ! 0) key"
  let ?k2 = "for_upto ?n (\<lambda>i. clear_range (bits ! i + 1) (bits ! (i + 1))) ?k1"
  let ?k3 = "clear_range (bits ! ?n + 1) 104 ?k2"
  have m: "bits ! i < 104" if "i < length bits" for i using assms(3) that by simp
  have n: "?n < length bits" "0 < length bits" using assms(2) by auto
  have 1: "length ?k1 = 13" "p < 104 \<Longrightarrow> key_bit ?k1 p \<longleftrightarrow> key_bit key p \<and> \<not> p < bits ! 0" for p
    using clear_range_bits [of "bits ! 0" key 0] m [OF n(2)] assms(4) by auto
  have "\<forall>b \<in> set bits. b \<le> 8 * length ?k1" using assms(3) 1(1) by auto
  from clear_gaps [OF this n(1)] have
    2: "length ?k2 = 13" "p < 104 \<Longrightarrow> key_bit ?k2 p \<longleftrightarrow> key_bit ?k1 p \<and> (\<forall>i < ?n. \<not> (bits ! i < p \<and> p < bits ! (i + 1)))" for p
    using 1(1) by auto
  have 3: "length ?k3 = 13" "p < 104 \<Longrightarrow> key_bit ?k3 p \<longleftrightarrow> key_bit ?k2 p \<and> p \<le> bits ! ?n" for p
    using clear_range_bits [of 104 ?k2 "bits ! ?n + 1"] 2(1) by auto
  have "key_bit ?k3 p \<longleftrightarrow> p \<in> set bits \<and> key_bit key p" if p: "p < 104" for p
  proof (cases "p \<in> set bits")
    case True
    then obtain j where j: "j < length bits" "p = bits ! j" by (auto simp: in_set_conv_nth)
    have le: "bits ! a \<le> bits ! b" if "a \<le> b" "b < length bits" for a b
      using assms(1) that by (auto simp: sorted_iff_nth_mono)
    have "\<not> (bits ! i < p \<and> p < bits ! (i + 1))" if "i < ?n" for i
    proof (cases "j \<le> i")
      case True
      then show ?thesis using le [of j i] j that by (auto simp: not_less)
    next
      case False
      then show ?thesis using le [of "i + 1" j] j by (auto simp: not_less)
    qed
    moreover have "bits ! 0 \<le> p" "p \<le> bits ! ?n" using le [of 0 j] le [of j ?n] j n by auto
    ultimately show ?thesis using 1(2) [OF p] 2(2) [OF p] 3(2) [OF p] True by auto
  next
    case False
    with sorted_gaps [OF assms(1,2) False] show ?thesis
      using 1(2) [OF p] 2(2) [OF p] 3(2) [OF p] by (auto simp: not_le not_less)
  qed
  moreover have "normalize_template_key key bits = Inr ?k3"
    using assms by (auto simp: normalize_template_key_def Let_def dest!: bspec)
  ultimately show ?thesis using 3(1) by blast
qed

lemma normalize_keeps_listed_witness:
  "\<exists>key'. normalize_template_key (replicate 13 255) [3, 7, 100] = Inr key' \<and> key_bit key' 7 \<and> \<not> key_bit key' 8"
proof -
  have "key_bit (replicate 13 (255 :: byte)) 7" by code_simp
  then show ?thesis using normalize_keeps_listed [of "[3, 7, 100]" "replicate 13 255"] by fastforce
qed

section \<open>The worker follows the protocol\<close>

interpretation tf: data_plane rb_inv rb_contents rb_visible write_ringbuffer read_ringbuffer
  flush_ringbuffer "tf_handler env" for env
proof
  fix w :: tf_state and t :: tuple_t
  show "(\<exists>w'. tf_handler env w t = Stop w') \<or> (\<exists>e. tf_handler env w t = Crash e)" if "flag t = TUPLE_TERM"
    using that by (simp add: tf_handler_def split: sum.split)
  show "(\<exists>w'. tf_handler env w t = Go w' 1) \<or> (\<exists>e. tf_handler env w t = Crash e)" if "flag t = TUPLE_PUNC"
    using that by (simp add: tf_handler_def TUPLE_TERM_def TUPLE_PUNC_def split: sum.split)
  show "\<exists>w'. tf_handler env w t = Go w' 0 \<or> (\<exists>e. tf_handler env w t = Crash e)" if "flag t = TUPLE_NORMAL"
    using that by (simp add: tf_handler_def TUPLE_TERM_def TUPLE_PUNC_def TUPLE_NORMAL_def split: sum.split)
qed

section \<open>Room in the table\<close>

lemma length_live_le:
  assumes "b < tbl_list_size tbl"
  shows "length (live tbl b) \<le> length (key_tbl_get_all tbl)"
proof -
  have "length (live tbl b) \<in> set (map (length \<circ> live tbl) [0..<tbl_list_size tbl])" using assms by auto
  then have "length (live tbl b) \<le> sum_list (map (length \<circ> live tbl) [0..<tbl_list_size tbl])"
    by (rule member_le_sum_list) simp_all
  then show ?thesis by (simp add: key_tbl_get_all_def length_concat comp_def)
qed

lemma key_tbl_add_len:
  assumes "kt_acc tbl" "key_tbl_add tbl k v = Inr tbl'"
  shows "tbl_list_len tbl' = tbl_list_len tbl"
  using assms(2) by (auto simp: key_tbl_add_cases [OF assms(1)] Let_def split: option.splits if_splits)

text \<open>A table whose buckets have \<open>n\<close> places records every stream of at most \<open>n\<close> flows.\<close>

lemma add_next:
  assumes "add_all t0 g = Inr tbl" "kt_flows t0" "\<And>k. kt_total t0 k = None"
    and "card (tkey ` set (g @ [t])) \<le> tbl_list_len tbl"
  shows "\<exists>tbl'. key_tbl_add tbl (tkey t) (tsize t) = Inr tbl'"
proof -
  have fl: "kt_flows tbl" by (rule add_all_flows [OF assms(1,2)])
  then have acc: "kt_acc tbl" by (simp add: kt_flows_def)
  then have b: "bucket_no tbl (tkey t) < tbl_list_size tbl" using kt_inv_bucket_no by (auto simp: kt_acc_def)
  have "key_tbl_add tbl (tkey t) (tsize t) \<noteq> Inl ExitError"
  proof
    assume "key_tbl_add tbl (tkey t) (tsize t) = Inl ExitError"
    then have x: "kt_total tbl (tkey t) = None" "length (live tbl (bucket_no tbl (tkey t))) = tbl_list_len tbl"
      using add_exit_iff_gen [OF acc] by auto
    have n: "tkey t \<notin> tkey ` set g"
      using key_tbl_stream_totals_gen [OF assms(1,2), of "tkey t"] x(1) by (auto split: if_splits)
    have "length (key_tbl_get_all tbl) = card (tkey ` set (key_tbl_get_all tbl))"
      using distinct_card [OF get_all_keys_distinct [OF fl]] by simp
    also have "\<dots> = card (tkey ` set g)" by (simp add: get_all_keys_stream [OF assms(1-3)])
    also have "\<dots> < card (tkey ` set (g @ [t]))" using n by simp
    also have "\<dots> \<le> length (live tbl (bucket_no tbl (tkey t)))" using assms(4) x(2) by simp
    finally show False using length_live_le [OF b] by simp
  qed
  then show ?thesis using add_exit_iff_gen [OF acc, of "tkey t" "tsize t"]
    by (cases "key_tbl_add tbl (tkey t) (tsize t)") (auto intro: c_error.exhaust)
qed

lemma add_all_append: "add_all tbl (xs @ ys) = rbind (add_all tbl xs) (\<lambda>tbl'. add_all tbl' ys)"
proof (induction xs arbitrary: tbl)
  case (Cons x xs)
  then show ?case by (cases "key_tbl_add tbl (tkey x) (tsize x)") simp_all
qed simp

section \<open>The run of the worker\<close>

definition empty_flows :: "nat \<Rightarrow> key_tbl \<Rightarrow> bool" where
  "empty_flows n tbl \<longleftrightarrow> kt_flows tbl \<and> (\<forall>k. kt_total tbl k = None) \<and> tbl_list_len tbl = n"

definition tf_mid :: "nat \<Rightarrow> nat \<Rightarrow> tuple_t list \<Rightarrow> (string \<times> string) list \<Rightarrow> tf_state \<Rightarrow> bool" where
  "tf_mid n i g fs w \<longleftrightarrow> (\<exists>t0. empty_flows n t0 \<and> add_all t0 g = Inr (tf_tbl w)) \<and> tbl_list_len (tf_tbl w) = n \<and>
     tf_interval w = of_nat i \<and> tf_files w = fs"

definition tf_fits :: "tf_env \<Rightarrow> nat \<Rightarrow> nat \<Rightarrow> tuple_t list \<Rightarrow> bool" where
  "tf_fits env n i g \<longleftrightarrow> te_output env \<and> card (tkey ` set g) \<le> n \<and>
     (\<exists>path. tf_path env (of_nat i) = Inr path \<and> te_writable env path)"

text \<open>The table holds the flows of the records \<open>g\<close> with their total sizes, and nothing else.\<close>

definition exact_flows :: "tuple_t list \<Rightarrow> key_tbl \<Rightarrow> bool" where
  "exact_flows g tbl \<longleftrightarrow> kt_flows tbl \<and> distinct (map tkey (key_tbl_get_all tbl)) \<and>
     (\<lambda>t. (tkey t, tsize t)) ` set (key_tbl_get_all tbl) = (\<lambda>k. (k, sum_list (flow_sizes g k))) ` tkey ` set g \<and>
     (\<forall>k. kt_total tbl k = (if k \<in> tkey ` set g then Some (sum_list (flow_sizes g k)) else None))"

definition tf_file :: "tf_env \<Rightarrow> nat \<Rightarrow> tuple_t list \<Rightarrow> string \<times> string \<Rightarrow> bool" where
  "tf_file env i g f \<longleftrightarrow> tf_path env (of_nat i) = Inr (fst f) \<and> (\<exists>tbl. snd f = key_tbl_print tbl \<and> exact_flows g tbl)"

lemma tf_mid_exact: "tf_mid n i g fs w \<Longrightarrow> exact_flows g (tf_tbl w)"
proof -
  assume "tf_mid n i g fs w"
  then obtain t0 where t0: "add_all t0 g = Inr (tf_tbl w)" "kt_flows t0" "\<And>k. kt_total t0 k = None"
    by (auto simp: tf_mid_def empty_flows_def)
  then show ?thesis
    using get_all_stream_gen [OF t0] add_all_flows [OF t0(1,2)] key_tbl_stream_totals_gen [OF t0(1,2)]
    by (simp add: exact_flows_def)
qed

lemma tf_mid_output:
  assumes "tf_mid n i g fs w" "tf_fits env n i g"
  shows "\<exists>f. tf_output env w = Inr (w\<lparr>tf_files := fs @ [f]\<rparr>) \<and> tf_file env i g f"
proof -
  obtain path where path: "tf_path env (of_nat i) = Inr path" "te_writable env path" "te_output env"
    using assms(2) by (auto simp: tf_fits_def)
  then show ?thesis using assms(1) tf_mid_exact [OF assms(1)]
    by (intro exI [of _ "(path, key_tbl_print (tf_tbl w))"]) (auto simp: tf_output_def tf_mid_def tf_file_def)
qed

lemma reset_empty_flows:
  assumes "kt_flows tbl"
  shows "empty_flows (tbl_list_len tbl) (key_tbl_reset tbl)"
proof -
  have "kt_inv tbl" using assms by (simp add: kt_flows_def kt_acc_def)
  then show ?thesis using reset_clears_gen [OF assms] key_tbl_reset_empty [of tbl] by (simp add: empty_flows_def)
qed

interpretation tf_groups: group_worker "tf_handler env" "tf_mid n" "tf_fits env n" "tf_file env" tf_files for env n
proof
  fix i g h fs w t
  show "tf_fits env n i g" if "tf_fits env n i (g @ h)"
  proof -
    have "card (tkey ` set g) \<le> card (tkey ` set (g @ h))" by (intro card_mono) auto
    then show ?thesis using that by (auto simp: tf_fits_def)
  qed
  assume m: "tf_mid n i g fs w"
  then obtain t0 where t0: "empty_flows n t0" "add_all t0 g = Inr (tf_tbl w)" "tbl_list_len (tf_tbl w) = n"
    by (auto simp: tf_mid_def)
  have fl: "kt_flows (tf_tbl w)" using tf_mid_exact [OF m] by (simp add: exact_flows_def)
  show "\<exists>w'. tf_handler env w t = Go w' 0 \<and> tf_mid n i (g @ [t]) fs w'"
    if "tf_fits env n i (g @ [t])" "flag t = TUPLE_NORMAL"
  proof -
    note fit = that(1)
    obtain tbl where tbl: "key_tbl_add (tf_tbl w) (tkey t) (tsize t) = Inr tbl"
      using add_next [OF t0(2), of t] t0(1,3) fit by (auto simp: empty_flows_def tf_fits_def)
    then have "tbl_list_len tbl = n" "add_all t0 (g @ [t]) = Inr tbl"
      using key_tbl_add_len [of "tf_tbl w"] fl t0(2,3) by (auto simp: kt_flows_def add_all_append)
    then show ?thesis using tbl that(2) t0(1) m
      by (auto simp: tf_handler_def TUPLE_TERM_def TUPLE_PUNC_def TUPLE_NORMAL_def tf_mid_def)
  qed
  assume o: "tf_fits env n i g"
  obtain f where f: "tf_output env w = Inr (w\<lparr>tf_files := fs @ [f]\<rparr>)" "tf_file env i g f"
    using tf_mid_output [OF m o] by blast
  show "\<exists>w' f. tf_handler env w t = Stop w' \<and> tf_file env i g f \<and> tf_files w' = fs @ [f]" if "flag t = TUPLE_TERM"
    using that f by (cases f) (auto simp: tf_handler_def)
  show "\<exists>w' f. tf_handler env w t = Go w' 1 \<and> tf_file env i g f \<and> tf_mid n (Suc i) [] (fs @ [f]) w'"
    if p: "flag t = TUPLE_PUNC"
  proof -
    obtain w' where w': "tf_punc env w = Inr w'" "tf_tbl w' = key_tbl_reset (tf_tbl w)"
      "tf_interval w' = of_nat i + 1" "tf_files w' = fs @ [f]"
      using f(1) o m by (simp add: tf_punc_def Let_def tf_stats_def tf_fits_def tf_mid_def)
    have "empty_flows n (tf_tbl w')" using reset_empty_flows [OF fl] t0(3) w'(2) by simp
    then have "tf_mid n (Suc i) [] (fs @ [f]) w'" using w'(3,4) by (auto simp: tf_mid_def empty_flows_def)
    then show ?thesis using p w'(1) f(2) by (cases f) (auto simp: tf_handler_def TUPLE_TERM_def TUPLE_PUNC_def)
  qed
qed

lemma tf_files_gen:
  assumes "empty_flows n tbl" "\<forall>k < length (cut (cur_of len) 0 ts). tf_fits env n k (cut (cur_of len) 0 ts ! k)"
    and "main_actions len ts = Inr as" "\<forall>t \<in> set ts. flag t = TUPLE_NORMAL"
    and "(tf_step env)\<^sup>*\<^sup>* (init_sys (create_ringbuffer z) b (tf_init tbl) as) u" "at_end u"
  shows "\<exists>w. wk u = Finished w \<and> length (tf_files w) = length (cut (cur_of len) 0 ts) \<and>
    (\<forall>k < length (cut (cur_of len) 0 ts). tf_file env k (cut (cur_of len) 0 ts ! k) (tf_files w ! k))"
proof -
  from main_actions_shape [OF assms(3,4)] obtain g0 pgs x where g: "as = actions g0 pgs @ [PWrite x, PFlush]"
    "cut (cur_of len) 0 ts = g0 # map snd pgs" "\<forall>t \<in> set g0. flag t = TUPLE_NORMAL"
    "\<forall>(p, g) \<in> set pgs. flag p = TUPLE_PUNC \<and> (\<forall>t \<in> set g. flag t = TUPLE_NORMAL)" "flag x = TUPLE_TERM"
    by blast
  have m: "tf_mid n 0 [] [] (tf_init tbl)" using assms(1) by (auto simp: tf_mid_def tf_init_def empty_flows_def)
  have "\<forall>k < Suc (length pgs). tf_fits env n (0 + k) ((g0 # map snd pgs) ! k)" using assms(2) unfolding g(2) by simp
  from tf_groups.groups_written [OF m this g(3-5)] obtain w hs where
    w: "fst (run_worker (tf_handler env) (Running (tf_init tbl)) (records g0 pgs @ [x])) = Finished w"
    "tf_files w = hs" "length hs = Suc (length pgs)" "\<forall>k < Suc (length pgs). tf_file env k ((g0 # map snd pgs) ! k) (hs ! k)"
    by auto
  have "wk u = Finished w"
    using tf.program_result [OF assms(5) rb_inv_create rb_contents_create assms(6)] w(1) g(1) by simp
  then show ?thesis using w(2-4) unfolding g(2) by simp
qed

section \<open>What the program writes\<close>

lemma flows_read_back:
  assumes "exact_flows g tbl" "empty_flows n tbl0" "key_tbl_read_file junk p (Some (key_tbl_print tbl)) tbl0 = Inr (tot, tbl1)"
  shows "kt_total tbl1 k = (if k \<in> tkey ` set g then Some (sum_list (flow_sizes g k)) else None)"
  using print_read_gen [OF assms(3)] assms(1,2) by (simp add: exact_flows_def empty_flows_def)

text \<open>C4: the ground truth is exact. Whatever the interleaving of the two threads, a run of \<open>true_flows\<close>
  that is at its end, with tables of 104-bit keys without expiry and at most 100 flows in each
  interval, has written one file for each group of records, in order: the listing of a table that
  holds exactly the flows of that group with their total sizes. Who reads such a file into an empty
  table, as the controller does, finds exactly these flows and sizes.\<close>

theorem true_flows_files:
  assumes "key_tbl_init rand glob 104 10000 100 (- 1) = Inr (tbl, glob')" "te_output env"
    and "main_actions len ts = Inr as" "\<forall>t \<in> set ts. flag t = TUPLE_NORMAL" "gs = cut (cur_of len) 0 ts"
    and "\<forall>k < length gs. \<exists>path. tf_path env (of_nat k) = Inr path \<and> te_writable env path"
    and "\<forall>g \<in> set gs. card (tkey ` set g) \<le> 100"
    and "(tf_step env)\<^sup>*\<^sup>* (init_sys (create_ringbuffer z) b (tf_init tbl) as) u" "at_end u"
  shows "\<exists>w. wk u = Finished w \<and> length (tf_files w) = length gs \<and>
    (\<forall>k < length gs. \<exists>path table. tf_files w ! k = (path, key_tbl_print table) \<and>
       tf_path env (of_nat k) = Inr path \<and> exact_flows (gs ! k) table \<and>
       (\<forall>junk p n tbl0 tot tbl1 key. empty_flows n tbl0 \<longrightarrow>
          key_tbl_read_file junk p (Some (key_tbl_print table)) tbl0 = Inr (tot, tbl1) \<longrightarrow>
          kt_total tbl1 key = (if key \<in> tkey ` set (gs ! k) then Some (sum_list (flow_sizes (gs ! k) key)) else None)))"
proof -
  have i: "(10000 :: int) \<le> INT_MAX" by (simp add: INT_MAX_def)
  have e: "empty_flows 100 tbl"
    using init_flows [OF assms(1) i] key_tbl_init_fresh [OF assms(1) i] by (auto simp: empty_flows_def)
  have "\<forall>k < length gs. tf_fits env 100 k (gs ! k)" using assms(2,6,7) by (simp add: tf_fits_def)
  from tf_files_gen [OF e this [unfolded assms(5)] assms(3,4,8,9), folded assms(5)] obtain w where
    w: "wk u = Finished w" "length (tf_files w) = length gs" "\<forall>k < length gs. tf_file env k (gs ! k) (tf_files w ! k)" by blast
  show ?thesis
  proof (intro exI [of _ w] conjI allI impI)
    fix k assume k: "k < length gs"
    obtain path content where f: "tf_files w ! k = (path, content)" by fastforce
    then obtain table where t: "tf_path env (of_nat k) = Inr path" "content = key_tbl_print table" "exact_flows (gs ! k) table"
      using w(3) k by (fastforce simp: tf_file_def)
    show "\<exists>path table. tf_files w ! k = (path, key_tbl_print table) \<and>
       tf_path env (of_nat k) = Inr path \<and> exact_flows (gs ! k) table \<and>
       (\<forall>junk p n tbl0 tot tbl1 key. empty_flows n tbl0 \<longrightarrow>
          key_tbl_read_file junk p (Some (key_tbl_print table)) tbl0 = Inr (tot, tbl1) \<longrightarrow>
          kt_total tbl1 key = (if key \<in> tkey ` set (gs ! k) then Some (sum_list (flow_sizes (gs ! k) key)) else None))"
      using flows_read_back [OF t(3)] f t by (intro exI [of _ path] exI [of _ table]) simp
  qed (use w(1,2) in simp_all)
qed

section \<open>A concrete run\<close>

definition flows_trace :: "tuple_t list" where
  "flows_trace = [zero_tuple\<lparr>tsize := 5, pkt_ts := 1\<rparr>, zero_tuple\<lparr>tsize := 2, pkt_ts := 1\<rparr>,
     zero_tuple\<lparr>tsize := 7, pkt_ts := dbl_of_int 3\<rparr>]"

definition flows_env :: tf_env where
  "flows_env = \<lparr>te_dir = Some ''d'', te_output = True, te_writable = (\<lambda>path. True)\<rparr>"

lemma flows_intervals: "map (interval_of 1000) flows_trace = [Inr 1, Inr 1, Inr 3]"
  by code_simp

lemma flows_trace_facts:
  "\<forall>t \<in> set flows_trace. flag t = TUPLE_NORMAL" "\<exists>as. main_actions 1000 flows_trace = Inr as"
  "cut (cur_of 1000) 0 flows_trace = [take 2 flows_trace, drop 2 flows_trace]"
  using flows_intervals
  by (simp_all add: flows_trace_def cur_of_def TUPLE_NORMAL_def zero_tuple_def main_actions_def Let_def)

lemma flows_paths:
  "tf_path flows_env 0 = Inr ''d/true_flows/true_0''" "tf_path flows_env 1 = Inr ''d/true_flows/true_1''"
  by code_simp+

lemma true_flows_files_witness:
  "\<exists>tbl g as u w path table. key_tbl_init 7 0 104 10000 100 (- 1) = Inr (tbl, g) \<and>
    main_actions 1000 flows_trace = Inr as \<and>
    (tf_step flows_env)\<^sup>*\<^sup>* (init_sys (create_ringbuffer zero_tuple) zero_tuple (tf_init tbl) as) u \<and>
    wk u = Finished w \<and> tf_files w ! 0 = (path, key_tbl_print table) \<and> kt_total table zero_key = Some 7"
proof -
  obtain p where "calc_next_prime 10000 = Inr p"
    using calc_next_prime_ends [OF prime_int_65537, of 10000] by (auto simp: INT_MAX_def)
  then have "\<exists>tbl g. key_tbl_init 7 0 104 10000 100 (- 1) = Inr (tbl, g)"
    by (simp add: key_tbl_init_def Let_def split: prod.split)
  then obtain tbl g where tbl: "key_tbl_init 7 0 104 10000 100 (- 1) = Inr (tbl, g)" by blast
  obtain as where as: "main_actions 1000 flows_trace = Inr as" using flows_trace_facts(2) by blast
  obtain u where u: "(tf_step flows_env)\<^sup>*\<^sup>* (init_sys (create_ringbuffer zero_tuple) zero_tuple (tf_init tbl) as) u" "at_end u"
    using tf.program_ends [OF as flows_trace_facts(1) rb_inv_create rb_contents_create] by blast
  let ?gs = "[take 2 flows_trace, drop 2 flows_trace]"
  have paths: "\<forall>k < length ?gs. \<exists>path. tf_path flows_env (of_nat k) = Inr path \<and> te_writable flows_env path"
    using flows_paths by (auto simp: flows_env_def less_Suc_eq)
  have "card (tkey ` set (take 2 flows_trace)) \<le> 100" "card (tkey ` set (drop 2 flows_trace)) \<le> 100"
    by (simp_all add: flows_trace_def)
  then have n: "\<forall>g \<in> set ?gs. card (tkey ` set g) \<le> 100" by simp
  have o: "te_output flows_env" by (simp add: flows_env_def)
  from true_flows_files [OF tbl o as flows_trace_facts(1) flows_trace_facts(3) [symmetric] paths n u] obtain w where
    f: "wk u = Finished w" "\<And>k. k < length ?gs \<Longrightarrow> \<exists>path table. tf_files w ! k = (path, key_tbl_print table) \<and>
       exact_flows (?gs ! k) table" by metis
  have "0 < length ?gs" by simp
  from f(2) [OF this] f(1) obtain path table where
    w: "wk u = Finished w" "tf_files w ! 0 = (path, key_tbl_print table)" "exact_flows (?gs ! 0) table" by blast
  have "kt_total table zero_key = Some (sum_list (flow_sizes (take 2 flows_trace) zero_key))"
    using w(3) by (simp add: exact_flows_def flows_trace_def zero_tuple_def)
  also have "sum_list (flow_sizes (take 2 flows_trace) zero_key) = 7" by code_simp
  finally show ?thesis using tbl as u(1) w(1,2) by blast
qed

end
