(* ===== verification/Hash_Table.thy ===== *)
theory Hash_Table
  imports Hash
begin

text \<open>
  \<^verbatim>\<open>hash_table.c\<close>: a chained hash table over a pool of entries. A pointer to an entry is its index
  in the pool; the pool is an explicit store, because the entries are linked both along the list
  of their row (\<open>prev\<close>, \<open>next\<close>) and along the pool (\<open>gprev\<close>, \<open>gnext\<close>). The table refines a map
  from keys to entries that are handed out in the order of the pool.
\<close>

section \<open>State\<close>

record hash_entry =
  hkey :: "byte list"
  hkey_len :: nat
  hvalue :: "byte list"
  hvalue_len :: nat
  belong :: int
  prev :: "nat option"
  nxt :: "nat option"
  gprev :: "nat option"
  gnext :: "nat option"

record hashtable =
  ht_key_len :: nat
  ht_value_len :: nat
  ht_max_size :: nat
  num_list :: nat
  ht_hash :: u64
  ht_scale :: u64
  ht_hardner :: u64
  hash_list :: "nat option list"
  slots :: "hash_entry list"
  ghead :: "nat option"
  gtail :: "nat option"
  free_entry :: "nat option"
  cur_num_entry :: nat

definition NUM_ROW_FACTOR :: int where
  "NUM_ROW_FACTOR = 7"

definition upd_slot :: "hashtable \<Rightarrow> nat \<Rightarrow> (hash_entry \<Rightarrow> hash_entry) \<Rightarrow> hashtable" where
  "upd_slot ht i f = ht\<lparr>slots := (slots ht)[i := f (slots ht ! i)]\<rparr>"

section \<open>Operations\<close>

text \<open>The hash value is cut to 32 bits before it is reduced.\<close>

definition hashtable_hash_fcn :: "hashtable \<Rightarrow> byte list \<Rightarrow> u32" where
  "hashtable_hash_fcn ht key = ucast (AwareHash key (ht_key_len ht) (ht_hash ht) (ht_scale ht) (ht_hardner ht))"

definition hashtable_cmp_fcn :: "byte list \<Rightarrow> byte list \<Rightarrow> nat \<Rightarrow> bool" where
  "hashtable_cmp_fcn k1 k2 len \<longleftrightarrow> take len k1 = take len k2"

definition hashtable_init_fcn :: "hash_entry \<Rightarrow> hash_entry" where
  "hashtable_init_fcn f = f\<lparr>hkey := replicate (hkey_len f) 0 @ drop (hkey_len f) (hkey f),
     hvalue := replicate (hvalue_len f) 0 @ drop (hvalue_len f) (hvalue f)\<rparr>"

definition hashtable_reset_fcn :: "hash_entry \<Rightarrow> hash_entry" where
  "hashtable_reset_fcn f = f\<lparr>hkey := replicate (hkey_len f) 0 @ drop (hkey_len f) (hkey f),
     hvalue := replicate (hvalue_len f) 0 @ drop (hvalue_len f) (hvalue f)\<rparr>"

text \<open>Putting an entry at the front of the list of its row; without a row a message is printed.\<close>

definition hashtable_link_node :: "hashtable \<Rightarrow> nat \<Rightarrow> hashtable res" where
  "hashtable_link_node ht entry =
     (let index = belong (slots ht ! entry)
      in if index = - 1 then Inr ht
         else if index < 0 \<or> int (length (hash_list ht)) \<le> index then Inl OutOfBounds
         else case hash_list ht ! nat index of
             Some h \<Rightarrow>
               let ht1 = upd_slot ht entry (\<lambda>e. e\<lparr>prev := None, nxt := Some h\<rparr>);
                   ht2 = upd_slot ht1 h (\<lambda>e. e\<lparr>prev := Some entry\<rparr>)
               in Inr (ht2\<lparr>hash_list := (hash_list ht2)[nat index := Some entry]\<rparr>)
           | None \<Rightarrow>
               let ht1 = upd_slot ht entry (\<lambda>e. e\<lparr>prev := None, nxt := None\<rparr>)
               in Inr (ht1\<lparr>hash_list := (hash_list ht1)[nat index := Some entry]\<rparr>))"

definition hashtable_unlink_node :: "hashtable \<Rightarrow> nat \<Rightarrow> hashtable res" where
  "hashtable_unlink_node ht entry =
     (let e = slots ht ! entry; index = belong e
      in if index = - 1 then Inr ht
         else if index < 0 \<or> int (length (hash_list ht)) \<le> index then Inl OutOfBounds
         else
           let ht1 = (case prev e of
                 Some p \<Rightarrow> upd_slot ht p (\<lambda>n. n\<lparr>nxt := nxt e\<rparr>)
               | None \<Rightarrow> ht\<lparr>hash_list := (hash_list ht)[nat index := nxt e]\<rparr>)
           in Inr (case nxt (slots ht1 ! entry) of
                 Some n \<Rightarrow> upd_slot ht1 n (\<lambda>n'. n'\<lparr>prev := prev (slots ht1 ! entry)\<rparr>)
               | None \<Rightarrow> ht1))"

text \<open>The same for the list of the pool; \<open>ghead_\<close> is dereferenced.\<close>

definition hashtable_glink_node :: "hashtable \<Rightarrow> nat \<Rightarrow> hashtable res" where
  "hashtable_glink_node ht entry =
     (let ht1 = upd_slot ht entry (\<lambda>e. e\<lparr>gprev := None, gnext := ghead ht\<rparr>)
      in case ghead ht1 of
           None \<Rightarrow> Inl OutOfBounds
         | Some h \<Rightarrow> Inr ((upd_slot ht1 h (\<lambda>e. e\<lparr>gprev := Some entry\<rparr>))\<lparr>ghead := Some entry\<rparr>))"

definition hashtable_gunlink_node :: "hashtable \<Rightarrow> nat \<Rightarrow> hashtable" where
  "hashtable_gunlink_node ht entry =
     (let e = slots ht ! entry;
          ht1 = (case gprev e of
                   Some p \<Rightarrow> upd_slot ht p (\<lambda>n. n\<lparr>gnext := gnext e\<rparr>)
                 | None \<Rightarrow> ht\<lparr>ghead := gnext e\<rparr>)
      in case gnext (slots ht1 ! entry) of
           Some n \<Rightarrow> upd_slot ht1 n (\<lambda>n'. n'\<lparr>gprev := gprev (slots ht1 ! entry)\<rparr>)
         | None \<Rightarrow> ht1\<lparr>gtail := gprev (slots ht1 ! entry)\<rparr>)"

text \<open>The next free entry, cleared; lengths beyond the arrays of an entry clear what follows them.\<close>

definition as_get_free_node :: "hashtable \<Rightarrow> (hashtable \<times> nat) res" where
  "as_get_free_node ht =
     (case free_entry ht of
        Some h \<Rightarrow>
          if 13 < hkey_len (slots ht ! h) \<or> 24 < hvalue_len (slots ht ! h) then Inl OutOfBounds
          else Inr (upd_slot (ht\<lparr>free_entry := gnext (slots ht ! h)\<rparr>) h hashtable_init_fcn, h)
      | None \<Rightarrow> Inl ExitError)"

text \<open>The loop along a row; a circular row would be walked for ever.\<close>

partial_function (option) ht_walk :: "hashtable \<Rightarrow> byte list \<Rightarrow> nat option \<Rightarrow> nat option option" where
  [code]: "ht_walk ht t p =
     (case p of
        None \<Rightarrow> Some None
      | Some h \<Rightarrow> if hashtable_cmp_fcn (hkey (slots ht ! h)) t (ht_key_len ht) then Some (Some h)
                  else ht_walk ht t (nxt (slots ht ! h)))"

definition ht_index :: "hashtable \<Rightarrow> byte list \<Rightarrow> nat" where
  "ht_index ht t = unat (hashtable_hash_fcn ht t mod of_nat (num_list ht))"

definition hashtable_find_entry :: "hashtable \<Rightarrow> byte list \<Rightarrow> (nat option \<times> nat) option" where
  "hashtable_find_entry ht t =
     (let index = ht_index ht t
      in map_option (\<lambda>m. (m, index)) (ht_walk ht t (hash_list ht ! index)))"

text \<open>
  \<open>hashtable_find\<close>: the entry of the key, if there is one, and the table, which changes when a new
  entry is made. Keys longer than the array of an entry are compared past its end.
\<close>

definition hashtable_find :: "hashtable \<Rightarrow> byte list \<Rightarrow> bool \<Rightarrow> (hashtable \<times> nat option) res option" where
  "hashtable_find ht t is_create =
     (if 13 < ht_key_len ht \<or> length t < ht_key_len ht then Some (Inl OutOfBounds)
      else
        map_option (\<lambda>(match, bucket_no).
          case match of
            Some h \<Rightarrow> Inr (ht, Some h)
          | None \<Rightarrow>
              if is_create then
                rbind (as_get_free_node ht) (\<lambda>(ht1, m).
                  let ht2 = upd_slot ht1 m (\<lambda>e. e\<lparr>hkey := take (ht_key_len ht) t @ drop (ht_key_len ht) (hkey e),
                        belong := int bucket_no\<rparr>)
                  in rbind (hashtable_link_node ht2 m) (\<lambda>ht3.
                       Inr (ht3\<lparr>cur_num_entry := cur_num_entry ht3 + 1\<rparr>, Some m)))
              else Inr (ht, None))
          (hashtable_find_entry ht t))"

text \<open>The sum of the characters of \<open>"associative"\<close> selects the three hash parameters.\<close>

definition associative_seed :: i32 where
  "associative_seed = foldl (\<lambda>s c. s + of_char c) 0 ''associative''"

definition pool_entry :: "nat \<Rightarrow> nat \<Rightarrow> nat \<Rightarrow> nat \<Rightarrow> hash_entry" where
  "pool_entry max_size key_len v_len i =
     \<lparr>hkey = replicate 13 0, hkey_len = key_len, hvalue = replicate 24 0, hvalue_len = v_len, belong = - 1,
      prev = None, nxt = None, gprev = (if i = 0 then None else Some (i - 1)),
      gnext = (if Suc i = max_size then None else Some (Suc i))\<rparr>"

text \<open>With \<open>max_size = 0\<close> the last entry of an empty pool is taken.\<close>

definition hashtable_init :: "u64 \<Rightarrow> u64 \<Rightarrow> nat \<Rightarrow> nat \<Rightarrow> nat \<Rightarrow> (hashtable \<times> u64) res" where
  "hashtable_init rand seed max_size key_len v_len =
     rbind (calc_next_prime (int max_size)) (\<lambda>p.
       if INT_MAX < p * NUM_ROW_FACTOR \<or> max_size = 0 then Inl OutOfBounds
       else
         let n = nat (p * NUM_ROW_FACTOR);
             (h, seed1) = GenHashSeed rand seed (associative_seed + of_char (CHR ''h''));
             (s, seed2) = GenHashSeed rand seed1 (associative_seed + of_char (CHR ''s''));
             (a, seed3) = GenHashSeed rand seed2 (associative_seed + of_char (CHR ''a''))
         in Inr (\<lparr>ht_key_len = key_len, ht_value_len = v_len, ht_max_size = max_size, num_list = n,
                  ht_hash = h, ht_scale = s, ht_hardner = a, hash_list = replicate n None,
                  slots = map (pool_entry max_size key_len v_len) [0..<max_size],
                  ghead = Some 0, gtail = Some (max_size - 1), free_entry = Some 0, cur_num_entry = 0\<rparr>, seed3))"

text \<open>The bytes, as \<open>int\<close>: the sizes of the two structures and of a pointer are parameters.\<close>

definition parray_byte :: "u64 \<Rightarrow> u64 \<Rightarrow> u64 \<Rightarrow> hashtable \<Rightarrow> i32" where
  "parray_byte sz_table sz_entry sz_ptr ht =
     (let admin = ucast sz_table; heap_size = 0;
          list_size = ucast (of_nat (num_list ht) * sz_ptr);
          slot_size = ucast (of_nat (ht_max_size ht) + sz_entry)
      in admin + heap_size + list_size + slot_size)"

text \<open>The entries in use, from the last one handed out back to the first: the loop over \<open>gprev\<close>.\<close>

definition last_used :: "hashtable \<Rightarrow> nat option" where
  "last_used ht = (case free_entry ht of None \<Rightarrow> gtail ht | Some f \<Rightarrow> gprev (slots ht ! f))"

partial_function (option) reset_walk :: "hashtable \<Rightarrow> nat option \<Rightarrow> hashtable option" where
  [code]: "reset_walk ht p =
     (case p of
        None \<Rightarrow> Some ht
      | Some h \<Rightarrow>
          let ht1 = upd_slot ht h (\<lambda>e. (hashtable_reset_fcn e)\<lparr>belong := - 1, prev := None, nxt := None\<rparr>)
          in reset_walk ht1 (gprev (slots ht1 ! h)))"

definition hashtable_reset :: "hashtable \<Rightarrow> hashtable option" where
  "hashtable_reset ht =
     map_option (\<lambda>ht1. ht1\<lparr>free_entry := ghead ht1, cur_num_entry := 0, hash_list := replicate (num_list ht1) None\<rparr>)
       (reset_walk ht (last_used ht))"

text \<open>Copying the entries: more of them than \<open>cur_num_entry\<close> would be written past the result.\<close>

partial_function (option) all_walk :: "hashtable \<Rightarrow> nat option \<Rightarrow> hash_entry list \<Rightarrow> hash_entry list res option" where
  [code]: "all_walk ht p ret =
     (case p of
        None \<Rightarrow> Some (Inr ret)
      | Some h \<Rightarrow>
          if cur_num_entry ht \<le> length ret then Some (Inl OutOfBounds)
          else all_walk ht (gprev (slots ht ! h)) (ret @ [slots ht ! h]))"

definition hashtable_get_all :: "hashtable \<Rightarrow> (hash_entry list \<times> nat) res option" where
  "hashtable_get_all ht =
     map_option (\<lambda>r. rbind r (\<lambda>ret. Inr (ret, cur_num_entry ht))) (all_walk ht (last_used ht) [])"

section \<open>The invariant\<close>

text \<open>The entries \<open>xs\<close> are linked in both directions from the pointer \<open>p\<close> on, after \<open>pr\<close>.\<close>

fun linked :: "hash_entry list \<Rightarrow> nat option \<Rightarrow> nat option \<Rightarrow> nat list \<Rightarrow> bool" where
  "linked s pr p [] \<longleftrightarrow> p = None"
| "linked s pr p (x # xs) \<longleftrightarrow> p = Some x \<and> x < length s \<and> prev (s ! x) = pr \<and> linked s (Some x) (nxt (s ! x)) xs"

lemma linked_cong:
  assumes "linked s pr p xs" "length s' = length s" "\<And>x. x \<in> set xs \<Longrightarrow> prev (s' ! x) = prev (s ! x) \<and> nxt (s' ! x) = nxt (s ! x)"
  shows "linked s' pr p xs"
  using assms by (induction s pr p xs rule: linked.induct) auto

lemma linked_new_prev:
  assumes "linked s pr p xs" "distinct xs" "length s' = length s"
    and "\<And>x. x \<in> set xs \<Longrightarrow> nxt (s' ! x) = nxt (s ! x) \<and> prev (s' ! x) = (if p = Some x then pr' else prev (s ! x))"
  shows "linked s' pr' p xs"
proof (cases xs)
  case (Cons x ys)
  have x: "p = Some x" "x < length s" "linked s (Some x) (nxt (s ! x)) ys" "x \<notin> set ys"
    using assms(1,2) Cons by auto
  have "linked s' (Some x) (nxt (s ! x)) ys"
  proof (rule linked_cong [OF x(3) assms(3)])
    fix y assume "y \<in> set ys"
    then show "prev (s' ! y) = prev (s ! y) \<and> nxt (s' ! y) = nxt (s ! y)" using assms(4) [of y] Cons x(1,4) by auto
  qed
  then show ?thesis using assms(4) [of x] Cons x(1,2) assms(3) by simp
qed (use assms in simp)

lemma ht_walk_find:
  "linked (slots ht) pr p xs \<Longrightarrow>
    ht_walk ht t p = Some (find (\<lambda>x. take (ht_key_len ht) (hkey (slots ht ! x)) = take (ht_key_len ht) t) xs)"
proof (induction xs arbitrary: pr p)
  case Nil
  then have "p = None" by simp
  then show ?case by (subst ht_walk.simps) simp
next
  case (Cons x xs)
  then have p: "p = Some x" "linked (slots ht) (Some x) (nxt (slots ht ! x)) xs" by auto
  show ?case unfolding p(1) by (subst ht_walk.simps) (simp add: hashtable_cmp_fcn_def Cons.IH [OF p(2)])
qed

definition has_key :: "hashtable \<Rightarrow> byte list \<Rightarrow> nat \<Rightarrow> bool" where
  "has_key ht t x \<longleftrightarrow> take (ht_key_len ht) (hkey (slots ht ! x)) = take (ht_key_len ht) t"

text \<open>
  \<open>rows\<close> are the lists of the rows: the used entries are the first \<open>cur_num_entry\<close> of the pool, each
  in the row of its key, and no key twice.
\<close>

definition entry_ok :: "hashtable \<Rightarrow> nat \<Rightarrow> bool" where
  "entry_ok ht i \<longleftrightarrow>
     (let e = slots ht ! i
      in hkey_len e = ht_key_len ht \<and> hvalue_len e = ht_value_len ht \<and> length (hkey e) = 13 \<and> length (hvalue e) = 24 \<and>
         gprev e = (if i = 0 then None else Some (i - 1)) \<and>
         gnext e = (if Suc i = ht_max_size ht then None else Some (Suc i)))"

definition ht_inv :: "hashtable \<Rightarrow> nat list list \<Rightarrow> bool" where
  "ht_inv ht rows \<longleftrightarrow>
     0 < num_list ht \<and> num_list ht < 2 ^ 31 \<and> length rows = num_list ht \<and> length (hash_list ht) = num_list ht \<and>
     ht_key_len ht \<le> 13 \<and> ht_value_len ht \<le> 24 \<and> 0 < ht_max_size ht \<and> length (slots ht) = ht_max_size ht \<and>
     cur_num_entry ht \<le> ht_max_size ht \<and> (\<forall>i < ht_max_size ht. entry_ok ht i) \<and>
     (\<forall>b < num_list ht. linked (slots ht) None (hash_list ht ! b) (rows ! b) \<and> distinct (rows ! b) \<and>
        (\<forall>x \<in> set (rows ! b). x < cur_num_entry ht \<and> ht_index ht (hkey (slots ht ! x)) = b)) \<and>
     (\<forall>x < cur_num_entry ht. x \<in> set (rows ! ht_index ht (hkey (slots ht ! x)))) \<and>
     (\<forall>x < cur_num_entry ht. \<forall>y < cur_num_entry ht. has_key ht (hkey (slots ht ! y)) x \<longrightarrow> x = y) \<and>
     ghead ht = Some 0 \<and> gtail ht = Some (ht_max_size ht - 1) \<and>
     free_entry ht = (if cur_num_entry ht < ht_max_size ht then Some (cur_num_entry ht) else None)"

definition ht_ok :: "hashtable \<Rightarrow> bool" where
  "ht_ok ht \<longleftrightarrow> (\<exists>rows. ht_inv ht rows)"

text \<open>The map that the table stands for: from keys to entries.\<close>

definition ht_map :: "hashtable \<Rightarrow> byte list \<Rightarrow> nat option" where
  "ht_map ht t = find (has_key ht t) [0..<cur_num_entry ht]"

lemma find_unique:
  assumes "x \<in> set xs" "P x" "\<And>y. y \<in> set xs \<Longrightarrow> P y \<Longrightarrow> y = x"
  shows "find P xs = Some x"
proof (cases "find P xs")
  case None
  then show ?thesis using assms(1,2) by (simp add: find_None_iff)
next
  case (Some y)
  then have "y \<in> set xs" "P y" by (auto simp: find_Some_iff)
  then show ?thesis using assms(3) Some by blast
qed

lemma ht_map_Some:
  assumes "ht_inv ht rows"
  shows "ht_map ht t = Some x \<longleftrightarrow> x < cur_num_entry ht \<and> has_key ht t x"
proof
  assume "ht_map ht t = Some x"
  then show "x < cur_num_entry ht \<and> has_key ht t x" by (auto simp: ht_map_def find_Some_iff)
next
  assume h: "x < cur_num_entry ht \<and> has_key ht t x"
  show "ht_map ht t = Some x" unfolding ht_map_def
  proof (rule find_unique)
    fix y assume "y \<in> set [0..<cur_num_entry ht]" "has_key ht t y"
    then have "y < cur_num_entry ht" "has_key ht (hkey (slots ht ! x)) y" using h by (auto simp: has_key_def)
    then show "y = x" using assms h by (auto simp: ht_inv_def)
  qed (use h in auto)
qed

lemma ht_index_key:
  assumes "has_key ht t x"
  shows "ht_index ht (hkey (slots ht ! x)) = ht_index ht t"
proof -
  have "ht_index ht k = ht_index ht (take (ht_key_len ht) k)" for k
    unfolding ht_index_def hashtable_hash_fcn_def AwareHash_take ..
  note e = this
  have "ht_index ht (hkey (slots ht ! x)) = ht_index ht (take (ht_key_len ht) (hkey (slots ht ! x)))" by (rule e)
  also have "\<dots> = ht_index ht (take (ht_key_len ht) t)" using assms by (simp only: has_key_def)
  also have "\<dots> = ht_index ht t" by (rule e [symmetric])
  finally show ?thesis .
qed

lemma ht_index_less: "0 < num_list ht \<Longrightarrow> num_list ht < 2 ^ 31 \<Longrightarrow> ht_index ht t < num_list ht"
  unfolding ht_index_def by (simp add: unat_mod unat_of_nat)

lemma ht_invD:
  assumes "ht_inv ht rows"
  shows "0 < num_list ht" "num_list ht < 2 ^ 31" "length rows = num_list ht" "length (hash_list ht) = num_list ht"
    "ht_key_len ht \<le> 13" "ht_value_len ht \<le> 24" "0 < ht_max_size ht" "length (slots ht) = ht_max_size ht"
    "cur_num_entry ht \<le> ht_max_size ht" "ghead ht = Some 0" "gtail ht = Some (ht_max_size ht - 1)"
    "free_entry ht = (if cur_num_entry ht < ht_max_size ht then Some (cur_num_entry ht) else None)"
    and "\<And>i. i < ht_max_size ht \<Longrightarrow> entry_ok ht i"
    and "\<And>b. b < num_list ht \<Longrightarrow> linked (slots ht) None (hash_list ht ! b) (rows ! b)"
    and "\<And>b. b < num_list ht \<Longrightarrow> distinct (rows ! b)"
    and "\<And>b x. b < num_list ht \<Longrightarrow> x \<in> set (rows ! b) \<Longrightarrow> x < cur_num_entry ht"
    and "\<And>b x. b < num_list ht \<Longrightarrow> x \<in> set (rows ! b) \<Longrightarrow> ht_index ht (hkey (slots ht ! x)) = b"
    and "\<And>x. x < cur_num_entry ht \<Longrightarrow> x \<in> set (rows ! ht_index ht (hkey (slots ht ! x)))"
    and "\<And>x y. x < cur_num_entry ht \<Longrightarrow> y < cur_num_entry ht \<Longrightarrow> has_key ht (hkey (slots ht ! y)) x \<Longrightarrow> x = y"
  using assms unfolding ht_inv_def by simp_all

lemma find_entry_map:
  assumes "ht_inv ht rows"
  shows "hashtable_find_entry ht t = Some (ht_map ht t, ht_index ht t)"
proof -
  let ?b = "ht_index ht t"
  note inv = ht_invD [OF assms]
  have b: "?b < num_list ht" by (rule ht_index_less [OF inv(1,2)])
  note l = inv(14) [OF b]
  have "find (has_key ht t) (rows ! ?b) = ht_map ht t"
  proof (cases "ht_map ht t")
    case (Some x)
    then have x: "x < cur_num_entry ht" "has_key ht t x" using ht_map_Some [OF assms] by auto
    have m: "x \<in> set (rows ! ?b)" using inv(18) [OF x(1)] unfolding ht_index_key [OF x(2)] .
    have u: "y = x" if y: "y \<in> set (rows ! ?b)" "has_key ht t y" for y
    proof -
      have "ht_map ht t = Some y" using ht_map_Some [OF assms] inv(16) [OF b y(1)] y(2) by blast
      then show ?thesis using Some by simp
    qed
    show ?thesis unfolding Some by (rule find_unique) (use m x(2) u in blast)+
  next
    case None
    have "\<not> has_key ht t x" if "x \<in> set (rows ! ?b)" for x
      using ht_map_Some [OF assms, of t x] None inv(16) [OF b that] by simp
    then show ?thesis using None by (simp add: find_None_iff)
  qed
  moreover have "ht_walk ht t (hash_list ht ! ?b) = Some (find (has_key ht t) (rows ! ?b))"
    using ht_walk_find [OF l, of t] by (simp only: has_key_def [abs_def])
  ultimately show ?thesis by (simp only: hashtable_find_entry_def Let_def option.map)
qed

section \<open>A new entry\<close>

definition new_entry :: "hashtable \<Rightarrow> byte list \<Rightarrow> nat option \<Rightarrow> hash_entry" where
  "new_entry ht t front =
     (let e = hashtable_init_fcn (slots ht ! cur_num_entry ht); n = ht_key_len ht
      in e\<lparr>hkey := take n t @ drop n (hkey e), belong := int (ht_index ht t), prev := None, nxt := front\<rparr>)"

lemma ht_head:
  assumes "ht_inv ht rows" "b < num_list ht" "hash_list ht ! b = Some h"
  shows "h \<in> set (rows ! b)"
  using ht_invD(14) [OF assms(1,2)] assms(3) by (cases "rows ! b") auto

text \<open>How the table looks after a new entry: \<open>m\<close> is the entry, \<open>b\<close> its row.\<close>

definition inserted :: "hashtable \<Rightarrow> byte list \<Rightarrow> hashtable \<Rightarrow> bool" where
  "inserted ht t ht' \<longleftrightarrow> (let m = cur_num_entry ht; b = ht_index ht t in
     ht' = ht\<lparr>slots := slots ht', hash_list := (hash_list ht)[b := Some m],
       free_entry := gnext (slots ht ! m), cur_num_entry := m + 1\<rparr> \<and>
     length (slots ht') = length (slots ht) \<and> slots ht' ! m = new_entry ht t (hash_list ht ! b) \<and>
     (\<forall>x. x \<noteq> m \<longrightarrow> slots ht' ! x =
        (if hash_list ht ! b = Some x then (slots ht ! x)\<lparr>prev := Some m\<rparr> else slots ht ! x)))"

definition new_rows :: "hashtable \<Rightarrow> byte list \<Rightarrow> nat list list \<Rightarrow> nat list list" where
  "new_rows ht t rows = rows[ht_index ht t := cur_num_entry ht # rows ! ht_index ht t]"

lemma insert_shape:
  assumes "ht_inv ht rows" "ht_map ht t = None" "cur_num_entry ht < ht_max_size ht" "ht_key_len ht \<le> length t"
  shows "\<exists>ht'. hashtable_find ht t True = Some (Inr (ht', Some (cur_num_entry ht))) \<and> inserted ht t ht'"
proof -
  note inv = ht_invD [OF assms(1)]
  let ?m = "cur_num_entry ht" and ?b = "ht_index ht t"
  have b: "?b < num_list ht" by (rule ht_index_less [OF inv(1,2)])
  have m: "?m < length (slots ht)" using assms(3) inv(8) by simp
  have e: "entry_ok ht ?m" by (rule inv(13) [OF assms(3)])
  have g: "\<not> 13 < hkey_len (slots ht ! ?m)" "\<not> 24 < hvalue_len (slots ht ! ?m)"
    using e inv(5,6) by (simp_all add: entry_ok_def Let_def)
  have f: "free_entry ht = Some ?m" using inv(12) assms(3) by simp
  have fe: "hashtable_find_entry ht t = Some (None, ?b)" using find_entry_map [OF assms(1)] assms(2) by simp
  have k: "\<not> (13 < ht_key_len ht \<or> length t < ht_key_len ht)" using inv(5) assms(4) by simp
  have h: "h < length (slots ht)" "h \<noteq> ?m" if "hash_list ht ! ?b = Some h" for h
    using inv(16) [OF b ht_head [OF assms(1) b that]] m by auto
  show ?thesis
  proof (cases "hash_list ht ! ?b")
    case None
    then show ?thesis using g m b inv(4) k
      by (simp add: hashtable_find_def fe as_get_free_node_def f upd_slot_def hashtable_link_node_def Let_def new_entry_def inserted_def
          del: not_less not_le)
  next
    case (Some h)
    then show ?thesis using g m b inv(4) k h [OF Some]
      by (auto simp: hashtable_find_def fe as_get_free_node_def f upd_slot_def hashtable_link_node_def Let_def new_entry_def inserted_def
          nth_list_update)
  qed
qed

lemma inserted_sel:
  assumes "inserted ht t ht'"
  shows "num_list ht' = num_list ht" "ht_key_len ht' = ht_key_len ht" "ht_value_len ht' = ht_value_len ht"
    "ht_max_size ht' = ht_max_size ht" "cur_num_entry ht' = cur_num_entry ht + 1"
    "hash_list ht' = (hash_list ht)[ht_index ht t := Some (cur_num_entry ht)]"
    "ghead ht' = ghead ht" "gtail ht' = gtail ht" "free_entry ht' = gnext (slots ht ! cur_num_entry ht)"
    "length (slots ht') = length (slots ht)" "ht_index ht' = ht_index ht"
proof -
  have eq: "ht' = ht\<lparr>slots := slots ht', hash_list := (hash_list ht)[ht_index ht t := Some (cur_num_entry ht)],
      free_entry := gnext (slots ht ! cur_num_entry ht), cur_num_entry := cur_num_entry ht + 1\<rparr>"
    using assms by (simp add: inserted_def Let_def)
  show "num_list ht' = num_list ht" "ht_key_len ht' = ht_key_len ht" "ht_value_len ht' = ht_value_len ht"
    "ht_max_size ht' = ht_max_size ht" "cur_num_entry ht' = cur_num_entry ht + 1"
    "hash_list ht' = (hash_list ht)[ht_index ht t := Some (cur_num_entry ht)]"
    "ghead ht' = ghead ht" "gtail ht' = gtail ht" "free_entry ht' = gnext (slots ht ! cur_num_entry ht)"
    by (subst eq, simp)+
  have "ht_hash ht' = ht_hash ht" "ht_scale ht' = ht_scale ht" "ht_hardner ht' = ht_hardner ht"
    "num_list ht' = num_list ht" "ht_key_len ht' = ht_key_len ht" by (subst eq, simp)+
  then show "ht_index ht' = ht_index ht" by (simp add: ht_index_def hashtable_hash_fcn_def fun_eq_iff)
  show "length (slots ht') = length (slots ht)" using assms by (simp add: inserted_def Let_def)
qed

lemma inserted_keep:
  assumes "inserted ht t ht'" "x \<noteq> cur_num_entry ht"
  shows "hkey (slots ht' ! x) = hkey (slots ht ! x)" "nxt (slots ht' ! x) = nxt (slots ht ! x)"
    "prev (slots ht' ! x) =
      (if hash_list ht ! ht_index ht t = Some x then Some (cur_num_entry ht) else prev (slots ht ! x))"
    "entry_ok ht' x = entry_ok ht x"
  using assms by (simp_all add: inserted_def Let_def entry_ok_def inserted_sel [OF assms(1)])

lemma inserted_new:
  assumes "ht_inv ht rows" "cur_num_entry ht < ht_max_size ht" "ht_key_len ht \<le> length t" "inserted ht t ht'"
  shows "prev (slots ht' ! cur_num_entry ht) = None" "nxt (slots ht' ! cur_num_entry ht) = hash_list ht ! ht_index ht t"
    "entry_ok ht' (cur_num_entry ht)"
    "has_key ht' k x \<longleftrightarrow> (if x = cur_num_entry ht then take (ht_key_len ht) k = take (ht_key_len ht) t else has_key ht k x)"
    "ht_index ht (hkey (slots ht' ! cur_num_entry ht)) = ht_index ht t"
proof -
  note inv = ht_invD [OF assms(1)] and sel = inserted_sel [OF assms(4)]
  have new: "slots ht' ! cur_num_entry ht = new_entry ht t (hash_list ht ! ht_index ht t)"
    using assms(4) by (simp add: inserted_def Let_def)
  show "prev (slots ht' ! cur_num_entry ht) = None" "nxt (slots ht' ! cur_num_entry ht) = hash_list ht ! ht_index ht t"
    by (simp_all add: new new_entry_def Let_def)
  have "entry_ok ht (cur_num_entry ht)" using inv(13) assms(2) by simp
  then show "entry_ok ht' (cur_num_entry ht)" using inv(5,6) assms(3) unfolding entry_ok_def new sel
    by (simp add: new_entry_def Let_def hashtable_init_fcn_def)
  have "take (ht_key_len ht) (hkey (slots ht' ! cur_num_entry ht)) = take (ht_key_len ht) t"
    using assms(3) by (simp add: new new_entry_def Let_def)
  then have has: "has_key ht' k x \<longleftrightarrow>
      (if x = cur_num_entry ht then take (ht_key_len ht) k = take (ht_key_len ht) t else has_key ht k x)" for k x
    using inserted_keep(1) [OF assms(4), of x] by (auto simp: has_key_def sel)
  show "has_key ht' k x \<longleftrightarrow>
      (if x = cur_num_entry ht then take (ht_key_len ht) k = take (ht_key_len ht) t else has_key ht k x)" by (rule has)
  show "ht_index ht (hkey (slots ht' ! cur_num_entry ht)) = ht_index ht t"
    using ht_index_key [of ht' t "cur_num_entry ht"] has [of t "cur_num_entry ht"] by (simp add: sel)
qed

lemma new_rows_row:
  assumes "ht_inv ht rows" "c < num_list ht"
  shows "new_rows ht t rows ! c = (if c = ht_index ht t then cur_num_entry ht # rows ! c else rows ! c)"
  using assms ht_invD(3) [OF assms(1)] by (simp add: new_rows_def)

lemma row_less: "ht_inv ht rows \<Longrightarrow> c < num_list ht \<Longrightarrow> x \<in> set (rows ! c) \<Longrightarrow> x \<noteq> cur_num_entry ht \<and> x < cur_num_entry ht"
  using ht_invD(16) by fastforce

lemma inserted_linked:
  assumes "ht_inv ht rows" "cur_num_entry ht < ht_max_size ht" "ht_key_len ht \<le> length t" "inserted ht t ht'"
    and c: "c < num_list ht"
  shows "linked (slots ht') None (hash_list ht' ! c) (new_rows ht t rows ! c)"
proof -
  note inv = ht_invD [OF assms(1)] and sel = inserted_sel [OF assms(4)] and keep = inserted_keep [OF assms(4)]
    and row = new_rows_row [OF assms(1) c, of t]
  let ?b = "ht_index ht t" and ?m = "cur_num_entry ht"
  have b: "?b < num_list ht" by (rule ht_index_less [OF inv(1,2)])
  show ?thesis
  proof (cases "c = ?b")
    case True
    have "linked (slots ht') (Some ?m) (hash_list ht ! ?b) (rows ! ?b)"
      by (rule linked_new_prev [OF inv(14,15) [OF b] sel(10)]) (use row_less [OF assms(1) b] keep in simp)
    then show ?thesis using True row b inv(4,8) assms(2) inserted_new(1,2) [OF assms(1-4)] by (simp add: sel)
  next
    case False
    have "linked (slots ht') None (hash_list ht ! c) (rows ! c)"
    proof (rule linked_cong [OF inv(14) [OF c] sel(10)])
      fix x assume x: "x \<in> set (rows ! c)"
      then have "x \<noteq> ?m" "hash_list ht ! ?b \<noteq> Some x"
        using row_less [OF assms(1) c] inv(17) [OF c x] inv(17) [OF b ht_head [OF assms(1) b]] False by auto
      then show "prev (slots ht' ! x) = prev (slots ht ! x) \<and> nxt (slots ht' ! x) = nxt (slots ht ! x)" using keep by simp
    qed
    then show ?thesis using False row by (simp add: sel)
  qed
qed

lemma inserted_rows:
  assumes "ht_inv ht rows" "cur_num_entry ht < ht_max_size ht" "ht_key_len ht \<le> length t" "inserted ht t ht'"
  shows "c < num_list ht \<Longrightarrow> x \<in> set (new_rows ht t rows ! c) \<Longrightarrow>
      x < cur_num_entry ht + 1 \<and> ht_index ht (hkey (slots ht' ! x)) = c"
    and "c < num_list ht \<Longrightarrow> distinct (new_rows ht t rows ! c)"
    and "x < cur_num_entry ht + 1 \<Longrightarrow> x \<in> set (new_rows ht t rows ! ht_index ht (hkey (slots ht' ! x)))"
proof -
  note inv = ht_invD [OF assms(1)] and row = new_rows_row [OF assms(1), of _ t] and less = row_less [OF assms(1)]
    and keep = inserted_keep(1) [OF assms(4), of x] and im = inserted_new(5) [OF assms]
  show "x < cur_num_entry ht + 1 \<and> ht_index ht (hkey (slots ht' ! x)) = c"
    if "c < num_list ht" "x \<in> set (new_rows ht t rows ! c)"
  proof (cases "x = cur_num_entry ht")
    case True
    then have "c = ht_index ht t" using that row [OF that(1)] less [OF that(1)] by (auto split: if_splits)
    then show ?thesis using im True by simp
  next
    case False
    then have "x \<in> set (rows ! c)" using that row [OF that(1)] by (auto split: if_splits)
    then show ?thesis using less [OF that(1)] inv(17) [OF that(1)] keep False by fastforce
  qed
  show "distinct (new_rows ht t rows ! c)" if "c < num_list ht"
    using row [OF that] inv(15) [OF that] less [OF that] by auto
  show "x \<in> set (new_rows ht t rows ! ht_index ht (hkey (slots ht' ! x)))" if "x < cur_num_entry ht + 1"
  proof (cases "x = cur_num_entry ht")
    case True
    then show ?thesis using im row [OF ht_index_less [OF inv(1,2)]] by simp
  next
    case False
    then have "x < cur_num_entry ht" using that by simp
    from inv(18) [OF this] show ?thesis using keep False row [OF ht_index_less [OF inv(1,2)]]
      by (cases "ht_index ht (hkey (slots ht ! x)) = ht_index ht t") simp_all
  qed
qed

lemma inserted_unique:
  assumes "ht_inv ht rows" "ht_map ht t = None" "cur_num_entry ht < ht_max_size ht" "ht_key_len ht \<le> length t"
    and "inserted ht t ht'" "x < cur_num_entry ht + 1" "y < cur_num_entry ht + 1" "has_key ht' (hkey (slots ht' ! y)) x"
  shows "x = y"
proof -
  note has = inserted_new(4) [OF assms(1,3-5)] and keep = inserted_keep(1) [OF assms(5)] and sel = inserted_sel [OF assms(5)]
  have none: "\<not> has_key ht t z" if "z < cur_num_entry ht" for z
    using ht_map_Some [OF assms(1), of t z] assms(2) that by simp
  have nm: "take (ht_key_len ht) (hkey (slots ht' ! cur_num_entry ht)) = take (ht_key_len ht) t"
    using has [of t "cur_num_entry ht"] by (simp add: has_key_def sel)
  show ?thesis
  proof (cases "x = cur_num_entry ht \<or> y = cur_num_entry ht")
    case True
    then show ?thesis using assms(6-8) none [of x] none [of y] has nm keep
      by (cases "x = cur_num_entry ht"; cases "y = cur_num_entry ht") (auto simp: has_key_def sel)
  next
    case False
    then have "has_key ht (hkey (slots ht ! y)) x" using assms(8) has keep [of y] by auto
    moreover have "x < cur_num_entry ht" "y < cur_num_entry ht" using assms(6,7) False by auto
    ultimately show ?thesis using ht_invD(19) [OF assms(1)] by blast
  qed
qed

lemma insert_inv:
  assumes "ht_inv ht rows" "ht_map ht t = None" "cur_num_entry ht < ht_max_size ht" "ht_key_len ht \<le> length t"
    and "inserted ht t ht'"
  shows "ht_inv ht' (new_rows ht t rows)"
    and "ht_map ht' k = (if take (ht_key_len ht) k = take (ht_key_len ht) t then Some (cur_num_entry ht) else ht_map ht k)"
proof -
  note inv = ht_invD [OF assms(1)] and sel = inserted_sel [OF assms(5)] and ins = assms(1,3-5)
  have ok: "entry_ok ht' i" if "i < ht_max_size ht" for i
    using inserted_keep(4) [OF assms(5), of i] inv(13) [OF that] inserted_new(3) [OF ins] by (cases "i = cur_num_entry ht") auto
  have free: "gnext (slots ht ! cur_num_entry ht) =
      (if cur_num_entry ht + 1 < ht_max_size ht then Some (cur_num_entry ht + 1) else None)"
    using inv(13) [OF assms(3)] assms(3) by (auto simp: entry_ok_def Let_def)
  have sizes: "length (new_rows ht t rows) = num_list ht" "length (hash_list ht') = num_list ht"
    "cur_num_entry ht + 1 \<le> ht_max_size ht" using inv(3,4) assms(3) by (simp_all add: new_rows_def sel)
  show i: "ht_inv ht' (new_rows ht t rows)"
    unfolding ht_inv_def sel(1-5,7-11) free
  proof (intro conjI allI impI ballI)
    show "x < cur_num_entry ht + 1" "ht_index ht (hkey (slots ht' ! x)) = c"
      if "c < num_list ht" "x \<in> set (new_rows ht t rows ! c)" for c x
      using inserted_rows(1) [OF ins that] by simp_all
  qed (fact inv(1,2,5-8,10,11) sizes | rule refl |
      erule ok inserted_rows(2) [OF ins] inserted_rows(3) [OF ins] inserted_linked [OF ins] |
      rule inserted_unique [OF assms], assumption+)+
  show "ht_map ht' k = (if take (ht_key_len ht) k = take (ht_key_len ht) t then Some (cur_num_entry ht) else ht_map ht k)"
  proof (cases "take (ht_key_len ht) k = take (ht_key_len ht) t")
    case True
    then have "ht_map ht' k = Some (cur_num_entry ht)"
      unfolding ht_map_Some [OF i] using inserted_new(4) [OF ins, of k] by (simp add: sel)
    then show ?thesis using True by simp
  next
    case False
    have "ht_map ht' k = Some x \<longleftrightarrow> ht_map ht k = Some x" for x
      unfolding ht_map_Some [OF i] ht_map_Some [OF assms(1)] using inserted_new(4) [OF ins, of k x] False by (auto simp: sel)
    then have "ht_map ht' k = ht_map ht k" by (metis not_Some_eq)
    then show ?thesis using False by simp
  qed
qed

section \<open>The entries in use\<close>

definition before :: "nat \<Rightarrow> nat option" where
  "before k = (if k = 0 then None else Some (k - 1))"

lemma last_used_inv:
  assumes "ht_inv ht rows"
  shows "last_used ht = before (cur_num_entry ht)"
proof (cases "cur_num_entry ht < ht_max_size ht")
  case True
  then show ?thesis using ht_invD(12,13) [OF assms] by (simp add: last_used_def before_def entry_ok_def Let_def)
next
  case False
  then have "cur_num_entry ht = ht_max_size ht" using ht_invD(9) [OF assms] by simp
  then show ?thesis using ht_invD(7,11,12) [OF assms] by (simp add: last_used_def before_def)
qed

lemma all_walk_entries:
  assumes "\<forall>i < k. entry_ok ht i" "length ret + k \<le> cur_num_entry ht"
  shows "all_walk ht (before k) ret = Some (Inr (ret @ map ((!) (slots ht)) (rev [0..<k])))"
  using assms
proof (induction k arbitrary: ret)
  case 0
  show ?case by (subst all_walk.simps) (simp add: before_def)
next
  case (Suc k)
  have "gprev (slots ht ! k) = before k" using Suc.prems(1) by (simp add: entry_ok_def Let_def before_def)
  moreover have "all_walk ht (before k) (ret @ [slots ht ! k]) =
      Some (Inr ((ret @ [slots ht ! k]) @ map ((!) (slots ht)) (rev [0..<k])))" using Suc by (intro Suc.IH) auto
  ultimately show ?case using Suc.prems(2) by (subst all_walk.simps) (simp add: before_def)
qed

definition cleared :: "hash_entry \<Rightarrow> hash_entry" where
  "cleared e = (hashtable_reset_fcn e)\<lparr>belong := - 1, prev := None, nxt := None\<rparr>"

lemma reset_walk_entries:
  assumes "\<forall>i < k. gprev (slots ht ! i) = before i" "k \<le> length (slots ht)"
  shows "reset_walk ht (before k) = Some (ht\<lparr>slots := map cleared (take k (slots ht)) @ drop k (slots ht)\<rparr>)"
  using assms
proof (induction k arbitrary: ht)
  case 0
  show ?case by (subst reset_walk.simps) (simp add: before_def)
next
  case (Suc k)
  let ?ht = "upd_slot ht k cleared"
  have s: "slots ?ht = (slots ht)[k := cleared (slots ht ! k)]" by (simp add: upd_slot_def)
  have "gprev (slots ?ht ! k) = before k" using Suc.prems by (simp add: s cleared_def hashtable_reset_fcn_def)
  then have "reset_walk ht (before (Suc k)) = reset_walk ?ht (before k)"
    by (subst reset_walk.simps) (simp add: before_def Let_def cleared_def [abs_def])
  also have "\<dots> = Some (?ht\<lparr>slots := map cleared (take k (slots ?ht)) @ drop k (slots ?ht)\<rparr>)"
    using Suc.prems by (intro Suc.IH) (simp_all add: s)
  also have "map cleared (take k (slots ?ht)) @ drop k (slots ?ht) =
      map cleared (take (Suc k) (slots ht)) @ drop (Suc k) (slots ht)"
    using Suc.prems(2) by (simp add: s take_Suc_conv_app_nth Cons_nth_drop_Suc [symmetric] drop_update_swap)
  finally show ?case by (simp add: upd_slot_def)
qed

lemma reset_inv:
  assumes "ht_inv ht rows"
  shows "\<exists>ht'. hashtable_reset ht = Some ht' \<and> ht_inv ht' (replicate (num_list ht) []) \<and> cur_num_entry ht' = 0 \<and>
    ht_key_len ht' = ht_key_len ht \<and> ht_value_len ht' = ht_value_len ht \<and> ht_max_size ht' = ht_max_size ht \<and>
    (\<forall>x < ht_max_size ht. slots ht' ! x = (if x < cur_num_entry ht then cleared (slots ht ! x) else slots ht ! x))"
proof -
  note inv = ht_invD [OF assms]
  let ?k = "cur_num_entry ht"
  let ?s = "map cleared (take ?k (slots ht)) @ drop ?k (slots ht)"
  have "\<forall>i < ?k. gprev (slots ht ! i) = before i" using inv(9,13) by (simp add: entry_ok_def Let_def before_def)
  then have w: "reset_walk ht (last_used ht) = Some (ht\<lparr>slots := ?s\<rparr>)"
    unfolding last_used_inv [OF assms] by (rule reset_walk_entries) (use inv(8,9) in simp)
  let ?ht = "ht\<lparr>slots := ?s, free_entry := ghead ht, cur_num_entry := 0, hash_list := replicate (num_list ht) None\<rparr>"
  have r: "hashtable_reset ht = Some ?ht" by (simp add: hashtable_reset_def w)
  have nth: "?s ! i = (if i < ?k then cleared (slots ht ! i) else slots ht ! i)" if "i < ht_max_size ht" for i
    using that inv(8,9) by (simp add: nth_append)
  have "entry_ok ?ht i" if "i < ht_max_size ht" for i
    using inv(13) [OF that] inv(5,6) unfolding entry_ok_def
    by (simp add: nth [OF that] Let_def cleared_def hashtable_reset_fcn_def)
  then have "ht_inv ?ht (replicate (num_list ht) [])"
    unfolding ht_inv_def using inv(1-11) by simp
  then show ?thesis using r inv(9) nth by (intro exI [of _ ?ht]) simp
qed

lemma init_inv:
  assumes "hashtable_init rand seed max_size key_len v_len = Inr (ht, seed')" "key_len \<le> 13" "v_len \<le> 24"
  shows "ht_inv ht (replicate (num_list ht) []) \<and> cur_num_entry ht = 0 \<and> ht_max_size ht = max_size \<and> ht_key_len ht = key_len"
proof -
  from assms(1) obtain p where p: "calc_next_prime (int max_size) = Inr p" "\<not> INT_MAX < p * NUM_ROW_FACTOR" "max_size \<noteq> 0"
    "num_list ht = nat (p * NUM_ROW_FACTOR)"
    by (auto simp: hashtable_init_def Let_def split: if_splits prod.splits)
  have q: "prime_int p" using calc_next_prime_least [OF p(1)] by simp
  then have n: "0 < num_list ht" "num_list ht < 2 ^ 31" using p(2,4) by (auto simp: prime_int_def NUM_ROW_FACTOR_def INT_MAX_def)
  have f: "ht_key_len ht = key_len" "ht_value_len ht = v_len" "ht_max_size ht = max_size" "hash_list ht = replicate (num_list ht) None"
    "slots ht = map (pool_entry max_size key_len v_len) [0..<max_size]" "ghead ht = Some 0" "gtail ht = Some (max_size - 1)"
    "free_entry ht = Some 0" "cur_num_entry ht = 0"
    using assms(1) p(1) by (auto simp: hashtable_init_def Let_def split: if_splits prod.splits)
  have "entry_ok ht i" if "i < max_size" for i
    using that by (simp add: entry_ok_def f pool_entry_def Let_def)
  then show ?thesis unfolding ht_inv_def using n assms(2,3) p(3) by (simp add: f)
qed

section \<open>What the table promises\<close>

lemma find_map_gen:
  assumes "ht_ok ht" "ht_key_len ht \<le> length t"
  shows "case ht_map ht t of
      Some x \<Rightarrow> hashtable_find ht t is_create = Some (Inr (ht, Some x))
    | None \<Rightarrow>
        if \<not> is_create then hashtable_find ht t is_create = Some (Inr (ht, None))
        else if cur_num_entry ht = ht_max_size ht then hashtable_find ht t is_create = Some (Inl ExitError)
        else \<exists>ht'. hashtable_find ht t is_create = Some (Inr (ht', Some (cur_num_entry ht))) \<and> ht_ok ht' \<and>
          cur_num_entry ht' = cur_num_entry ht + 1 \<and> ht_key_len ht' = ht_key_len ht \<and> ht_max_size ht' = ht_max_size ht \<and>
          take (ht_value_len ht) (hvalue (slots ht' ! cur_num_entry ht)) = replicate (ht_value_len ht) 0 \<and>
          (\<forall>k. ht_map ht' k = (if take (ht_key_len ht) k = take (ht_key_len ht) t then Some (cur_num_entry ht)
                               else ht_map ht k)) \<and>
          (\<forall>x < cur_num_entry ht. hkey (slots ht' ! x) = hkey (slots ht ! x) \<and> hvalue (slots ht' ! x) = hvalue (slots ht ! x))"
proof -
  obtain rows where i: "ht_inv ht rows" using assms(1) by (auto simp: ht_ok_def)
  note inv = ht_invD [OF i] and fe = find_entry_map [OF i, of t]
  have k: "\<not> (13 < ht_key_len ht \<or> length t < ht_key_len ht)" using inv(5) assms(2) by simp
  show ?thesis
  proof (cases "ht_map ht t")
    case (Some x)
    then show ?thesis using fe k by (simp add: hashtable_find_def)
  next
    case None
    consider "\<not> is_create" | "is_create" "cur_num_entry ht = ht_max_size ht" | "is_create" "cur_num_entry ht < ht_max_size ht"
      using inv(9) by fastforce
    then show ?thesis
    proof cases
      case 1
      then show ?thesis using None fe k by (simp add: hashtable_find_def)
    next
      case 2
      then show ?thesis using None fe k inv(12) by (simp add: hashtable_find_def as_get_free_node_def)
    next
      case 3
      from insert_shape [OF i None 3(2) assms(2)] obtain ht' where
        h: "hashtable_find ht t True = Some (Inr (ht', Some (cur_num_entry ht)))" and ins: "inserted ht t ht'" by blast
      note c = inserted_sel [OF ins]
      have "entry_ok ht (cur_num_entry ht)" by (rule inv(13) [OF 3(2)])
      then have z: "take (ht_value_len ht) (hvalue (slots ht' ! cur_num_entry ht)) = replicate (ht_value_len ht) 0"
        using ins by (simp add: inserted_def new_entry_def Let_def hashtable_init_fcn_def entry_ok_def)
      have o: "hkey (slots ht' ! x) = hkey (slots ht ! x) \<and> hvalue (slots ht' ! x) = hvalue (slots ht ! x)"
        if "x < cur_num_entry ht" for x using ins that by (simp add: inserted_def Let_def)
      have "ht_ok ht'" using insert_inv(1) [OF i None 3(2) assms(2) ins] by (auto simp: ht_ok_def)
      then show ?thesis using None 3 h z c(2,4,5) o insert_inv(2) [OF i None 3(2) assms(2) ins] by simp
    qed
  qed
qed

text \<open>C20: the chained table is a map. On a well-formed table a search, which walks the linked list of
  one row, returns the entry the map has for the key and changes nothing; a search that may create
  hands out the next entry of the pool for a new key, cleared, and leaves every other key where it
  was; it ends the process exactly when the pool is used up; and the table stays well-formed.\<close>

theorem hashtable_find_map:
  assumes "ht_ok ht" "ht_key_len ht \<le> length t"
  shows "case ht_map ht t of
      Some x \<Rightarrow> hashtable_find ht t is_create = Some (Inr (ht, Some x))
    | None \<Rightarrow>
        if \<not> is_create then hashtable_find ht t is_create = Some (Inr (ht, None))
        else if cur_num_entry ht = ht_max_size ht then hashtable_find ht t is_create = Some (Inl ExitError)
        else \<exists>ht'. hashtable_find ht t is_create = Some (Inr (ht', Some (cur_num_entry ht))) \<and> ht_ok ht' \<and>
          cur_num_entry ht' = cur_num_entry ht + 1 \<and> ht_key_len ht' = ht_key_len ht \<and> ht_max_size ht' = ht_max_size ht \<and>
          take (ht_value_len ht) (hvalue (slots ht' ! cur_num_entry ht)) = replicate (ht_value_len ht) 0 \<and>
          (\<forall>k. ht_map ht' k = (if take (ht_key_len ht) k = take (ht_key_len ht) t then Some (cur_num_entry ht)
                               else ht_map ht k)) \<and>
          (\<forall>x < cur_num_entry ht. hkey (slots ht' ! x) = hkey (slots ht ! x) \<and> hvalue (slots ht' ! x) = hvalue (slots ht ! x))"
  by (rule find_map_gen [OF assms])

lemma cleared_fields:
  assumes "entry_ok ht x"
  shows "belong (cleared (slots ht ! x)) = - 1 \<and> prev (cleared (slots ht ! x)) = None \<and> nxt (cleared (slots ht ! x)) = None \<and>
    hkey (cleared (slots ht ! x)) = replicate (ht_key_len ht) 0 @ drop (ht_key_len ht) (hkey (slots ht ! x)) \<and>
    hvalue (cleared (slots ht ! x)) = replicate (ht_value_len ht) 0 @ drop (ht_value_len ht) (hvalue (slots ht ! x)) \<and>
    gprev (cleared (slots ht ! x)) = gprev (slots ht ! x) \<and> gnext (cleared (slots ht ! x)) = gnext (slots ht ! x)"
  using assms by (simp add: entry_ok_def Let_def cleared_def hashtable_reset_fcn_def)

text \<open>C21: \<open>hashtable_get_all\<close> returns the entries in use, each once, the latest first, and never writes
  past its result. \<open>hashtable_reset\<close> returns; it clears exactly these entries (the bytes of key and value,
  the number of the row and both links along the row; the links of the pool stay) and leaves the free
  ones as they are, and the table is then empty, well-formed and of the same capacity.\<close>

theorem hashtable_get_all_reset:
  assumes "ht_ok ht"
  shows "hashtable_get_all ht = Some (Inr (map ((!) (slots ht)) (rev [0..<cur_num_entry ht]), cur_num_entry ht)) \<and>
    (\<exists>ht'. hashtable_reset ht = Some ht' \<and> ht_ok ht' \<and> (\<forall>k. ht_map ht' k = None) \<and>
       hashtable_get_all ht' = Some (Inr ([], 0)) \<and> ht_max_size ht' = ht_max_size ht \<and>
       (\<forall>x < ht_max_size ht. let e = slots ht ! x; e' = slots ht' ! x in
          if x < cur_num_entry ht
          then belong e' = - 1 \<and> prev e' = None \<and> nxt e' = None \<and> gprev e' = gprev e \<and> gnext e' = gnext e \<and>
            hkey e' = replicate (ht_key_len ht) 0 @ drop (ht_key_len ht) (hkey e) \<and>
            hvalue e' = replicate (ht_value_len ht) 0 @ drop (ht_value_len ht) (hvalue e)
          else e' = e))"
proof -
  have all: "hashtable_get_all t = Some (Inr (map ((!) (slots t)) (rev [0..<cur_num_entry t]), cur_num_entry t))"
    if "ht_inv t rows" for t rows
  proof -
    have "all_walk t (last_used t) [] = Some (Inr ([] @ map ((!) (slots t)) (rev [0..<cur_num_entry t])))"
      unfolding last_used_inv [OF that] by (rule all_walk_entries) (use ht_invD(9,13) [OF that] in auto)
    then show ?thesis by (simp add: hashtable_get_all_def)
  qed
  obtain rows where i: "ht_inv ht rows" using assms by (auto simp: ht_ok_def)
  from reset_inv [OF i] obtain ht' where r: "hashtable_reset ht = Some ht'" "ht_inv ht' (replicate (num_list ht) [])"
    "cur_num_entry ht' = 0" "ht_max_size ht' = ht_max_size ht"
    "\<forall>x < ht_max_size ht. slots ht' ! x = (if x < cur_num_entry ht then cleared (slots ht ! x) else slots ht ! x)" by blast
  have "\<forall>x < ht_max_size ht. entry_ok ht x" using ht_invD(13) [OF i] by blast
  then show ?thesis using r(1,4,5) all [OF i] all [OF r(2)] r(2,3) cleared_fields
    by (intro conjI exI [of _ ht']) (auto simp: ht_ok_def ht_map_def Let_def)
qed

section \<open>A concrete table\<close>

lemma demo_hashtable: "\<exists>ht g. hashtable_init 7 0 2 1 1 = Inr (ht, g) \<and> ht_ok ht \<and> ht_key_len ht = 1 \<and> ht_max_size ht = 2 \<and> cur_num_entry ht = 0"
proof -
  have "calc_next_prime 2 = Inr 2" by code_simp
  then have "\<exists>ht g. hashtable_init 7 0 2 1 1 = Inr (ht, g)"
    by (simp add: hashtable_init_def Let_def NUM_ROW_FACTOR_def INT_MAX_def split: prod.split)
  then obtain ht g where h: "hashtable_init 7 0 2 1 1 = Inr (ht, g)" by blast
  show ?thesis using h init_inv [OF h] by (auto simp: ht_ok_def)
qed

lemma hashtable_find_map_witness:
  "\<exists>ht ht1 ht2. ht_ok ht \<and> hashtable_find ht [5] True = Some (Inr (ht1, Some 0)) \<and>
    hashtable_find ht1 [6] True = Some (Inr (ht2, Some 1)) \<and> hashtable_find ht2 [5] True = Some (Inr (ht2, Some 0)) \<and>
    hashtable_find ht2 [7] True = Some (Inl ExitError)"
proof -
  obtain ht g where h: "ht_ok ht" "ht_key_len ht = 1" "ht_max_size ht = 2" "cur_num_entry ht = 0" using demo_hashtable by blast
  have e: "ht_map ht k = None" for k using h(4) by (simp add: ht_map_def)
  obtain ht1 where 1: "hashtable_find ht [5] True = Some (Inr (ht1, Some 0))" "ht_ok ht1" "cur_num_entry ht1 = 1" and
    l1: "ht_key_len ht1 = 1" "ht_max_size ht1 = 2" and
    m1: "\<And>k. ht_map ht1 k = (if take 1 k = [5] then Some 0 else None)"
    using hashtable_find_map [OF h(1), of "[5]" True] e h by auto
  obtain ht2 where 2: "hashtable_find ht1 [6] True = Some (Inr (ht2, Some 1))" "ht_ok ht2" "cur_num_entry ht2 = 2" and
    l2: "ht_key_len ht2 = 1" "ht_max_size ht2 = 2" and
    m2: "\<And>k. ht_map ht2 k = (if take 1 k = [6] then Some 1 else ht_map ht1 k)"
    using hashtable_find_map [OF 1(2), of "[6]" True] 1(3) m1 l1 by auto
  have "hashtable_find ht2 [5] True = Some (Inr (ht2, Some 0))" "hashtable_find ht2 [7] True = Some (Inl ExitError)"
    using hashtable_find_map [OF 2(2), of "[5]" True] hashtable_find_map [OF 2(2), of "[7]" True] m1 m2 2(3) l2 by auto
  then show ?thesis using h(1) 1(1) 2(1) by blast
qed

lemma hashtable_get_all_reset_witness:
  "\<exists>ht ht1 ht2. hashtable_find ht [5] True = Some (Inr (ht1, Some 0)) \<and>
    hashtable_get_all ht1 = Some (Inr ([slots ht1 ! 0], 1)) \<and> hashtable_reset ht1 = Some ht2 \<and> ht_map ht2 [5] = None"
proof -
  obtain ht g where h: "ht_ok ht" "ht_key_len ht = 1" "ht_max_size ht = 2" "cur_num_entry ht = 0" using demo_hashtable by blast
  have e: "ht_map ht k = None" for k using h(4) by (simp add: ht_map_def)
  obtain ht1 where 1: "hashtable_find ht [5] True = Some (Inr (ht1, Some 0))" "ht_ok ht1" "cur_num_entry ht1 = 1"
    using find_map_gen [OF h(1), of "[5]" True] e h by auto
  then show ?thesis using hashtable_get_all_reset [OF 1(2)] by fastforce
qed

end
