(* ===== verification/Dp_Ovs.thy ===== *)
theory Dp_Ovs
  imports Dp_Simulate
begin

text \<open>
  \<^verbatim>\<open>dp_ovs.c\<close>: the data plane behind Open vSwitch. The main
  thread takes records from the ring buffer of the kernel and deals them out to the workers in turn;
  its loop has no exit. \<open>ovs_step\<close> is the body of the loop for one record, \<open>ovs_handler\<close> that of a
  worker. \<^theory_text>\<open>Ovs_System\<close> puts the threads together.
\<close>

section \<open>The worker\<close>

text \<open>
  The worker is that of \<open>dp_simulate\<close> with \<open>SKL_Update_Fast\<close>; at the end of an interval it writes
  to another directory than at the end of the program.
\<close>

definition ovs_path :: "dp_env \<Rightarrow> u64 \<Rightarrow> string res" where
  "ovs_path env i =
     rbind (str_arg (env_dir env)) (\<lambda>d.
       sprintf_100 (parse_fmt ''%s/sketches_ovs/%s_%llu'') [d, StrArg (env_alg env), IntArg (uint i)])"

definition ovs_output :: "dp_env \<Rightarrow> (dp_env \<Rightarrow> u64 \<Rightarrow> string res) \<Rightarrow> dp_state \<Rightarrow> dp_state res" where
  "ovs_output env path_of w =
     (if env_output env then
        rbind (SKL_CompleteZeroes (dp_skl w)) (\<lambda>skl.
        rbind (path_of env (dp_interval w)) (\<lambda>path.
          if env_writable env path
          then Inr (w\<lparr>dp_skl := skl, dp_files := dp_files w @ [(path, SKL_Print skl)]\<rparr>)
          else Inl OutOfBounds))
      else Inr w)"

definition ovs_handler :: "dp_env \<Rightarrow> dp_state \<Rightarrow> tuple_t \<Rightarrow> dp_state outcome" where
  "ovs_handler env w t =
     (if flag t = TUPLE_TERM then
        (case ovs_output env dp_path w of Inl e \<Rightarrow> Crash e | Inr w' \<Rightarrow> Stop w')
      else if flag t = TUPLE_PUNC then
        (case ovs_output env ovs_path w of Inl e \<Rightarrow> Crash e
         | Inr w' \<Rightarrow> Go (w'\<lparr>dp_interval := dp_interval w' + 1, dp_tot := 0,
                            dp_skl := SKL_Reset (dp_skl w')\<rparr>) 1)
      else Go (w\<lparr>dp_skl := SKL_Update_Fast (dp_skl w) (key_bytes (tkey t)) (tsize t),
                dp_cnt := dp_cnt w + 1, dp_tot := dp_tot w + scast (tsize t)\<rparr>) 0)"

section \<open>The main thread\<close>

text \<open>An action concerns the ring, or the semaphore, of one worker.\<close>

datatype ovs_act = OWrite nat tuple_t | OFlush nat | OWait nat

record ovs_main =
  o_cnt :: u64
  o_byte :: u64
  o_last :: u64
  o_index :: nat

definition ovs_init :: ovs_main where
  "ovs_init = \<lparr>o_cnt = 0, o_byte = 0, o_last = 0, o_index = 0\<rparr>"

definition ovs_punc :: "nat \<Rightarrow> ovs_act list" where
  "ovs_punc n =
     concat (map (\<lambda>i. [OWrite i (zero_tuple\<lparr>flag := TUPLE_PUNC\<rparr>), OFlush i, OWait i]) [0..<n])"

text \<open>One record: an interval is a number of records here, \<open>interval_cnt / interval_len\<close>.\<close>

definition ovs_step :: "u64 \<Rightarrow> nat \<Rightarrow> ovs_main \<Rightarrow> tuple_t \<Rightarrow> (ovs_act list \<times> ovs_main) res" where
  "ovs_step interval_len n st t =
     (if interval_len = 0 \<or> n \<le> o_index st then Inl OutOfBounds
      else
        let cur = o_cnt st div interval_len;
            (acts, st1) =
              (if o_last st = 0 then ([], st\<lparr>o_last := cur\<rparr>)
               else if o_last st < cur then (ovs_punc n, st\<lparr>o_cnt := 0, o_byte := 0, o_last := cur\<rparr>)
               else ([], st))
        in Inr (acts @ [OWrite (o_index st1) t],
                st1\<lparr>o_cnt := o_cnt st1 + 1, o_byte := o_byte st1 + scast (tsize t),
                    o_index := (o_index st1 + 1) mod n\<rparr>))"

text \<open>The actions for each record of a finite stretch of the endless loop.\<close>

fun ovs_loop :: "u64 \<Rightarrow> nat \<Rightarrow> ovs_main \<Rightarrow> tuple_t list \<Rightarrow> (ovs_act list list \<times> ovs_main) res" where
  "ovs_loop interval_len n st [] = Inr ([], st)"
| "ovs_loop interval_len n st (t # ts) =
     rbind (ovs_step interval_len n st t) (\<lambda>(as, st1).
     rbind (ovs_loop interval_len n st1 ts) (\<lambda>(ass, st2). Inr (as # ass, st2)))"

section \<open>The program\<close>

text \<open>
  The start of the workers, one after the other: each pins itself and makes its sketch, whose hash
  functions come from the common seed. A negative number of threads allocates an undefined size.
\<close>

definition start_workers ::
    "'d iniparser \<Rightarrow> 'd conf_t \<Rightarrow> u64 \<Rightarrow> bool \<Rightarrow> nat \<Rightarrow> (dp_state list \<times> u64) res" where
  "start_workers ini conf rand is_pin n =
     for_res n (\<lambda>i (ws, glob).
       rbind (sketch_of_conf ini conf rand glob) (\<lambda>(skl, glob').
       rbind (pin_if is_pin (int i)) (\<lambda>cpu.
         Inr (ws @ [dp_init skl], glob')))) ([], 0)"

definition dp_ovs ::
    "'d iniparser \<Rightarrow> (string \<Rightarrow> bool) \<Rightarrow> u64 \<Rightarrow> string list \<Rightarrow>
     (dp_env \<times> dp_state list \<times> u64 \<times> ovs_main) res" where
  "dp_ovs ini writable rand argv =
     (if length argv \<noteq> 3 then Inl ExitError
      else
        rbind (Config_Init ini (Some (argv ! 1))) (\<lambda>conf.
        rbind (atoi (argv ! 2)) (\<lambda>num_thread.
        rbind (conf_common_trace_dir ini conf) (\<lambda>dir.
        rbind (str_arg dir) (\<lambda>d. rbind (sprintf_100 (parse_fmt ''%s/sketches_ovs'') [d]) (\<lambda>tmp.
        rbind (conf_common_is_output ini conf) (\<lambda>is_output.
        rbind (conf_common_is_pin_cpu ini conf) (\<lambda>is_pin.
        rbind (pin_if (is_pin \<noteq> 0) (sint num_thread)) (\<lambda>cpu.
          if sint num_thread < 0 then Inl OutOfBounds
          else
            rbind (start_workers ini conf rand (is_pin \<noteq> 0) (nat (sint num_thread))) (\<lambda>(ws, glob).
            rbind (conf_common_interval_len ini conf) (\<lambda>interval_len.
              Inr (\<lparr>env_dir = dir, env_alg = ''sketchlearn'', env_output = (is_output \<noteq> 0), env_writable = writable\<rparr>,
                   ws, interval_len, ovs_init))))))))))))"

section \<open>The worker records nothing\<close>

definition ovs_mid :: "skl_t \<Rightarrow> nat \<Rightarrow> tuple_t list \<Rightarrow> (string \<times> string) list \<Rightarrow> dp_state \<Rightarrow> bool" where
  "ovs_mid s i g fs w \<longleftrightarrow> fresh_sketch s \<and> depth s * width s \<noteq> 1 \<and> (\<exists>m d. length m = 104 \<and> length d = 104 \<and> dp_skl w = with_stats m d s) \<and>
     dp_interval w = of_nat i \<and> dp_files w = fs"

definition ovs_fits :: "dp_env \<Rightarrow> nat \<Rightarrow> tuple_t list \<Rightarrow> bool" where
  "ovs_fits env i g \<longleftrightarrow> env_output env \<and>
     (\<exists>path. ovs_path env (of_nat i) = Inr path \<and> env_writable env path) \<and>
     (\<exists>path. dp_path env (of_nat i) = Inr path \<and> env_writable env path)"

definition ovs_file :: "dp_env \<Rightarrow> skl_t \<Rightarrow> nat \<Rightarrow> tuple_t list \<Rightarrow> string \<times> string \<Rightarrow> bool" where
  "ovs_file env s i g f \<longleftrightarrow> Inr (fst f) \<in> {ovs_path env (of_nat i), dp_path env (of_nat i)} \<and>
     snd f = SKL_Print (group_sketch s [])"

lemma ovs_mid_output:
  assumes "ovs_mid s i g fs w" "env_output env"
    "path_of env (of_nat i) = Inr path" "env_writable env path"
  shows "\<exists>m d w'. ovs_output env path_of w = Inr w' \<and> length m = 104 \<and> length d = 104 \<and>
    dp_skl w' = with_stats m d (group_sketch s []) \<and> dp_interval w' = of_nat i \<and>
    dp_files w' = fs @ [(path, SKL_Print (group_sketch s []))]"
proof -
  from assms(1) obtain m d where w: "length m = 104" "length d = 104" "dp_skl w = with_stats m d s"
    "fresh_sketch s" "depth s * width s \<noteq> 1" "dp_interval w = of_nat i" "dp_files w = fs" unfolding ovs_mid_def by blast
  have "run_sketch SKL_Update (key_stream []) s = s" by (simp add: key_stream_def)
  with complete_group [OF fresh_sketch_ok [OF w(4)] w(1,2,5), of "[]"] obtain m' d' where
    c: "SKL_CompleteZeroes (dp_skl w) = Inr (with_stats m' d' (group_sketch s []))" "length m' = 104" "length d' = 104"
    unfolding w(3) by auto
  then show ?thesis using assms(2-4) w(6,7) by (simp add: ovs_output_def) blast
qed

interpretation ovs: interval_worker "ovs_handler env" for env
proof
  fix w :: dp_state and t :: tuple_t
  show "(\<exists>w'. ovs_handler env w t = Stop w') \<or> (\<exists>e. ovs_handler env w t = Crash e)" if "flag t = TUPLE_TERM"
    using that by (simp add: ovs_handler_def split: sum.split)
  show "(\<exists>w'. ovs_handler env w t = Go w' 1) \<or> (\<exists>e. ovs_handler env w t = Crash e)" if "flag t = TUPLE_PUNC"
    using that by (simp add: ovs_handler_def TUPLE_TERM_def TUPLE_PUNC_def split: sum.split)
  show "\<exists>w'. ovs_handler env w t = Go w' 0 \<or> (\<exists>e. ovs_handler env w t = Crash e)" if "flag t = TUPLE_NORMAL"
    using that by (simp add: ovs_handler_def TUPLE_TERM_def TUPLE_PUNC_def TUPLE_NORMAL_def)
qed

text \<open>A record, and a record that ends an interval.\<close>

lemma ovs_mid_record:
  assumes "ovs_mid s i g fs w" "flag t = TUPLE_NORMAL"
  shows "\<exists>w'. ovs_handler env w t = Go w' 0 \<and> ovs_mid s i g' fs w'"
  using assms by (simp add: ovs_handler_def TUPLE_TERM_def TUPLE_PUNC_def TUPLE_NORMAL_def ovs_mid_def
      SKL_Update_Fast_nothing)

lemma ovs_mid_punc:
  assumes "ovs_mid s i g fs w" "flag t = TUPLE_PUNC" "env_output env"
    and p: "ovs_path env (of_nat i) = Inr path" "env_writable env path"
  shows "\<exists>w'. ovs_handler env w t = Go w' 1 \<and> ovs_mid s (Suc i) g' (fs @ [(path, SKL_Print (group_sketch s []))]) w'"
proof -
  from ovs_mid_output [OF assms(1,3), of ovs_path] p obtain m' d w' where w': "ovs_output env ovs_path w = Inr w'"
    "length m' = 104" "length d = 104" "dp_skl w' = with_stats m' d (group_sketch s [])" "dp_interval w' = of_nat i"
    "dp_files w' = fs @ [(path, SKL_Print (group_sketch s []))]" by blast
  have s: "fresh_sketch s" "depth s * width s \<noteq> 1" using assms(1) by (simp_all add: ovs_mid_def)
  have "SKL_Reset (dp_skl w') = with_stats m' d s"
    unfolding w'(4) by (rule reset_group [OF s(1) group_sketch_ok [OF fresh_sketch_ok [OF s(1)]] w'(2,3)])
  then have "ovs_mid s (Suc i) g' (fs @ [(path, SKL_Print (group_sketch s []))])
      (w'\<lparr>dp_interval := dp_interval w' + 1, dp_tot := 0, dp_skl := SKL_Reset (dp_skl w')\<rparr>)"
    using s w' by (auto simp: ovs_mid_def)
  then show ?thesis using assms(2) w'(1) by (simp add: ovs_handler_def TUPLE_TERM_def TUPLE_PUNC_def)
qed

lemma ovs_mid_init:
  assumes "fresh_sketch s" "depth s * width s \<noteq> 1"
  shows "ovs_mid s 0 g [] (dp_init s)"
proof -
  have "s = with_stats (bit_mean s) (bit_std s) s" "length (bit_mean s) = 104" "length (bit_std s) = 104"
    using fresh_sketch_ok [OF assms(1)] by (auto simp: with_stats_def skl_ok_def)
  then have "\<exists>m d. length m = 104 \<and> length d = 104 \<and> s = with_stats m d s" by blast
  then show ?thesis using assms by (simp add: ovs_mid_def dp_init_def)
qed

interpretation ovs_groups: group_worker "ovs_handler env" "ovs_mid s" "ovs_fits env" "ovs_file env s" dp_files for env s
proof
  fix i g h fs w t
  show "ovs_fits env i g" if "ovs_fits env i (g @ h)" using that by (simp add: ovs_fits_def)
  assume m: "ovs_mid s i g fs w"
  show "\<exists>w'. ovs_handler env w t = Go w' 0 \<and> ovs_mid s i (g @ [t]) fs w'"
    if "ovs_fits env i (g @ [t])" "flag t = TUPLE_NORMAL" using ovs_mid_record [OF m that(2)] .
  assume o: "ovs_fits env i g"
  show "\<exists>w' f. ovs_handler env w t = Stop w' \<and> ovs_file env s i g f \<and> dp_files w' = fs @ [f]" if "flag t = TUPLE_TERM"
  proof -
    obtain path where p: "dp_path env (of_nat i) = Inr path" "env_writable env path" "env_output env"
      using o by (auto simp: ovs_fits_def)
    from ovs_mid_output [OF m p(3), of dp_path] p(1,2) obtain w' where "ovs_output env dp_path w = Inr w'"
      "dp_files w' = fs @ [(path, SKL_Print (group_sketch s []))]" by blast
    then show ?thesis using that p(1)
      by (intro exI [of _ w'] exI [of _ "(path, SKL_Print (group_sketch s []))"]) (simp add: ovs_handler_def ovs_file_def)
  qed
  show "\<exists>w' f. ovs_handler env w t = Go w' 1 \<and> ovs_file env s i g f \<and> ovs_mid s (Suc i) [] (fs @ [f]) w'"
    if t: "flag t = TUPLE_PUNC"
  proof -
    obtain path where p: "ovs_path env (of_nat i) = Inr path" "env_writable env path" "env_output env"
      using o by (auto simp: ovs_fits_def)
    from ovs_mid_punc [OF m t p(3,1,2)] show ?thesis using p(1) by (fastforce simp: ovs_file_def)
  qed
qed

text \<open>Behind Open vSwitch nothing is measured. Whatever records a worker is given, in however many
  intervals, each file it writes is the completed sketch of no records at all: the vectorised update
  does not change a counter.\<close>

theorem ovs_writes_empty:
  assumes "fresh_sketch s" "depth s * width s \<noteq> 1" "\<forall>k < Suc (length pgs). ovs_fits env k ((g0 # map snd pgs) ! k)"
    and "\<forall>t \<in> set g0. flag t = TUPLE_NORMAL"
    and "\<forall>(p, g) \<in> set pgs. flag p = TUPLE_PUNC \<and> (\<forall>t \<in> set g. flag t = TUPLE_NORMAL)" "flag x = TUPLE_TERM"
  shows "\<exists>w. fst (run_worker (ovs_handler env) (Running (dp_init s)) (records g0 pgs @ [x])) = Finished w \<and>
    length (dp_files w) = Suc (length pgs) \<and> (\<forall>f \<in> set (dp_files w). snd f = SKL_Print (group_sketch s []))"
proof -
  have m: "ovs_mid s 0 [] [] (dp_init s)" by (rule ovs_mid_init [OF assms(1,2)])
  have "\<forall>k < Suc (length pgs). ovs_fits env (0 + k) ((g0 # map snd pgs) ! k)" using assms(3) by simp
  from ovs_groups.groups_written [OF m this assms(4-6)] obtain w hs where
    "fst (run_worker (ovs_handler env) (Running (dp_init s)) (records g0 pgs @ [x])) = Finished w" "dp_files w = hs"
    "length hs = Suc (length pgs)" "\<forall>k < Suc (length pgs). ovs_file env s k ((g0 # map snd pgs) ! k) (hs ! k)" by auto
  then show ?thesis by (intro exI [of _ w]) (force simp: in_set_conv_nth ovs_file_def)
qed

lemma ovs_writes_empty_witness:
  "\<exists>w. fst (run_worker (ovs_handler demo_env) (Running (dp_init demo_sketch))
      (records [zero_tuple\<lparr>tsize := 5\<rparr>] [(zero_tuple\<lparr>flag := TUPLE_PUNC\<rparr>, [zero_tuple])] @ [zero_tuple\<lparr>flag := TUPLE_TERM\<rparr>])) =
      Finished w \<and> length (dp_files w) = Suc 1 \<and> (\<forall>f \<in> set (dp_files w). snd f = SKL_Print (group_sketch demo_sketch []))"
proof -
  have "ovs_path demo_env 0 = Inr ''d/sketches_ovs/sketchlearn_0''" "dp_path demo_env 0 = Inr ''d/sketches/sketchlearn_0''"
    "ovs_path demo_env 1 = Inr ''d/sketches_ovs/sketchlearn_1''" "dp_path demo_env 1 = Inr ''d/sketches/sketchlearn_1''"
    by code_simp+
  then have "ovs_fits demo_env 0 g" "ovs_fits demo_env 1 g" for g by (simp_all add: ovs_fits_def demo_env_def)
  then have f: "\<forall>k < Suc (length [(zero_tuple\<lparr>flag := TUPLE_PUNC\<rparr>, [zero_tuple])]).
      ovs_fits demo_env k (([zero_tuple\<lparr>tsize := 5\<rparr>] # map snd [(zero_tuple\<lparr>flag := TUPLE_PUNC\<rparr>, [zero_tuple])]) ! k)"
    by (auto simp: less_Suc_eq)
  have "depth demo_sketch * width demo_sketch \<noteq> 1" by (simp add: demo_sketch_def)
  note e = ovs_writes_empty [OF demo_sketch_fresh this f, of "zero_tuple\<lparr>flag := TUPLE_TERM\<rparr>"]
  have "flag zero_tuple = TUPLE_NORMAL" by (simp add: zero_tuple_def TUPLE_NORMAL_def)
  then show ?thesis using e by (simp del: run_worker.simps records.simps append.simps)
qed

section \<open>The intervals of the main thread\<close>

text \<open>
  The number of records before the \<open>k\<close>-th end of an interval, \<open>k = 1, 2, \<dots>\<close>, in units of the
  interval length: 2, 5, 9, ...
\<close>

definition ovs_end :: "nat \<Rightarrow> nat" where
  "ovs_end k = k * (k + 3) div 2"

lemma ovs_end_Suc: "ovs_end (Suc k) = ovs_end k + k + 2"
proof -
  have "Suc k * (Suc k + 3) = k * (k + 3) + 2 * (k + 2)" by (simp add: algebra_simps)
  then show ?thesis by (simp add: ovs_end_def)
qed

lemma ovs_end_simps [simp]: "ovs_end 0 = 0" "ovs_end 1 = 2" "ovs_end (Suc 0) = 2"
  by (simp_all add: ovs_end_def)

lemma ovs_end_mono: "i \<le> j \<Longrightarrow> ovs_end i \<le> ovs_end j"
  by (induction j) (auto simp: ovs_end_Suc le_Suc_eq)

text \<open>The state of the main thread after \<open>i\<close> records, when \<open>k\<close> intervals have ended.\<close>

definition ovs_at :: "nat \<Rightarrow> nat \<Rightarrow> nat \<Rightarrow> nat \<Rightarrow> ovs_main \<Rightarrow> bool" where
  "ovs_at len n i k st \<longleftrightarrow> o_index st = i mod n \<and> ovs_end k * len \<le> i \<and> unat (o_cnt st) = i - ovs_end k * len \<and>
     i \<le> ovs_end (Suc k) * len \<and> (if k = 0 then o_last st = (if i \<le> len then 0 else 1)
       else ovs_end k * len < i \<and> unat (o_last st) = k + 1)"

lemma ovs_at_facts:
  assumes "ovs_at (unat len) n i k st" "0 < len" "0 < n" "i + 1 < 2 ^ 64"
    and l_def: "l = unat len" and c_def: "c = i - ovs_end k * l"
  shows "0 < l" "o_index st = i mod n" "ovs_end k * l \<le> i" "unat (o_cnt st) = c" "i \<le> ovs_end (Suc k) * l"
    "(i mod n + 1) mod n = (i + 1) mod n" "unat (o_cnt st div len) = c div l" "c \<le> (k + 2) * l"
    "i = ovs_end (Suc k) * l \<longleftrightarrow> c = (k + 2) * l" "unat (o_cnt st + 1) = c + 1" "\<not> (len = 0 \<or> n \<le> o_index st)"
proof -
  show "0 < l" using assms(2) by (simp add: l_def word_less_nat_alt unat_gt_0)
  show s: "o_index st = i mod n" "ovs_end k * l \<le> i" "unat (o_cnt st) = c" "i \<le> ovs_end (Suc k) * l"
    using assms(1) by (simp_all add: ovs_at_def l_def c_def)
  show "(i mod n + 1) mod n = (i + 1) mod n" by (rule mod_add_left_eq)
  show "unat (o_cnt st div len) = c div l" using s(3) by (simp add: unat_div l_def)
  show "c \<le> (k + 2) * l" using s(2,4) by (simp add: c_def ovs_end_Suc algebra_simps)
  show "i = ovs_end (Suc k) * l \<longleftrightarrow> c = (k + 2) * l" using s(2) by (auto simp: c_def ovs_end_Suc algebra_simps)
  show "unat (o_cnt st + 1) = c + 1" using assms(4) s(3) by (simp add: unat_plus_if' c_def)
  have "i mod n < n" using assms(3) by simp
  then show "\<not> (len = 0 \<or> n \<le> o_index st)" using assms(2) s(1) by auto
qed

lemma ovs_step_first:
  assumes "ovs_at (unat len) n i k st" "0 < len" "0 < n" "i + 1 < 2 ^ 64"
    and k: "k = 0"
  shows "\<exists>st'. ovs_step len n st t =
      Inr ((if i = ovs_end (Suc k) * unat len then ovs_punc n else []) @ [OWrite (i mod n) t], st') \<and>
    ovs_at (unat len) n (i + 1) (if i = ovs_end (Suc k) * unat len then Suc k else k) st'"
proof -
  define l where "l = unat len"
  define c where "c = i - ovs_end k * l"
  note facts = ovs_at_facts [OF assms(1-4) l_def c_def]
  note l = facts(1) and s = facts(2-5) and ix = facts(6) and cur = facts(7) and c = facts(8) and end_iff = facts(9)
    and one = facts(10) and index = facts(11)
  have o: "c = i" "o_last st = (if i \<le> l then 0 else 1)" "i \<le> 2 * l"
    using assms(1) k by (simp_all add: ovs_at_def c_def l_def)
  consider "i \<le> l" | "l < i" "i < 2 * l" | "i = 2 * l" using o(3) by linarith
  then show ?thesis
  proof cases
    case 1
    have e: "i \<noteq> 2 * l" "i + 1 \<le> 2 * l" using 1 l by auto
    have "o_cnt st div len = (if i < l then 0 else 1)"
      using cur o(1) 1 l by (auto simp: word_unat_eq_iff div_eq_0_iff)
    then show ?thesis using k 1 o index s(1,3) e one ix
      by (auto simp: ovs_step_def Let_def ovs_at_def l_def [symmetric])
  next
    case 2
    have "c div l = 1" using 2 o(1) by (intro div_nat_eqI) auto
    then have "o_cnt st div len = 1" using cur by (simp add: word_unat_eq_iff)
    then show ?thesis using k 2 o index s(1,3) one ix
      by (simp add: ovs_step_def Let_def ovs_at_def l_def [symmetric])
  next
    case 3
    have "c div l = 2" using 3 o(1) l by simp
    then have "unat (o_cnt st div len) = 2" using cur by simp
    moreover then have "1 < o_cnt st div len" by (simp add: word_less_nat_alt)
    ultimately show ?thesis using k 3 o index s(1,3) ix l
      by (simp add: ovs_step_def Let_def ovs_at_def l_def [symmetric] ovs_end_Suc)
  qed
qed

lemma ovs_step_later:
  assumes "ovs_at (unat len) n i k st" "0 < len" "0 < n" "i + 1 < 2 ^ 64"
    and k: "0 < k"
  shows "\<exists>st'. ovs_step len n st t =
      Inr ((if i = ovs_end (Suc k) * unat len then ovs_punc n else []) @ [OWrite (i mod n) t], st') \<and>
    ovs_at (unat len) n (i + 1) (if i = ovs_end (Suc k) * unat len then Suc k else k) st'"
proof -
  define l where "l = unat len"
  define c where "c = i - ovs_end k * l"
  note facts = ovs_at_facts [OF assms(1-4) l_def c_def]
  note l = facts(1) and s = facts(2-5) and ix = facts(6) and cur = facts(7) and c = facts(8) and end_iff = facts(9)
    and one = facts(10) and index = facts(11)
  have o: "0 < c" "unat (o_last st) = k + 1" using assms(1) k by (simp_all add: ovs_at_def c_def l_def)
  have nz: "o_last st \<noteq> 0" using o(2) by auto
  have less: "o_last st < o_cnt st div len \<longleftrightarrow> k + 1 < c div l" using cur o(2) by (simp add: word_less_nat_alt)
  show ?thesis
  proof (cases "c = (k + 2) * l")
    case True
    then have "c div l = k + 2" using l by simp
    then have cond: "o_last st < o_cnt st div len" "unat (o_cnt st div len) = k + 2" using less cur by simp_all
    have e: "i = ovs_end (Suc k) * l" using end_iff True by simp
    have "i + 1 \<le> ovs_end (Suc (Suc k)) * l" using e l by (simp add: ovs_end_Suc [of "Suc k"] algebra_simps)
    then show ?thesis using cond k nz index s(1) ix e
      by (simp add: ovs_step_def Let_def ovs_at_def l_def [symmetric])
  next
    case c2: False
    then have "c < (k + 2) * l" using c by simp
    then have "c div l < k + 2" using l by (simp add: div_less_iff_less_mult)
    then have "\<not> o_last st < o_cnt st div len" using less by simp
    moreover have "i + 1 \<le> ovs_end (Suc k) * l" using c2 end_iff s(4) by simp
    ultimately show ?thesis using k c2 nz index s(1-3) ix end_iff one o
      by (simp add: ovs_step_def Let_def ovs_at_def l_def [symmetric] c_def)
  qed
qed

lemma ovs_step_at:
  assumes "ovs_at (unat len) n i k st" "0 < len" "0 < n" "i + 1 < 2 ^ 64"
  shows "\<exists>st'. ovs_step len n st t =
      Inr ((if i = ovs_end (Suc k) * unat len then ovs_punc n else []) @ [OWrite (i mod n) t], st') \<and>
    ovs_at (unat len) n (i + 1) (if i = ovs_end (Suc k) * unat len then Suc k else k) st'"
  using ovs_step_first [OF assms] ovs_step_later [OF assms] by (cases "k = 0") simp_all

text \<open>The actions of the main thread for the \<open>i\<close>-th record.\<close>

definition ovs_acts :: "nat \<Rightarrow> nat \<Rightarrow> nat \<Rightarrow> tuple_t \<Rightarrow> ovs_act list" where
  "ovs_acts len n i t = (if \<exists>k \<le> i. i = ovs_end (Suc k) * len then ovs_punc n else []) @ [OWrite (i mod n) t]"

lemma ovs_at_end_unique:
  assumes "ovs_at len n i k st" "0 < len"
  shows "(\<exists>j \<le> i. i = ovs_end (Suc j) * len) \<longleftrightarrow> i = ovs_end (Suc k) * len"
proof
  assume "\<exists>j \<le> i. i = ovs_end (Suc j) * len"
  then obtain j where j: "i = ovs_end (Suc j) * len" by blast
  have "j = k"
  proof (rule ccontr)
    assume "j \<noteq> k"
    then consider "Suc j \<le> k" | "Suc (Suc k) \<le> Suc j" by linarith
    then show False
    proof cases
      case 1
      then have "i \<le> ovs_end k * len" using ovs_end_mono [of "Suc j" k] j by simp
      then show False using assms(1) 1 by (simp add: ovs_at_def)
    next
      case 2
      have "ovs_end (Suc k) < ovs_end (Suc j)"
        using ovs_end_mono [OF 2] by (simp add: ovs_end_Suc [of "Suc k"])
      then have "ovs_end (Suc k) * len < i" using j assms(2) by simp
      then show False using assms(1) by (simp add: ovs_at_def)
    qed
  qed
  then show "i = ovs_end (Suc k) * len" using j by simp
next
  assume i: "i = ovs_end (Suc k) * len"
  have "k \<le> ovs_end (Suc k)" by (simp add: ovs_end_Suc)
  also have "\<dots> \<le> i" using i assms(2) by simp
  finally show "\<exists>j \<le> i. i = ovs_end (Suc j) * len" using i by blast
qed

lemma ovs_loop_at:
  assumes "ovs_at (unat len) n i k st" "0 < len" "0 < n" "i + length ts < 2 ^ 64"
  shows "\<exists>st'. ovs_loop len n st ts = Inr (map (\<lambda>j. ovs_acts (unat len) n (i + j) (ts ! j)) [0..<length ts], st')"
  using assms(1,4)
proof (induction ts arbitrary: i k st)
  case (Cons t ts)
  have l: "0 < unat len" using assms(2) by (simp add: unat_gt_0)
  from ovs_step_at [OF Cons.prems(1) assms(2,3), of t] Cons.prems(2) obtain k' st' where
    s: "ovs_step len n st t = Inr (ovs_acts (unat len) n i t, st')" and at: "ovs_at (unat len) n (i + 1) k' st'"
    unfolding ovs_acts_def ovs_at_end_unique [OF Cons.prems(1) l] by auto
  from Cons.IH [OF at] Cons.prems(2) obtain st2 where
    "ovs_loop len n st' ts = Inr (map (\<lambda>j. ovs_acts (unat len) n (i + 1 + j) (ts ! j)) [0..<length ts], st2)" by auto
  then show ?case using s by (simp add: map_upt_Suc del: upt_Suc)
qed simp

text \<open>C34: behind Open vSwitch the intervals grow. With an interval length of \<open>len\<close> records the main
  thread never fails and gives record \<open>i\<close> to worker \<open>i mod n\<close>; it ends an interval after \<open>2 len\<close>
  records, the next after \<open>3 len\<close> more, the next after \<open>4 len\<close> more (the \<open>k\<close>-th end is before record
  \<open>k (k + 3) / 2 * len\<close>): at an end it sets the count of records to zero but keeps the number of the
  interval it compares the count with.\<close>

theorem ovs_intervals_grow:
  assumes "0 < len" "0 < n" "length ts < 2 ^ 64"
  shows "\<exists>st'. ovs_loop len n ovs_init ts = Inr (map (\<lambda>i.
      (if \<exists>k \<le> i. i = (k + 1) * (k + 4) div 2 * unat len then ovs_punc n else []) @ [OWrite (i mod n) (ts ! i)])
    [0..<length ts], st')"
proof -
  have "ovs_at (unat len) n 0 0 ovs_init" by (simp add: ovs_at_def ovs_init_def)
  from ovs_loop_at [OF this assms(1,2)] assms(3) show ?thesis
    by (simp add: ovs_acts_def ovs_end_def add.commute)
qed

lemma ovs_intervals_grow_witness:
  "\<exists>st'. ovs_loop 1 2 ovs_init [zero_tuple, zero_tuple, zero_tuple] =
    Inr ([[OWrite 0 zero_tuple], [OWrite 1 zero_tuple], ovs_punc 2 @ [OWrite 0 zero_tuple]], st')"
proof -
  have "(\<exists>k \<le> i. i = (k + 1) * (k + 4) div 2) \<longleftrightarrow> i = 2" if "i < 3" for i :: nat
  proof -
    have "k = 0 \<or> k = 1 \<or> k = 2" if "k \<le> i" for k using that \<open>i < 3\<close> by linarith
    then show ?thesis using \<open>i < 3\<close> by fastforce
  qed
  then show ?thesis
    using ovs_intervals_grow [of 1 2 "[zero_tuple, zero_tuple, zero_tuple]"] by (simp add: upt_rec)
qed

end
