(* ===== verification/Worker_Pool.thy ===== *)
theory Worker_Pool
  imports Pipeline
begin

text \<open>
  One main thread and several workers, each with a ring and a semaphore of its own, as in
  \<^verbatim>\<open>dp_ovs.c\<close>. An action of the main thread carries the number of the worker it concerns. A station
  is a system of \<^theory_text>\<open>Pipeline\<close> without actions; the main thread lends it its next action, so that the
  steps of the whole are those of the stations. What one worker sees of a run, \<open>view\<close>, is then a run
  of the two-thread system, with the actions that concern this worker.
\<close>

section \<open>State and steps\<close>

record ('s, 'a, 'w) pool =
  plan :: "(nat \<times> 'a pact) list"
  stations :: "('s, 'a, 'w) sys list"

text \<open>A step of the main thread uses up its next action, a step of a worker leaves the plan alone.\<close>

inductive pool_step :: "('s \<Rightarrow> 'a \<Rightarrow> int \<times> 's) \<Rightarrow> ('s \<Rightarrow> 'a \<Rightarrow> int \<times> 'a \<times> 's) \<Rightarrow> ('s \<Rightarrow> 's) \<Rightarrow>
    ('w \<Rightarrow> 'a \<Rightarrow> 'w outcome) \<Rightarrow> ('s, 'a, 'w) pool \<Rightarrow> ('s, 'a, 'w) pool \<Rightarrow> bool"
  for send recv flush handle where
  main_step: "\<forall>s \<in> set (stations p). alive (wk s) \<Longrightarrow> plan p = (i, a) # as \<Longrightarrow> i < length (stations p) \<Longrightarrow>
    sys_step send recv flush handle ((stations p ! i)\<lparr>todo := [a]\<rparr>) s' \<Longrightarrow> todo s' = [] \<Longrightarrow>
    pool_step send recv flush handle p (p\<lparr>plan := as, stations := (stations p)[i := s']\<rparr>)"
| worker_step: "\<forall>s \<in> set (stations p). alive (wk s) \<Longrightarrow> i < length (stations p) \<Longrightarrow>
    sys_step send recv flush handle (stations p ! i) s' \<Longrightarrow>
    pool_step send recv flush handle p (p\<lparr>stations := (stations p)[i := s']\<rparr>)"

definition init_pool :: "'s \<Rightarrow> 'a \<Rightarrow> 'w list \<Rightarrow> (nat \<times> 'a pact) list \<Rightarrow> ('s, 'a, 'w) pool" where
  "init_pool c b ws as = \<lparr>plan = as, stations = map (\<lambda>w. init_sys c b w []) ws\<rparr>"

text \<open>The actions that concern one worker, and what it sees.\<close>

fun share :: "nat \<Rightarrow> (nat \<times> 'a pact) list \<Rightarrow> 'a pact list" where
  "share i [] = []"
| "share i ((j, a) # as) = (if i = j then a # share i as else share i as)"

definition view :: "nat \<Rightarrow> ('s, 'a, 'w) pool \<Rightarrow> ('s, 'a, 'w) sys" where
  "view i p = (stations p ! i)\<lparr>todo := share i (plan p)\<rparr>"

lemma share_append [simp]: "share i (as @ bs) = share i as @ share i bs"
  by (induction i as rule: share.induct) auto

lemma length_share: "\<forall>(j, a) \<in> set as. j < n \<Longrightarrow> (\<Sum>i<n. length (share i as)) = length as"
proof (induction as)
  case (Cons x as)
  obtain j a where x: "x = (j, a)" by fastforce
  have "(\<Sum>i<n. length (share i (x # as))) = (\<Sum>i<n. (if i = j then 1 else 0) + length (share i as))"
    by (intro sum.cong) (auto simp: x)
  also have "\<dots> = (\<Sum>i<n. if i = j then 1 else 0) + length as" using Cons by (simp add: sum.distrib)
  also have "(\<Sum>i<n. if i = j then 1 else 0) = (1 :: nat)" using Cons.prems by (simp add: x)
  finally show ?case by simp
qed simp

section \<open>A run as seen by a worker\<close>

lemma apply_outcome_todo: "apply_outcome r (s\<lparr>todo := as\<rparr>) = (apply_outcome r s)\<lparr>todo := as\<rparr>"
  by (cases r) simp_all

lemma sys_update_commute [simp]:
  fixes s :: "('s, 'a, 'w) sys"
  shows "s\<lparr>todo := as, chan := c\<rparr> = s\<lparr>chan := c, todo := as\<rparr>"
    "s\<lparr>todo := as, sem := n\<rparr> = s\<lparr>sem := n, todo := as\<rparr>" by (cases s; simp)+

text \<open>More actions behind the one that is taken, or behind none, change nothing.\<close>

lemma step_lends:
  assumes "sys_step send recv flush handle (s\<lparr>todo := [a]\<rparr>) s'" "todo s' = []"
  shows "sys_step send recv flush handle (s\<lparr>todo := a # as\<rparr>) (s'\<lparr>todo := as\<rparr>)"
  using assms(1)
proof cases
  case (step_write x b c)
  then show ?thesis using sys_step.step_write [of "s\<lparr>todo := a # as\<rparr>" x as send c] by simp
next
  case (step_flush b)
  then show ?thesis using sys_step.step_flush [of "s\<lparr>todo := a # as\<rparr>" as] by simp
next
  case (step_wait b n)
  then show ?thesis using sys_step.step_wait [of "s\<lparr>todo := a # as\<rparr>" as n] by simp
next
  case (step_read w y c)
  then have "todo s' = [a]" by (cases "handle w y") simp_all
  then show ?thesis using assms(2) by simp
qed

lemma idle_step:
  assumes "sys_step send recv flush handle s s'" "todo s = []"
  shows "todo s' = []" "sys_step send recv flush handle (s\<lparr>todo := as\<rparr>) (s'\<lparr>todo := as\<rparr>)"
proof -
  from assms obtain w y c where r: "wk s = Running w" "recv (chan s) (rbuf s) = (0, y, c)"
    "s' = apply_outcome (handle w y) (s\<lparr>chan := c, rbuf := y\<rparr>)" by (auto elim: sys_stepE)
  then show "todo s' = []" using assms(2) by (cases "handle w y") simp_all
  have "sys_step send recv flush handle (s\<lparr>todo := as\<rparr>)
      (apply_outcome (handle w y) (s\<lparr>todo := as, chan := c, rbuf := y\<rparr>))"
    using sys_step.step_read [of "s\<lparr>todo := as\<rparr>"] r by simp
  moreover have "s\<lparr>todo := as, chan := c, rbuf := y\<rparr> = (s\<lparr>chan := c, rbuf := y\<rparr>)\<lparr>todo := as\<rparr>" by (cases s) simp
  ultimately show "sys_step send recv flush handle (s\<lparr>todo := as\<rparr>) (s'\<lparr>todo := as\<rparr>)"
    by (simp add: r(3) apply_outcome_todo del: sys_update_commute)
qed

definition idle :: "('s, 'a, 'w) pool \<Rightarrow> bool" where
  "idle p \<longleftrightarrow> (\<forall>s \<in> set (stations p). todo s = [])"

lemma idle_init: "idle (init_pool c b ws as)"
  by (simp add: idle_def init_pool_def init_sys_def)

lemma view_init: "i < length ws \<Longrightarrow> view i (init_pool c b ws as) = init_sys c b (ws ! i) (share i as)"
  by (simp add: view_def init_pool_def init_sys_def)

lemma idle_update:
  assumes "idle p" "todo s' = []" "stations q = (stations p)[i := s']"
  shows "idle q"
  using assms set_update_subset_insert [of "stations p" i s'] by (auto simp: idle_def)

text \<open>A step of the pool is a step in one view and none in the others.\<close>

lemma view_step:
  assumes "pool_step send recv flush handle p q" "idle p"
  shows "idle q \<and> length (stations q) = length (stations p) \<and>
    (\<exists>i < length (stations p). sys_step send recv flush handle (view i p) (view i q) \<and>
       (\<forall>j. j \<noteq> i \<longrightarrow> view j q = view j p))"
  using assms(1)
proof cases
  case (main_step i a as s')
  have "idle q" using idle_update [OF assms(2) main_step(6)] main_step(1) by simp
  moreover have "sys_step send recv flush handle (view i p) (view i q)"
    using step_lends [OF main_step(5,6), of "share i as"] main_step(1,3,4) by (simp add: view_def)
  moreover have "\<forall>j. j \<noteq> i \<longrightarrow> view j q = view j p" using main_step(1,3) by (simp add: view_def)
  ultimately show ?thesis using main_step(1,4) by auto
next
  case (worker_step i s')
  have t: "todo (stations p ! i) = []" using assms(2) worker_step(3) by (simp add: idle_def)
  note s = idle_step [OF worker_step(4) t]
  have "idle q" using idle_update [OF assms(2) s(1)] worker_step(1) by simp
  moreover have "sys_step send recv flush handle (view i p) (view i q)"
    using s(2) [of "share i (plan p)"] worker_step(1,3) by (simp add: view_def)
  moreover have "\<forall>j. j \<noteq> i \<longrightarrow> view j q = view j p" using worker_step(1) by (simp add: view_def)
  ultimately show ?thesis using worker_step(1,3) by auto
qed

lemma plan_step:
  assumes "pool_step send recv flush handle p q"
  shows "\<exists>as. plan p = as @ plan q"
  using assms by cases auto

text \<open>The views of a run of \<open>n\<close> steps are runs of the two-thread system, of \<open>n\<close> steps in all.\<close>

lemma pool_views:
  assumes "(pool_step send recv flush handle ^^ n) (init_pool c b ws as) p"
  shows "idle p \<and> length (stations p) = length ws \<and> (\<exists>dn. as = dn @ plan p) \<and>
    (\<exists>ns. (\<Sum>i<length ws. ns i) = n \<and> (\<forall>i < length ws.
      (sys_step send recv flush handle ^^ ns i) (init_sys c b (ws ! i) (share i as)) (view i p)))"
  using assms
proof (induction n arbitrary: p)
  case 0
  then have "p = init_pool c b ws as" by simp
  then show ?case
    by (auto simp: idle_init view_init intro!: exI [of _ "\<lambda>_. 0"]) (simp_all add: init_pool_def)
next
  case (Suc n)
  then obtain q where q: "(pool_step send recv flush handle ^^ n) (init_pool c b ws as) q"
    "pool_step send recv flush handle q p" by auto
  from Suc.IH [OF q(1)] obtain ns dn where h: "idle q" "length (stations q) = length ws" "as = dn @ plan q"
    "(\<Sum>i<length ws. ns i) = n" "\<And>i. i < length ws \<Longrightarrow>
      (sys_step send recv flush handle ^^ ns i) (init_sys c b (ws ! i) (share i as)) (view i q)" by blast
  from view_step [OF q(2) h(1)] h(2) obtain i where v: "idle p" "length (stations p) = length ws" "i < length ws"
    "sys_step send recv flush handle (view i q) (view i p)" "\<And>j. j \<noteq> i \<Longrightarrow> view j p = view j q" by auto
  let ?ns = "ns(i := Suc (ns i))"
  have "(\<Sum>j<length ws. ?ns j) = (\<Sum>j<length ws. ns j + (if j = i then 1 else 0))"
    by (intro sum.cong) auto
  then have sum: "(\<Sum>j<length ws. ?ns j) = Suc n" using v(3) by (simp add: sum.distrib h(4))
  have "(sys_step send recv flush handle ^^ ?ns j) (init_sys c b (ws ! j) (share j as)) (view j p)" if "j < length ws" for j
    using h(5) [OF that] v(4,5) by (cases "j = i") auto
  moreover obtain ds where "plan q = ds @ plan p" using plan_step [OF q(2)] by blast
  ultimately show ?case using v(1,2) h(3) sum by (intro conjI exI [of _ ?ns] exI [of _ "dn @ ds"]) auto
qed

section \<open>Bound, progress and the workers' states\<close>

context pipeline
begin

lemma pool_bound:
  assumes "(pool_step send recv flush handle ^^ n) (init_pool c b ws as) p" "inv c" "contents c = []"
    and "\<forall>(j, a) \<in> set as. j < length ws"
  shows "n \<le> 2 * length as"
proof -
  from pool_views [OF assms(1)] obtain ns where ns: "(\<Sum>i<length ws. ns i) = n"
    "\<And>i. i < length ws \<Longrightarrow> (sys_step send recv flush handle ^^ ns i) (init_sys c b (ws ! i) (share i as)) (view i p)"
    by blast
  have "ns i \<le> 2 * length (share i as)" if "i < length ws" for i
    using sim_steps [OF ns(2) [OF that] assms(2,3)] by auto
  then have "(\<Sum>i<length ws. ns i) \<le> (\<Sum>i<length ws. 2 * length (share i as))" by (intro sum_mono) simp
  then show ?thesis by (simp add: ns(1) length_share [OF assms(4)] flip: sum_distrib_left)
qed

text \<open>
  What worker \<open>i\<close> has received is a part of what was written to it, and its state is the one
  that handling these records gives; when nothing is left to do, it has posted for every wait.
\<close>

lemma pool_worker:
  assumes "(pool_step send recv flush handle ^^ n) (init_pool c b ws as) p" "inv c" "contents c = []" "i < length ws"
  shows "\<exists>del rest k. writes (share i as) = del @ rest \<and>
    run_worker handle (Running (ws ! i)) del = (wk (stations p ! i), k) \<and> (plan p = [] \<longrightarrow> waits (share i as) \<le> k)"
proof -
  from pool_views [OF assms(1)] assms(4) obtain m where
    "(sys_step send recv flush handle ^^ m) (init_sys c b (ws ! i) (share i as)) (view i p)" by blast
  from sim_steps [OF this assms(2,3)] obtain dn del where "sim (share i as) (ws ! i) dn del (view i p)" by blast
  then have s: "share i as = dn @ share i (plan p)" "writes dn = del @ contents (chan (view i p))"
    "run_worker handle (Running (ws ! i)) del = (wk (stations p ! i), sem (view i p) + waits dn)"
    by (auto simp: sim_def view_def)
  let ?rest = "contents (chan (view i p)) @ writes (share i (plan p))"
  have "writes (share i as) = del @ ?rest" using s(2) by (subst s(1)) simp
  moreover have "waits (share i as) = waits dn" if "plan p = []" using s(1) that by simp
  ultimately show ?thesis using s(3) by (intro exI [of _ del] exI [of _ ?rest] exI [of _ "sem (view i p) + waits dn"]) simp
qed

text \<open>No deadlock: as long as actions are left some thread can go on.\<close>

lemma pool_next:
  assumes "(pool_step send recv flush handle ^^ n) (init_pool c b ws as) p" "inv c" "contents c = []"
    and "\<forall>(j, a) \<in> set as. j < length ws"
    and f: "\<And>i. i < length ws \<Longrightarrow> fed_waits handle (Running (ws ! i)) (share i as) \<and>
      runs_on handle (Running (ws ! i)) (writes (share i as))"
    and al: "\<forall>s \<in> set (stations p). alive (wk s)" and "plan p \<noteq> []"
  shows "\<exists>q. pool_step send recv flush handle p q"
proof -
  from pool_views [OF assms(1)] obtain ns dn where v: "idle p" "length (stations p) = length ws" "as = dn @ plan p"
    "\<And>i. i < length ws \<Longrightarrow> (sys_step send recv flush handle ^^ ns i) (init_sys c b (ws ! i) (share i as)) (view i p)"
    by blast
  obtain i a bs where pl: "plan p = (i, a) # bs" using assms(7) by (cases "plan p") auto
  then have i: "i < length ws" using assms(4) v(3) by auto
  let ?s = "stations p ! i"
  have t: "todo ?s = []" and ali: "alive (wk ?s)" using v(1,2) i al by (simp_all add: idle_def)
  from seen_steps [OF v(4) [OF i] assms(2,3)] f [OF i] obtain d del where
    "sim (share i as) (ws ! i) d del (view i p)" "all_seen d (view i p)" by blast
  moreover have "alive (wk (view i p))" "todo (view i p) \<noteq> []" using ali by (simp_all add: view_def pl)
  ultimately obtain u where u: "sys_step send recv flush handle (view i p) u" using next_step f [OF i] by blast
  have w: "view i p = ?s\<lparr>todo := a # share i bs\<rparr>" by (simp add: view_def pl)
  from u show ?thesis
  proof cases
    case (step_write x as' c')
    then have "sys_step send recv flush handle (?s\<lparr>todo := [a]\<rparr>) (?s\<lparr>todo := [], chan := c'\<rparr>)"
      using sys_step.step_write [of "?s\<lparr>todo := [a]\<rparr>" x "[]" send c'] by (simp add: w)
    from main_step [OF al pl _ this] show ?thesis using i v(2) t by auto
  next
    case (step_flush as')
    then have "sys_step send recv flush handle (?s\<lparr>todo := [a]\<rparr>) (?s\<lparr>todo := [], chan := flush (chan ?s)\<rparr>)"
      using sys_step.step_flush [of "?s\<lparr>todo := [a]\<rparr>" "[]"] by (simp add: w)
    from main_step [OF al pl _ this] show ?thesis using i v(2) t by auto
  next
    case (step_wait as' k)
    then have "sys_step send recv flush handle (?s\<lparr>todo := [a]\<rparr>) (?s\<lparr>todo := [], sem := k\<rparr>)"
      using sys_step.step_wait [of "?s\<lparr>todo := [a]\<rparr>" "[]" k] by (simp add: w)
    from main_step [OF al pl _ this] show ?thesis using i v(2) t by auto
  next
    case (step_read w' y c')
    then have "wk ?s = Running w'" "recv (chan ?s) (rbuf ?s) = (0, y, c')" by (simp_all add: w)
    then have "sys_step send recv flush handle ?s (apply_outcome (handle w' y) (?s\<lparr>chan := c', rbuf := y\<rparr>))"
      by (rule sys_step.step_read)
    from worker_step [OF al _ this] show ?thesis using i v(2) by auto
  qed
qed

end

end
