(* ===== verification/Ovs_System.thy ===== *)
theory Ovs_System
  imports Dp_Ovs Worker_Pool
begin

text \<open>
  \<^verbatim>\<open>dp_ovs.c\<close> as a whole: the main thread, which performs the actions of \<open>ovs_loop\<close> for a stretch of
  its endless loop, and the workers that \<open>dp_ovs\<close> starts, in every possible interleaving.
\<close>

section \<open>The threads together\<close>

fun pool_act :: "ovs_act \<Rightarrow> nat \<times> tuple_t pact" where
  "pool_act (OWrite i t) = (i, PWrite t)"
| "pool_act (OFlush i) = (i, PFlush)"
| "pool_act (OWait i) = (i, PWait)"

text \<open>The start: every worker is ready, its ring is empty; the actions are listed record by record.\<close>

definition ovs_pool :: "dp_state list \<Rightarrow> ovs_act list list \<Rightarrow> (tuple_t ringbuffer, tuple_t, dp_state) pool" where
  "ovs_pool ws ass = init_pool (create_ringbuffer zero_tuple) zero_tuple ws (map pool_act (concat ass))"

abbreviation ovs_pool_step :: "dp_env \<Rightarrow> (tuple_t ringbuffer, tuple_t, dp_state) pool \<Rightarrow>
    (tuple_t ringbuffer, tuple_t, dp_state) pool \<Rightarrow> bool" where
  "ovs_pool_step env \<equiv> pool_step write_ringbuffer read_ringbuffer flush_ringbuffer (ovs_handler env)"

text \<open>The records that end an interval: more is done for them than one write.\<close>

definition ended :: "ovs_act list list \<Rightarrow> nat" where
  "ended ass = length (filter (\<lambda>as. 1 < length as) ass)"

section \<open>The actions for one worker\<close>

lemma share_punc:
  "share i (map pool_act (ovs_punc n)) =
    (if i < n then [PWrite (zero_tuple\<lparr>flag := TUPLE_PUNC\<rparr>), PFlush, PWait] else [])"
  by (induction n) (auto simp: ovs_punc_def less_Suc_eq)

lemma ovs_step_acts:
  assumes "ovs_step len n st t = Inr (as, st')"
  shows "o_index st < n \<and> (as = [OWrite (o_index st) t] \<or> as = ovs_punc n @ [OWrite (o_index st) t])"
  using assms by (auto simp: ovs_step_def Let_def split: if_splits)

lemma length_punc: "length (ovs_punc n) = 3 * n"
  by (induction n) (auto simp: ovs_punc_def)

lemma punc_indices: "(j, a) \<in> set (map pool_act (ovs_punc n)) \<Longrightarrow> j < n"
  by (auto simp: ovs_punc_def)

text \<open>What worker \<open>i\<close> is sent: groups of records, each but the last followed by the end of an interval.\<close>

lemma ovs_loop_share:
  assumes "ovs_loop len n st ts = Inr (ass, st')" "i < n"
  shows "\<exists>g pgs. share i (map pool_act (concat ass)) = actions g pgs \<and> length pgs = ended ass \<and>
    set g \<subseteq> set ts \<and> (\<forall>(p, h) \<in> set pgs. flag p = TUPLE_PUNC \<and> set h \<subseteq> set ts)"
  using assms(1)
proof (induction ts arbitrary: st ass)
  case Nil
  then show ?case by (intro exI [of _ "[]"]) (simp add: ended_def)
next
  case (Cons t ts)
  then obtain as st1 ass' where s: "ovs_step len n st t = Inr (as, st1)" "ovs_loop len n st1 ts = Inr (ass', st')"
    "ass = as # ass'" by auto
  from Cons.IH [OF s(2)] obtain g pgs where h: "share i (map pool_act (concat ass')) = actions g pgs"
    "length pgs = ended ass'" "set g \<subseteq> set ts" "\<forall>(p, h) \<in> set pgs. flag p = TUPLE_PUNC \<and> set h \<subseteq> set ts" by blast
  let ?g = "\<lambda>j. if i = j then t # g else g" and ?p = "zero_tuple\<lparr>flag := TUPLE_PUNC\<rparr>"
  have one: "share i [(j, PWrite t)] @ actions g pgs = actions (?g j) pgs" for j by (simp add: actions_Cons)
  from ovs_step_acts [OF s(1)] obtain j where "as = [OWrite j t] \<or> as = ovs_punc n @ [OWrite j t]" by blast
  then show ?case
  proof (elim disjE)
    assume "as = [OWrite j t]"
    then show ?thesis using h one [of j] by (intro exI [of _ "?g j"] exI [of _ pgs]) (auto simp: s(3) ended_def)
  next
    assume as: "as = ovs_punc n @ [OWrite j t]"
    have "1 < length as" using assms(2) by (simp add: as length_punc)
    then show ?thesis using h one [of j] assms(2) as
      by (intro exI [of _ "[]"] exI [of _ "(?p, ?g j) # pgs"]) (auto simp: s(3) ended_def share_punc)
  qed
qed

lemma ovs_loop_indices:
  assumes "ovs_loop len n st ts = Inr (ass, st')"
  shows "\<forall>(j, a) \<in> set (map pool_act (concat ass)). j < n"
  using assms
proof (induction ts arbitrary: st ass)
  case (Cons t ts)
  then obtain as st1 ass' where s: "ovs_step len n st t = Inr (as, st1)" "ovs_loop len n st1 ts = Inr (ass', st')"
    "ass = as # ass'" by auto
  from ovs_step_acts [OF s(1)] have "\<forall>(j, a) \<in> set (map pool_act as). j < n"
    using punc_indices [of _ _ n] by fastforce
  then show ?case using Cons.IH [OF s(2)] by (auto simp: s(3) case_prod_beta)
qed simp

lemma ovs_fed:
  assumes "ovs_loop len n st ts = Inr (ass, st')" "i < n" "\<forall>t \<in> set ts. flag t = TUPLE_NORMAL"
  shows "fed_waits (ovs_handler env) (Running w) (share i (map pool_act (concat ass))) \<and>
    runs_on (ovs_handler env) (Running w) (writes (share i (map pool_act (concat ass))))"
proof -
  from ovs_loop_share [OF assms(1,2)] assms(3) obtain g pgs where s: "share i (map pool_act (concat ass)) = actions g pgs"
    "\<forall>t \<in> set g. flag t = TUPLE_NORMAL" "\<forall>(p, h) \<in> set pgs. flag p = TUPLE_PUNC \<and> (\<forall>t \<in> set h. flag t = TUPLE_NORMAL)"
    by fastforce
  have "flag (zero_tuple\<lparr>flag := TUPLE_TERM\<rparr>) = TUPLE_TERM" by simp
  from ovs.main_feeds [OF s(2,3) this, where env = env and w = w] show ?thesis
    unfolding s(1) feeds_def writes_append using fed_waits_prefix runs_on_prefix by blast
qed

interpretation ovs_pipe: pipeline rb_inv rb_contents rb_visible write_ringbuffer read_ringbuffer flush_ringbuffer
  "ovs_handler env" for env
  by unfold_locales

section \<open>The state of a worker\<close>

text \<open>The files of \<open>c\<close> intervals from number \<open>i\<close> on: all workers use the same names.\<close>

definition empty_files :: "dp_env \<Rightarrow> skl_t \<Rightarrow> nat \<Rightarrow> nat \<Rightarrow> (string \<times> string) list" where
  "empty_files env s i c = map (\<lambda>k. (projr (ovs_path env (of_nat k)), SKL_Print (group_sketch s []))) [i..<i + c]"

definition puncs :: "tuple_t list \<Rightarrow> nat" where
  "puncs xs = length (filter (\<lambda>t. flag t = TUPLE_PUNC) xs)"

lemma puncs_records:
  assumes "\<forall>t \<in> set g. flag t \<noteq> TUPLE_PUNC" "\<forall>(p, h) \<in> set pgs. flag p = TUPLE_PUNC \<and> (\<forall>t \<in> set h. flag t \<noteq> TUPLE_PUNC)"
  shows "puncs (records g pgs) = length pgs"
  using assms by (induction g pgs rule: records.induct) (auto simp: puncs_def filter_empty_conv)

definition ovs_paths_ok :: "dp_env \<Rightarrow> nat \<Rightarrow> bool" where
  "ovs_paths_ok env m \<longleftrightarrow> (\<forall>k < m. \<exists>path. ovs_path env (of_nat k) = Inr path \<and> env_writable env path)"

lemma ovs_run:
  assumes "ovs_mid s i g fs w" "\<forall>t \<in> set xs. flag t \<in> {TUPLE_NORMAL, TUPLE_PUNC}" "env_output env"
    and "ovs_paths_ok env (i + puncs xs)"
  shows "\<exists>w' g'. run_worker (ovs_handler env) (Running w) xs = (Running w', puncs xs) \<and>
    ovs_mid s (i + puncs xs) g' (fs @ empty_files env s i (puncs xs)) w'"
  using assms(1,2,4)
proof (induction xs arbitrary: i g fs w)
  case Nil
  then show ?case by (auto simp: puncs_def empty_files_def)
next
  case (Cons t xs)
  show ?case
  proof (cases "flag t = TUPLE_PUNC")
    case True
    then have c: "puncs (t # xs) = Suc (puncs xs)" by (simp add: puncs_def)
    then obtain path where p: "ovs_path env (of_nat i) = Inr path" "env_writable env path"
      using Cons.prems(3) unfolding ovs_paths_ok_def by (metis add_Suc_right le_add1 less_Suc_eq_le)
    from ovs_mid_punc [OF Cons.prems(1) True assms(3) p] obtain w1 where w1: "ovs_handler env w t = Go w1 1"
      "ovs_mid s (Suc i) [] (fs @ [(path, SKL_Print (group_sketch s []))]) w1" by blast
    have "(fs @ [(path, SKL_Print (group_sketch s []))]) @ empty_files env s (Suc i) (puncs xs) =
        fs @ empty_files env s i (Suc (puncs xs))"
      using p(1) upt_conv_Cons [of i "i + Suc (puncs xs)"] by (simp add: empty_files_def)
    then show ?thesis using Cons.IH [OF w1(2)] Cons.prems(2,3) w1(1) by (auto simp: c)
  next
    case False
    then have c: "puncs (t # xs) = puncs xs" and n: "flag t = TUPLE_NORMAL" using Cons.prems(2) by (auto simp: puncs_def)
    from ovs_mid_record [OF Cons.prems(1) n] obtain w1 where "ovs_handler env w t = Go w1 0" "ovs_mid s i [] fs w1" by blast
    then show ?thesis using Cons.IH [of i "[]" fs w1] Cons.prems(2,3) by (auto simp: c)
  qed
qed

text \<open>Where a run of all the threads leaves worker \<open>i\<close>.\<close>

lemma ovs_worker:
  assumes "ovs_loop len (length ws) st ts = Inr (ass, st')" "\<forall>t \<in> set ts. flag t = TUPLE_NORMAL"
    and "(ovs_pool_step env ^^ n) (ovs_pool ws ass) p" "i < length ws"
    and "ws ! i = dp_init s" "fresh_sketch s" "depth s * width s \<noteq> 1" "env_output env" "ovs_paths_ok env (ended ass)"
  shows "\<exists>w c. wk (stations p ! i) = Running w \<and> c \<le> ended ass \<and> (plan p = [] \<longrightarrow> c = ended ass) \<and>
    dp_files w = empty_files env s 0 c"
proof -
  let ?a = "share i (map pool_act (concat ass))"
  from ovs_loop_share [OF assms(1,4)] obtain g pgs where g: "?a = actions g pgs" "length pgs = ended ass"
    "set g \<subseteq> set ts" "\<forall>(p, h) \<in> set pgs. flag p = TUPLE_PUNC \<and> set h \<subseteq> set ts" by blast
  have norm: "\<forall>t \<in> set g. flag t = TUPLE_NORMAL" "\<forall>(p, h) \<in> set pgs. flag p = TUPLE_PUNC \<and> (\<forall>t \<in> set h. flag t = TUPLE_NORMAL)"
    using g(3,4) assms(2) by fastforce+
  have flags: "(\<forall>t \<in> set (records g pgs). flag t \<in> {TUPLE_NORMAL, TUPLE_PUNC}) \<and> puncs (records g pgs) = length pgs"
    using norm by (induction g pgs rule: records.induct) (auto simp: puncs_def TUPLE_NORMAL_def TUPLE_PUNC_def filter_empty_conv)
  from ovs_pipe.pool_worker [OF assms(3) [unfolded ovs_pool_def] rb_inv_create rb_contents_create assms(4)]
  obtain del rest k where d: "records g pgs = del @ rest" "run_worker (ovs_handler env) (Running (dp_init s)) del = (wk (stations p ! i), k)"
    "plan p = [] \<longrightarrow> length pgs \<le> k" by (auto simp: g(1) assms(5))
  have c: "puncs del \<le> ended ass" using flags d(1) g(2) by (simp add: puncs_def)
  have "\<forall>t \<in> set del. flag t \<in> {TUPLE_NORMAL, TUPLE_PUNC}" "ovs_paths_ok env (0 + puncs del)"
    using flags d(1) c assms(9) by (auto simp: ovs_paths_ok_def)
  from ovs_run [OF ovs_mid_init [OF assms(6,7), of "[]"] this(1) assms(8) this(2)] obtain w g' where
    w: "wk (stations p ! i) = Running w" "k = puncs del" "ovs_mid s (0 + puncs del) g' ([] @ empty_files env s 0 (puncs del)) w"
    using d(2) by auto
  have "dp_files w = empty_files env s 0 (puncs del)" using w(3) by (simp add: ovs_mid_def)
  then show ?thesis using w(1,2) c d(3) g(2) by auto
qed

section \<open>The program\<close>

lemma start_workers_fresh:
  assumes "start_workers ini conf rand is_pin n = Inr (ws, glob)" "\<forall>w \<in> set ws. 8 dvd lgn (dp_skl w) \<and> lgn (dp_skl w) \<le> 104"
  shows "length ws = n \<and> (\<forall>w \<in> set ws. w = dp_init (dp_skl w) \<and> fresh_sketch (dp_skl w) \<and> depth (dp_skl w) * width (dp_skl w) \<noteq> 1)"
proof -
  have "case (ws, glob) of (ws, glob) \<Rightarrow> length ws = n \<and> (\<forall>w \<in> set ws. w = dp_init (dp_skl w) \<and>
      (\<exists>glob glob'. sketch_of_conf ini conf rand glob = Inr (dp_skl w, glob')))"
    by (rule for_res_rule [OF assms(1) [unfolded start_workers_def], where
        I = "\<lambda>i (ws, glob). length ws = i \<and> (\<forall>w \<in> set ws. w = dp_init (dp_skl w) \<and>
          (\<exists>glob glob'. sketch_of_conf ini conf rand glob = Inr (dp_skl w, glob')))"])
      (auto simp: dp_init_def, blast)
  then show ?thesis using assms(2) sketch_of_conf_fresh by fastforce
qed

lemma dp_ovs_start:
  assumes "dp_ovs ini writable rand argv = Inr (env, ws, len, st)" "\<forall>w \<in> set ws. 8 dvd lgn (dp_skl w) \<and> lgn (dp_skl w) \<le> 104"
  shows "st = ovs_init \<and> (\<forall>w \<in> set ws. w = dp_init (dp_skl w) \<and> fresh_sketch (dp_skl w) \<and> depth (dp_skl w) * width (dp_skl w) \<noteq> 1)"
proof -
  from assms(1) obtain conf is_pin n glob where "start_workers ini conf rand is_pin n = Inr (ws, glob)" "st = ovs_init"
    by (auto simp: dp_ovs_def split: if_splits)
  then show ?thesis using start_workers_fresh [OF _ assms(2)] by blast
qed

text \<open>C9: the data plane behind Open vSwitch, as a whole. Let \<open>dp_ovs\<close> start its workers (with keys of
  whole bytes up to 104 bits) and the kernel deliver the records \<open>ts\<close>. However the main thread and the
  workers are interleaved, a run takes at most two steps per action; until all actions are done some
  thread can go on; no worker fails; and each has written, for every interval that has ended for it, one
  file, the completed sketch of no records. When the actions are done these are all the ended intervals.
  The names of the files do not depend on the worker: in each interval all workers write the same file.\<close>

theorem dp_ovs_run:
  assumes "dp_ovs ini writable rand argv = Inr (env, ws, len, st)"
    and "\<forall>w \<in> set ws. 8 dvd lgn (dp_skl w) \<and> lgn (dp_skl w) \<le> 104" "env_output env"
    and "ovs_loop len (length ws) st ts = Inr (ass, st')" "\<forall>t \<in> set ts. flag t = TUPLE_NORMAL"
    and "ovs_paths_ok env (ended ass)" "(ovs_pool_step env ^^ n) (ovs_pool ws ass) p"
  shows "n \<le> 2 * length (concat ass) \<and> (plan p = [] \<or> (\<exists>q. ovs_pool_step env p q)) \<and>
    (\<forall>i < length ws. \<exists>w c. wk (stations p ! i) = Running w \<and> c \<le> ended ass \<and> (plan p = [] \<longrightarrow> c = ended ass) \<and>
      dp_files w = map (\<lambda>k. (projr (ovs_path env (of_nat k)), SKL_Print (group_sketch (dp_skl (ws ! i)) []))) [0..<c])"
proof -
  note run = assms(7) [unfolded ovs_pool_def] and idx = ovs_loop_indices [OF assms(4)]
  have ws: "ws ! i = dp_init (dp_skl (ws ! i))" "fresh_sketch (dp_skl (ws ! i))"
    "depth (dp_skl (ws ! i)) * width (dp_skl (ws ! i)) \<noteq> 1" if "i < length ws" for i
    using dp_ovs_start [OF assms(1,2)] that by auto
  have w: "\<exists>w c. wk (stations p ! i) = Running w \<and> c \<le> ended ass \<and> (plan p = [] \<longrightarrow> c = ended ass) \<and>
      dp_files w = empty_files env (dp_skl (ws ! i)) 0 c" if "i < length ws" for i
    by (rule ovs_worker [OF assms(4,5,7) that ws [OF that] assms(3,6)])
  have "length (stations p) = length ws" using pool_views [OF run] by blast
  with w have "\<forall>s \<in> set (stations p). alive (wk s)" by (metis alive.simps(2) in_set_conv_nth)
  from ovs_pipe.pool_next [OF run rb_inv_create rb_contents_create idx ovs_fed [OF assms(4) _ assms(5)] this]
    ovs_pipe.pool_bound [OF run rb_inv_create rb_contents_create idx] w
  show ?thesis by (auto simp: empty_files_def)
qed

text \<open>A start with two workers, and three records with intervals of one: one interval ends.\<close>

definition demo_ovs_dict :: "(string \<times> string) list" where
  "demo_ovs_dict = [(''Common:trace_dir'', ''d''), (''Common:interval_len'', ''1''), (''Common:key_len'', ''104''),
     (''SketchLearn:width'', ''3''), (''SketchLearn:depth'', ''2'')]"

definition demo_ovs_ini :: "(string \<times> string) list iniparser" where
  "demo_ovs_ini = assoc_ini\<lparr>iniparser_load := (\<lambda>name. Some demo_ovs_dict)\<rparr>"

lemma demo_ovs_values:
  "Config_Init demo_ovs_ini (Some c) = Inr \<lparr>dict = demo_ovs_dict\<rparr>" "atoi ''2'' = Inr 2"
  "conf_common_trace_dir demo_ovs_ini \<lparr>dict = demo_ovs_dict\<rparr> = Inr (Some ''d'')"
  "conf_common_is_output demo_ovs_ini \<lparr>dict = demo_ovs_dict\<rparr> = Inr 1"
  "conf_common_is_pin_cpu demo_ovs_ini \<lparr>dict = demo_ovs_dict\<rparr> = Inr 0"
  "conf_common_interval_len demo_ovs_ini \<lparr>dict = demo_ovs_dict\<rparr> = Inr 1"
  "conf_common_key_len demo_ovs_ini \<lparr>dict = demo_ovs_dict\<rparr> = Inr 104"
  "conf_skl_width demo_ovs_ini \<lparr>dict = demo_ovs_dict\<rparr> = Inr 3"
  "conf_skl_depth demo_ovs_ini \<lparr>dict = demo_ovs_dict\<rparr> = Inr 2"
  "sprintf_100 (parse_fmt ''%s/sketches_ovs'') [StrArg ''d''] = Inr ''d/sketches_ovs''"
  by (simp add: demo_ovs_ini_def Config_Init_def) code_simp+

lemma demo_ovs_sketch: "\<exists>s g. sketch_of_conf demo_ovs_ini \<lparr>dict = demo_ovs_dict\<rparr> 7 glob = Inr (s, g) \<and> lgn s = 104"
proof -
  have "calc_next_prime 3 = Inr 3" by code_simp
  then have "\<exists>s g. SKL_Init 7 glob 3 2 104 = Inr (s, g) \<and> lgn s = 104"
    by (simp add: SKL_Init_def Let_def INT_MAX_def split: prod.split)
  moreover have "sint (104 :: i32) = 104" "sint (3 :: i32) = 3" "sint (2 :: i32) = 2" by simp_all
  ultimately show ?thesis by (simp add: sketch_of_conf_def demo_ovs_values)
qed

lemma demo_ovs_start:
  "\<exists>ws. dp_ovs demo_ovs_ini (\<lambda>p. True) 7 [''dp_ovs'', ''conf'', ''2''] = Inr (demo_env, ws, 1, ovs_init) \<and>
    length ws = 2 \<and> (\<forall>w \<in> set ws. lgn (dp_skl w) = 104)"
proof -
  let ?conf = "\<lparr>dict = demo_ovs_dict\<rparr>"
  obtain s g where s: "sketch_of_conf demo_ovs_ini ?conf 7 0 = Inr (s, g)" "lgn s = 104" using demo_ovs_sketch by blast
  obtain s' g' where s': "sketch_of_conf demo_ovs_ini ?conf 7 g = Inr (s', g')" "lgn s' = 104" using demo_ovs_sketch by blast
  have "start_workers demo_ovs_ini ?conf 7 False 2 = Inr ([dp_init s, dp_init s'], g')"
    by (simp add: start_workers_def numeral_2_eq_2 s s' pin_if_def)
  then show ?thesis using s(2) s'(2) demo_ovs_values
    by (simp add: dp_ovs_def pin_if_def str_arg_def demo_env_def dp_init_def)
qed

lemma demo_ovs_loop:
  "\<exists>st'. ovs_loop 1 2 ovs_init [zero_tuple, zero_tuple, zero_tuple] =
    Inr ([[OWrite 0 zero_tuple], [OWrite 1 zero_tuple], ovs_punc 2 @ [OWrite 0 zero_tuple]], st')"
  by (simp add: ovs_step_def ovs_init_def Let_def)

lemma dp_ovs_run_witness:
  "\<exists>ws st' ass n p w. dp_ovs demo_ovs_ini (\<lambda>p. True) 7 [''dp_ovs'', ''conf'', ''2''] = Inr (demo_env, ws, 1, ovs_init) \<and>
    ovs_loop 1 (length ws) ovs_init [zero_tuple, zero_tuple, zero_tuple] = Inr (ass, st') \<and>
    (ovs_pool_step demo_env ^^ n) (ovs_pool ws ass) p \<and> n \<le> 18 \<and> plan p = [] \<and>
    wk (stations p ! 1) = Running w \<and>
    dp_files w = [(''d/sketches_ovs/sketchlearn_0'', SKL_Print (group_sketch (dp_skl (ws ! 1)) []))]"
proof -
  obtain ws where ws: "dp_ovs demo_ovs_ini (\<lambda>p. True) 7 [''dp_ovs'', ''conf'', ''2''] = Inr (demo_env, ws, 1, ovs_init)"
    "length ws = 2" "\<forall>w \<in> set ws. lgn (dp_skl w) = 104" using demo_ovs_start by blast
  let ?ass = "[[OWrite 0 zero_tuple], [OWrite 1 zero_tuple], ovs_punc 2 @ [OWrite 0 zero_tuple]]"
  obtain st' where l: "ovs_loop 1 (length ws) ovs_init [zero_tuple, zero_tuple, zero_tuple] = Inr (?ass, st')"
    using demo_ovs_loop ws(2) by auto
  have e: "ended ?ass = 1" by (simp add: ended_def length_punc)
  have path: "ovs_path demo_env 0 = Inr ''d/sketches_ovs/sketchlearn_0''" by code_simp
  then have p: "ovs_paths_ok demo_env (ended ?ass)" unfolding ovs_paths_ok_def e by (simp add: demo_env_def)
  have h: "\<forall>w \<in> set ws. 8 dvd lgn (dp_skl w) \<and> lgn (dp_skl w) \<le> 104" "env_output demo_env"
    "\<forall>t \<in> set [zero_tuple, zero_tuple, zero_tuple]. flag t = TUPLE_NORMAL"
    using ws(3) by (simp_all add: demo_env_def zero_tuple_def TUPLE_NORMAL_def)
  note run = dp_ovs_run [OF ws(1) h(1,2) l h(3) p]
  have len: "length (concat ?ass) = 9" by (simp add: length_punc)
  have "n \<le> 18 \<and> (plan p = [] \<or> (\<exists>q. ovs_pool_step demo_env p q))"
    if "(ovs_pool_step demo_env ^^ n) (ovs_pool ws ?ass) p" for n p using run [OF that] unfolding len by simp
  from bounded_run_ends [of "ovs_pool_step demo_env" "ovs_pool ws ?ass" 18 "\<lambda>p. plan p = []", OF this]
  obtain n p where np: "(ovs_pool_step demo_env ^^ n) (ovs_pool ws ?ass) p" "plan p = []"
    by (auto dest: rtranclp_imp_relpowp)
  note r = run [OF np(1), unfolded len e]
  then have "n \<le> 18" by simp
  moreover from r [THEN conjunct2, THEN conjunct2, rule_format, of 1] np(2) ws(2) obtain w where
    "wk (stations p ! 1) = Running w"
    "dp_files w = map (\<lambda>k. (projr (ovs_path demo_env (of_nat k)), SKL_Print (group_sketch (dp_skl (ws ! 1)) []))) [0..<1]" by auto
  moreover then have "dp_files w = [(''d/sketches_ovs/sketchlearn_0'', SKL_Print (group_sketch (dp_skl (ws ! 1)) []))]"
    using path by simp
  ultimately show ?thesis using ws(1) l np by (intro exI [of _ ws] exI [of _ st'] exI [of _ ?ass] exI [of _ n] exI [of _ p] exI [of _ w]) simp
qed

section \<open>A record with the flag of the end\<close>

text \<open>A worker posts only for the end of an interval, and does not go on after \<open>TUPLE_TERM\<close>.\<close>

lemma posts_le_puncs: "snd (run_worker (ovs_handler env) r xs) \<le> puncs xs"
proof (induction "ovs_handler env" r xs rule: run_worker.induct)
  case (1 w x xs)
  show ?case
  proof (cases "ovs_handler env w x")
    case (Go w' n)
    then have "n = (if flag x = TUPLE_PUNC then 1 else 0)"
      by (auto simp: ovs_handler_def TUPLE_TERM_def TUPLE_PUNC_def split: if_splits sum.splits)
    then show ?thesis using 1 [OF Go] Go by (auto simp: puncs_def case_prod_beta Let_def)
  qed simp_all
qed simp_all

lemma term_ends:
  assumes "flag x = TUPLE_TERM"
  shows "fst (run_worker (ovs_handler env) r (xs @ [x])) \<noteq> Running w"
proof (cases "run_worker (ovs_handler env) r xs")
  case (Pair r1 n)
  show ?thesis
  proof (cases r1)
    case (Running v)
    then show ?thesis using ovs.on_term [OF assms, of env v] Pair by (auto simp: run_worker_append)
  qed (use Pair in \<open>simp_all add: run_worker_append run_worker_done\<close>)
qed

lemma ovs_loop_append:
  "ovs_loop len n st (us @ vs) = rbind (ovs_loop len n st us) (\<lambda>(as, st1).
    rbind (ovs_loop len n st1 vs) (\<lambda>(bs, st2). Inr (as @ bs, st2)))"
proof (induction us arbitrary: st)
  case (Cons t us)
  show ?case
  proof (cases "ovs_step len n st t")
    case (Inr r)
    obtain as st1 where r: "r = (as, st1)" by fastforce
    show ?thesis
      by (cases "ovs_loop len n st1 us") (auto simp: Inr r Cons.IH rbind_def split: sum.splits)
  qed simp
qed (auto simp: rbind_def split: sum.splits)

lemma no_puncs:
  assumes "ovs_loop len n st ts = Inr (ass, st')" "i < n" "\<forall>t \<in> set ts. flag t \<noteq> TUPLE_PUNC"
  shows "puncs (writes (share i (map pool_act (concat ass)))) = ended ass"
    "waits (share i (map pool_act (concat ass))) = ended ass"
proof -
  from ovs_loop_share [OF assms(1,2)] obtain g pgs where s: "share i (map pool_act (concat ass)) = actions g pgs"
    "length pgs = ended ass" "set g \<subseteq> set ts" "\<forall>(p, h) \<in> set pgs. flag p = TUPLE_PUNC \<and> set h \<subseteq> set ts" by blast
  have "\<forall>t \<in> set g. flag t \<noteq> TUPLE_PUNC" "\<forall>(p, h) \<in> set pgs. flag p = TUPLE_PUNC \<and> (\<forall>t \<in> set h. flag t \<noteq> TUPLE_PUNC)"
    using s(3,4) assms(3) by fastforce+
  note puncs_records [OF this]
  then show "puncs (writes (share i (map pool_act (concat ass)))) = ended ass"
    "waits (share i (map pool_act (concat ass))) = ended ass" by (simp_all add: s(1,2))
qed

text \<open>C33: one record with the flag of the end silences the data plane. The kernel never sets the flag of
  a record. When one happens to carry \<open>TUPLE_TERM\<close>, it ends the worker it is dealt to, and if an interval
  ends after it, no run of the threads gets through the actions: the main thread waits for that worker for
  ever.\<close>

theorem ovs_term_hangs:
  assumes "ovs_loop len (length ws) st (us @ x # vs) = Inr (ass, st')" "flag x = TUPLE_TERM"
    and "\<forall>t \<in> set (us @ vs). flag t = TUPLE_NORMAL" "ended (drop (Suc (length us)) ass) \<noteq> 0"
    and "(ovs_pool_step env ^^ n) (ovs_pool ws ass) p"
  shows "plan p \<noteq> []"
proof
  assume pl: "plan p = []"
  from assms(1) obtain as st1 ax st2 bs where l: "ovs_loop len (length ws) st us = Inr (as, st1)"
    "ovs_step len (length ws) st1 x = Inr (ax, st2)" "ovs_loop len (length ws) st2 vs = Inr (bs, st')" "ass = as @ ax # bs"
    by (auto simp: ovs_loop_append)
  let ?i = "o_index st1" and ?n = "length ws"
  let ?a = "share ?i (map pool_act (concat (as @ [ax])))" and ?b = "share ?i (map pool_act (concat bs))"
  have i: "?i < ?n" and axs: "ax = [OWrite ?i x] \<or> ax = ovs_punc ?n @ [OWrite ?i x]" using ovs_step_acts [OF l(2)] by auto
  have len: "length as = length us" using l(1) by (induction us arbitrary: st as) auto
  have tag: "flag x \<noteq> TUPLE_PUNC" "TUPLE_NORMAL \<noteq> TUPLE_PUNC" by (simp_all add: assms(2) TUPLE_TERM_def TUPLE_PUNC_def TUPLE_NORMAL_def)
  have "ovs_loop len ?n st (us @ [x]) = Inr (as @ [ax], st2)" using l(1,2) by (simp add: ovs_loop_append)
  note front = no_puncs [OF this i] and rear = no_puncs [OF l(3) i]
  obtain xs where xs: "writes ?a = xs @ [x]" using axs by auto
  from ovs_pipe.pool_worker [OF assms(5) [unfolded ovs_pool_def] rb_inv_create rb_contents_create i] pl
  obtain del rest k where d: "writes (?a @ ?b) = del @ rest" "waits (?a @ ?b) \<le> k"
    "run_worker (ovs_handler env) (Running (ws ! ?i)) del = (wk (stations p ! ?i), k)" by (auto simp: l(4))
  have "k \<le> puncs (writes ?a)"
  proof (cases "length del \<le> length (writes ?a)")
    case True
    then obtain ys where "writes ?a = del @ ys" using d(1) by (metis append_eq_append_conv_if append_take_drop_id writes_append)
    then show ?thesis using posts_le_puncs [of env "Running (ws ! ?i)" del] d(3) by (simp add: puncs_def)
  next
    case False
    then obtain ys where del: "del = writes ?a @ ys" using d(1) by (auto simp: append_eq_append_conv2)
    obtain r m where r: "run_worker (ovs_handler env) (Running (ws ! ?i)) (writes ?a) = (r, m)" by fastforce
    have "\<not> (\<exists>w. r = Running w)" using term_ends [OF assms(2), of env "Running (ws ! ?i)" xs] r xs by auto
    then have "run_worker (ovs_handler env) (Running (ws ! ?i)) del = (r, m)"
      unfolding del using run_worker_settled [OF r] by (cases r) auto
    then show ?thesis using posts_le_puncs [of env "Running (ws ! ?i)" "writes ?a"] d(3) r by simp
  qed
  moreover have "puncs (writes ?a) = waits ?a" using front assms(3) tag by simp
  moreover have "waits ?b = ended bs" using rear(2) assms(3) tag by simp
  moreover have "ended bs \<noteq> 0" using assms(4) len l(4) by simp
  ultimately show False using d(2) by simp
qed

lemma ovs_term_hangs_witness:
  "\<exists>ass st'. ovs_loop 1 2 ovs_init [zero_tuple, zero_tuple\<lparr>flag := TUPLE_TERM\<rparr>, zero_tuple] = Inr (ass, st') \<and>
    (\<nexists>n p. (ovs_pool_step demo_env ^^ n) (ovs_pool [dp_init demo_sketch, dp_init demo_sketch] ass) p \<and> plan p = [])"
proof -
  let ?x = "zero_tuple\<lparr>flag := TUPLE_TERM\<rparr>" and ?ws = "[dp_init demo_sketch, dp_init demo_sketch]"
  let ?ass = "[[OWrite 0 zero_tuple], [OWrite 1 ?x], ovs_punc 2 @ [OWrite 0 zero_tuple]]"
  obtain st' where l2: "ovs_loop 1 2 ovs_init [zero_tuple, ?x, zero_tuple] = Inr (?ass, st')"
    by (auto simp: ovs_step_def ovs_init_def Let_def)
  then have l: "ovs_loop 1 (length ?ws) ovs_init ([zero_tuple] @ ?x # [zero_tuple]) = Inr (?ass, st')"
    by (simp only: append.simps list.size One_nat_def add_0 add_0_right add_Suc_right numeral_2_eq_2 plus_1_eq_Suc)
  have h: "flag ?x = TUPLE_TERM" "\<forall>t \<in> set ([zero_tuple] @ [zero_tuple]). flag t = TUPLE_NORMAL"
    "ended (drop (Suc (length [zero_tuple])) ?ass) \<noteq> 0"
    by (simp_all add: zero_tuple_def TUPLE_NORMAL_def ended_def length_punc)
  have "plan p \<noteq> []" if "(ovs_pool_step demo_env ^^ n) (ovs_pool ?ws ?ass) p" for n p
    by (rule ovs_term_hangs [OF l h that])
  then show ?thesis using l2 by blast
qed

end
