(* ===== verification/Shared_Ring.thy ===== *)
theory Shared_Ring
  imports Ring_Buffer Adapter
begin

text \<open>
  The ring buffer in shared memory, byte by byte. \<open>byte ringbuffer\<close> is a region: the index fields of
  \<open>struct RBMeta\<close>, and as \<open>data\<close> all memory after it. Where the slots begin in that memory depends on
  who looks: \<^verbatim>\<open>ringbuffer.c\<close> puts them right after \<open>struct RBMeta\<close>, the kernel's own copy
  \<^verbatim>\<open>openvswitch/datapath/ringbuffer.c\<close> leaves room for \<open>struct RBAppro\<close> first. A ring whose two ends
  agree implements the ring of slots of \<open>Ring_Buffer\<close>; between the kernel and a process they do not.
\<close>

section \<open>Layout\<close>

text \<open>Four cache lines; twelve \<open>unsigned long long\<close> and a pointer; the packed \<open>tuple_t\<close>.\<close>

definition sizeof_RBMeta :: nat where
  "sizeof_RBMeta = 64 + (4 + 4 + (64 - 2 * 4)) + (4 + 4 + 4 + (64 - 3 * 4)) + (4 + 4 + 4 + (64 - 3 * 4))"

definition sizeof_RBAppro :: nat where
  "sizeof_RBAppro = 12 * 8 + 8"

text \<open>The \<open>i\<close>-th slot of \<open>sz\<close> bytes when the slots begin at \<open>off\<close>.\<close>

definition slot :: "nat \<Rightarrow> nat \<Rightarrow> byte list \<Rightarrow> nat \<Rightarrow> byte list" where
  "slot off sz mem i = take sz (drop (off + sz * i) mem)"

section \<open>Operations on the bytes\<close>

text \<open>\<open>create_ringbuffer_shm\<close> gives the new region the size of the meta data and \<open>RB_SIZE\<close> slots.\<close>

definition create_shm :: "nat \<Rightarrow> byte ringbuffer" where
  "create_shm sz =
     \<lparr>readIndex = 0, writeIndex = 0, localWriteIndex = 0, nextReadIndex = 0, rBatchCount = 0,
      localReadIndex = 0, nextWriteIndex = 0, wBatchCount = 0, data = replicate (nat RB_SIZE * sz) 0\<rparr>"

definition write_shm :: "nat \<Rightarrow> nat \<Rightarrow> byte ringbuffer \<Rightarrow> byte list \<Rightarrow> int \<times> byte ringbuffer" where
  "write_shm off sz rb d =
     (let afterNextWriteIndex = nextVal (nextWriteIndex rb) in
      if afterNextWriteIndex = localReadIndex rb \<and> afterNextWriteIndex = readIndex rb
      then (- 1, rb)
      else
        let rb = (if afterNextWriteIndex = localReadIndex rb
                  then rb\<lparr>localReadIndex := readIndex rb\<rparr> else rb);
            rb = rb\<lparr>data := store (data rb) (off + sz * nat (nextWriteIndex rb)) d\<rparr>;
            rb = rb\<lparr>nextWriteIndex := afterNextWriteIndex\<rparr>;
            rb = rb\<lparr>wBatchCount := wBatchCount rb + 1\<rparr>
        in if wBatchCount rb \<ge> RB_BATCH
           then (0, rb\<lparr>writeIndex := nextWriteIndex rb, wBatchCount := 0\<rparr>)
           else (0, rb))"

definition read_shm :: "nat \<Rightarrow> nat \<Rightarrow> byte ringbuffer \<Rightarrow> byte list \<Rightarrow> int \<times> byte list \<times> byte ringbuffer" where
  "read_shm off sz rb buf =
     (if nextReadIndex rb = localWriteIndex rb \<and> nextReadIndex rb = writeIndex rb
      then (- 1, buf, rb)
      else
        let rb = (if nextReadIndex rb = localWriteIndex rb
                  then rb\<lparr>localWriteIndex := writeIndex rb\<rparr> else rb);
            d = slot off sz (data rb) (nat (nextReadIndex rb));
            rb = rb\<lparr>nextReadIndex := nextVal (nextReadIndex rb)\<rparr>;
            rb = rb\<lparr>rBatchCount := rBatchCount rb + 1\<rparr>
        in if rBatchCount rb \<ge> RB_BATCH
           then (0, d, rb\<lparr>readIndex := nextReadIndex rb, rBatchCount := 0\<rparr>)
           else (0, d, rb))"

section \<open>The ring of slots\<close>

definition slots_of :: "nat \<Rightarrow> nat \<Rightarrow> byte ringbuffer \<Rightarrow> byte list ringbuffer" where
  "slots_of off sz rb =
     \<lparr>readIndex = readIndex rb, writeIndex = writeIndex rb, localWriteIndex = localWriteIndex rb,
      nextReadIndex = nextReadIndex rb, rBatchCount = rBatchCount rb, localReadIndex = localReadIndex rb,
      nextWriteIndex = nextWriteIndex rb, wBatchCount = wBatchCount rb,
      data = map (slot off sz (data rb)) [0..<2000]\<rparr>"

text \<open>The region has room for the slots and the indices are in range.\<close>

definition shm_ok :: "nat \<Rightarrow> nat \<Rightarrow> byte ringbuffer \<Rightarrow> bool" where
  "shm_ok off sz rb \<longleftrightarrow> off + sz * 2000 \<le> length (data rb) \<and>
     0 \<le> nextWriteIndex rb \<and> nextWriteIndex rb < 2000 \<and> 0 \<le> nextReadIndex rb \<and> nextReadIndex rb < 2000"

lemma slots_of_sel [simp]:
  "readIndex (slots_of off sz rb) = readIndex rb" "writeIndex (slots_of off sz rb) = writeIndex rb"
  "localWriteIndex (slots_of off sz rb) = localWriteIndex rb" "nextReadIndex (slots_of off sz rb) = nextReadIndex rb"
  "rBatchCount (slots_of off sz rb) = rBatchCount rb" "localReadIndex (slots_of off sz rb) = localReadIndex rb"
  "nextWriteIndex (slots_of off sz rb) = nextWriteIndex rb" "wBatchCount (slots_of off sz rb) = wBatchCount rb"
  "data (slots_of off sz rb) = map (slot off sz (data rb)) [0..<2000]"
  by (simp_all add: slots_of_def)

lemma nextVal_range: "0 \<le> x \<Longrightarrow> 0 \<le> nextVal x \<and> nextVal x < 2000"
  by (simp add: nextVal_def RB_SIZE_def)

text \<open>Slots do not overlap: a store into one of them changes no other.\<close>

lemma length_store: "p + length d \<le> length mem \<Longrightarrow> length (store mem p d) = length mem"
  by (simp add: store_def)

lemma nth_store:
  "p + length d \<le> length mem \<Longrightarrow> k < length mem \<Longrightarrow>
    store mem p d ! k = (if p \<le> k \<and> k < p + length d then d ! (k - p) else mem ! k)"
  by (auto simp: store_def nth_append min_def)

lemma slot_nth:
  "off + sz * Suc i \<le> length mem \<Longrightarrow> k < sz \<Longrightarrow> slot off sz mem i ! k = mem ! (off + sz * i + k)"
  by (simp add: slot_def)

lemma length_slot: "off + sz * Suc i \<le> length mem \<Longrightarrow> length (slot off sz mem i) = sz"
  by (simp add: slot_def)

lemma slot_end: "i < n \<Longrightarrow> sz * i + sz \<le> sz * (n :: nat)"
  using mult_le_mono2 [of "Suc i" n sz] by (simp only: Suc_le_eq mult_Suc_right add.commute)

lemma slot_store:
  assumes "off + sz * n \<le> length mem" "length d = sz" "i < n" "j < n"
  shows "slot off sz (store mem (off + sz * i) d) j = (if j = i then d else slot off sz mem j)"
proof -
  have b: "off + sz * Suc k \<le> length mem" if "k < n" for k
    using slot_end [OF that, of sz] assms(1) by simp
  have p: "off + sz * i + length d \<le> length mem" using b [OF assms(3)] assms(2) by simp
  note ls = length_store [OF p]
  show ?thesis
  proof (rule nth_equalityI)
    show "length (slot off sz (store mem (off + sz * i) d) j) = length (if j = i then d else slot off sz mem j)"
      using b [OF assms(4)] assms(2) by (simp add: length_slot ls)
    fix k assume "k < length (slot off sz (store mem (off + sz * i) d) j)"
    then have k: "k < sz" using b [OF assms(4)] by (simp add: length_slot ls)
    have n: "off + sz * j + k < length mem" using b [OF assms(4)] k by simp
    have "sz * i \<le> sz * j + k \<and> sz * j + k < sz * i + sz \<longleftrightarrow> j = i"
    proof
      assume a: "sz * i \<le> sz * j + k \<and> sz * j + k < sz * i + sz"
      have "(sz * j + k) div sz = j" using k by simp
      moreover have "(sz * j + k) div sz = i" using a by (intro div_nat_eqI) (simp_all add: algebra_simps)
      ultimately show "j = i" by simp
    qed (use k in simp)
    then show "slot off sz (store mem (off + sz * i) d) j ! k = (if j = i then d else slot off sz mem j) ! k"
      using b [OF assms(4)] k n nth_store [OF p n] assms(2) by (auto simp: slot_nth ls)
  qed
qed

section \<open>The bytes implement the slots\<close>

lemma write_shm_slots:
  assumes "shm_ok off sz rb" "length d = sz"
  shows "write_ringbuffer (slots_of off sz rb) d = map_prod id (slots_of off sz) (write_shm off sz rb d) \<and>
    shm_ok off sz (snd (write_shm off sz rb d)) \<and> length (data (snd (write_shm off sz rb d))) = length (data rb)"
proof -
  define w where "w = nat (nextWriteIndex rb)"
  have o: "off + sz * 2000 \<le> length (data rb)" and w: "w < 2000" "0 \<le> nextWriteIndex rb"
    using assms(1) by (simp_all add: shm_ok_def w_def nat_less_iff)
  have "off + sz * w + length d \<le> length (data rb)"
    using slot_end [OF w(1), of sz] o assms(2) by linarith
  then have l: "length (store (data rb) (off + sz * w) d) = length (data rb)" by (rule length_store)
  have m: "map (slot off sz (store (data rb) (off + sz * w) d)) [0..<2000] = (map (slot off sz (data rb)) [0..<2000])[w := d]"
    by (rule nth_equalityI) (use slot_store [OF o assms(2) w(1)] in \<open>simp_all add: nth_list_update\<close>)
  show ?thesis using assms(1) l m nextVal_range [OF w(2)]
    by (simp add: write_ringbuffer_def write_shm_def Let_def shm_ok_def w_def [symmetric] slots_of_def)
qed

lemma read_shm_slots:
  assumes "shm_ok off sz rb" "read_shm off' sz rb b = (r, d, rb')"
  shows "fst (read_ringbuffer (slots_of off sz rb) b) = r"
    and "snd (snd (read_ringbuffer (slots_of off sz rb) b)) = slots_of off sz rb'"
    and "shm_ok off sz rb'" "data rb' = data rb"
    and "r = 0 \<Longrightarrow> d = slot off' sz (data rb) (nat (nextReadIndex rb))"
    and "off' = off \<Longrightarrow> read_ringbuffer (slots_of off sz rb) b = (r, d, slots_of off sz rb')"
  using assms
  by (auto simp: read_ringbuffer_def read_shm_def Let_def shm_ok_def slots_of_def nextVal_range nat_less_iff
      split: if_splits)

lemma flush_shm_slots: "flush_ringbuffer (slots_of off sz rb) = slots_of off sz (flush_ringbuffer rb)"
  by (simp add: flush_ringbuffer_def slots_of_def)

lemma shm_ok_flush [simp]: "shm_ok off sz (flush_ringbuffer rb) = shm_ok off sz rb"
  by (simp add: shm_ok_def flush_ringbuffer_def)

text \<open>The writes of a run store whole slots.\<close>

definition whole_slots :: "nat \<Rightarrow> byte list chan_op list \<Rightarrow> bool" where
  "whole_slots sz ops \<longleftrightarrow> (\<forall>d. Send d \<in> set ops \<longrightarrow> length d = sz)"

lemma whole_slots_Cons: "whole_slots sz (op # ops) \<longleftrightarrow>
    (case op of Send d \<Rightarrow> length d = sz | _ \<Rightarrow> True) \<and> whole_slots sz ops"
  by (auto simp: whole_slots_def split: chan_op.split)

lemma shm_run:
  "shm_ok off sz rb \<Longrightarrow> whole_slots sz ops \<Longrightarrow>
    chan_run (write_shm off sz) (read_shm off sz) flush_ringbuffer b ops (rb, acc, del) = (rb', acc', del') \<Longrightarrow>
    chan_run write_ringbuffer read_ringbuffer flush_ringbuffer b ops (slots_of off sz rb, acc, del) =
      (slots_of off sz rb', acc', del')"
proof (induction ops arbitrary: rb acc del)
  case (Cons op ops)
  show ?case
  proof (cases op)
    case (Send d)
    then have d: "length d = sz" "whole_slots sz ops" using Cons.prems(2) by (simp_all add: whole_slots_Cons)
    obtain r rb1 where w: "write_shm off sz rb d = (r, rb1)" by fastforce
    from write_shm_slots [OF Cons.prems(1) d(1)] w have
      "write_ringbuffer (slots_of off sz rb) d = (r, slots_of off sz rb1)" "shm_ok off sz rb1" by simp_all
    then show ?thesis using Cons.IH [OF _ d(2)] Cons.prems(3) Send w by (auto split: if_splits)
  next
    case Recv
    obtain r d rb1 where r: "read_shm off sz rb b = (r, d, rb1)" by (metis prod_cases3)
    note s = read_shm_slots [OF Cons.prems(1) r]
    show ?thesis using Cons.IH [OF s(3)] Cons.prems(2,3) Recv r s(6) by (auto simp: whole_slots_Cons split: if_splits)
  next
    case Flush
    then show ?thesis using Cons.IH [of "flush_ringbuffer rb"] Cons.prems
      by (simp add: whole_slots_Cons flush_shm_slots)
  qed
qed simp

lemma create_shm_slots: "shm_ok 0 sz (create_shm sz)" "slots_of 0 sz (create_shm sz) = create_ringbuffer (replicate sz 0)"
proof -
  show "shm_ok 0 sz (create_shm sz)" by (simp add: shm_ok_def create_shm_def RB_SIZE_def mult.commute)
  have "slot 0 sz (replicate (2000 * sz) 0) i = replicate sz 0" if "i < 2000" for i
  proof -
    define p where "p = sz * i"
    have "p + sz \<le> 2000 * sz" using slot_end [OF that, of sz] unfolding p_def by linarith
    then show ?thesis by (simp add: slot_def p_def [symmetric])
  qed
  then show "slots_of 0 sz (create_shm sz) = create_ringbuffer (replicate sz 0)"
    by (simp add: slots_of_def create_shm_def create_ringbuffer_def RB_SIZE_def list_eq_iff_nth_eq)
qed

text \<open>C14: the shared memory is the queue. On the region that \<open>create_ringbuffer_shm\<close> sets up, byte by byte,
  with writes of \<open>tuple_size\<close> bytes: in every order of writes, reads and flushes of the two processes,
  the byte strings accepted are those delivered, unchanged and in order, followed by the slots still
  in use: no store touches another slot.\<close>

theorem shm_ring_fifo:
  assumes "chan_run (write_shm 0 sz) (read_shm 0 sz) flush_ringbuffer b ops (create_shm sz, [], []) = (rb, accepted, delivered)"
    and "\<forall>d. Send d \<in> set ops \<longrightarrow> length d = sz"
  shows "accepted = delivered @ rb_contents (slots_of 0 sz rb) \<and> length (rb_contents (slots_of 0 sz rb)) \<le> 1999"
proof -
  note run = shm_run [OF create_shm_slots(1) _ assms(1), unfolded whole_slots_def create_shm_slots(2), OF assms(2)]
  have "rb_inv (slots_of 0 sz rb) \<and> accepted = delivered @ rb_contents (slots_of 0 sz rb)"
    by (rule ring.run_fifo [OF rb_inv_create _ run]) simp
  then show ?thesis using rb_capacity by blast
qed

lemma shm_ring_fifo_witness:
  "\<exists>rb. chan_run (write_shm 0 2) (read_shm 0 2) flush_ringbuffer [] [Send [1, 2], Send [3, 4], Flush, Recv]
      (create_shm 2, [], []) = (rb, [[1, 2], [3, 4]], [[1, 2]]) \<and> [[1, 2], [3, 4]] = [[1, 2]] @ rb_contents (slots_of 0 2 rb)"
proof -
  obtain rb accepted delivered where run: "chan_run (write_shm 0 2) (read_shm 0 2) flush_ringbuffer []
      [Send [1, 2], Send [3, 4], Flush, Recv] (create_shm 2, [], []) = (rb, accepted, delivered)" by (metis prod_cases3)
  then have ad: "accepted = [[1, 2], [3, 4]]" "delivered = [[1, 2]]"
    by (simp_all add: write_shm_def read_shm_def flush_ringbuffer_def create_shm_def nextVal_def RB_SIZE_def
        RB_BATCH_def Let_def slot_def store_def)
  have "\<forall>d. Send d \<in> set [Send [1, 2], Send [3, 4], Flush, Recv] \<longrightarrow> length d = (2 :: nat)" by auto
  from shm_ring_fifo [OF run this] run ad show ?thesis by auto
qed

end
