(* ===== verification/Ovs_Hook.thy ===== *)
theory Ovs_Hook
  imports Shared_Ring
begin

text \<open>
  The measurement hooks that the program adds to Open vSwitch: in
  \<^verbatim>\<open>openvswitch/datapath/datapath.c\<close> the device \<open>/dev/sketchvisor\<close> and the end of
  \<open>ovs_dp_process_packet\<close>, in \<^verbatim>\<open>openvswitch/lib/dpif-netdev.c\<close> the lines of \<open>emc_processing\<close> for DPDK.
  The switch itself is not modelled: a packet is what the hook reads of it. The ring is a region of
  \<open>Shared_Ring\<close>, where the kernel's slots begin after \<open>struct RBAppro\<close>.
\<close>

section \<open>The region of the kernel\<close>

definition page_align :: "nat \<Rightarrow> nat \<Rightarrow> nat" where
  "page_align pg n = (n + pg - 1) div pg * pg"

text \<open>\<open>mmap_alloc\<close> when the memory is there: zeroed pages.\<close>

definition mmap_alloc :: "nat \<Rightarrow> nat \<Rightarrow> byte list" where
  "mmap_alloc pg n = replicate (page_align pg n) 0"

text \<open>\<open>device_mmap\<close> maps the region from its beginning, unless more is asked for than there is.\<close>

definition device_mmap :: "nat \<Rightarrow> nat \<Rightarrow> nat \<Rightarrow> int" where
  "device_mmap pg mmap_size len = (if mmap_size < page_align pg len then - 22 else 0)"

definition create_ringbuffer_kshm :: "byte list \<Rightarrow> nat \<Rightarrow> byte ringbuffer" where
  "create_ringbuffer_kshm mem sz =
     \<lparr>readIndex = 0, writeIndex = 0, localWriteIndex = 0, nextReadIndex = 0, rBatchCount = 0,
      localReadIndex = 0, nextWriteIndex = 0, wBatchCount = 0,
      data = store (drop sizeof_RBMeta mem) sizeof_RBAppro (replicate (nat RB_SIZE * sz) 0)\<rparr>"

text \<open>The ring as \<open>dp_init\<close> sets it up.\<close>

definition kernel_ring :: "nat \<Rightarrow> byte ringbuffer" where
  "kernel_ring pg = create_ringbuffer_kshm (mmap_alloc pg (sizeof_RBMeta + sizeof_RBAppro + 26 * nat RB_SIZE)) 26"

section \<open>The hook of the kernel module\<close>

definition KM_START :: u64 where "KM_START = 1"
definition KM_STOP :: u64 where "KM_STOP = 2"
definition KM_TAIL :: u64 where "KM_TAIL = 3"

record kmod =
  km_start :: u64
  km_cur :: u64
  km_rb :: "byte ringbuffer"

text \<open>What the hook reads of the flow key of a packet, in network byte order, and of its buffer.\<close>

record packet_key =
  pk_eth_type :: u16
  pk_src :: u32
  pk_dst :: u32
  pk_tp_src :: u16
  pk_tp_dst :: u16
  pk_proto :: byte
  pk_len :: u32

definition ntohs :: "u16 \<Rightarrow> u16" where
  "ntohs w = le_word (rev (le_bytes 2 w))"

definition ntohl :: "u32 \<Rightarrow> u32" where
  "ntohl w = le_word (rev (le_bytes 4 w))"

definition device_ioctl :: "u64 \<Rightarrow> kmod \<Rightarrow> kmod" where
  "device_ioctl param st =
     (if param = KM_START then st\<lparr>km_cur := 0, km_start := KM_START\<rparr>
      else if param = KM_STOP then st\<lparr>km_start := KM_TAIL\<rparr>
      else st)"

text \<open>The record of a packet: \<open>stack\<close> is what the stack frame holds, the flag and the time stamp are not set.\<close>

definition hook_tuple :: "tuple_t \<Rightarrow> packet_key \<Rightarrow> tuple_t" where
  "hook_tuple stack p =
     stack\<lparr>tkey := \<lparr>src_ip = ntohl (pk_src p), dst_ip = ntohl (pk_dst p), src_port = ntohs (pk_tp_src p),
                   dst_port = ntohs (pk_tp_dst p), proto = pk_proto p\<rparr>,
           tsize := pk_len p\<rparr>"

text \<open>
  The end of \<open>ovs_dp_process_packet\<close>. The result of a write of a record is not looked at; the record
  that ends the measurement is retried until there is room, \<open>None\<close> while the reader makes none. The
  length comes from a buffer that the switch has given away by then; it is taken as still readable.
  The hook runs as a whole: other processors of the switch are not modelled.
\<close>

definition hook_packet :: "tuple_t \<Rightarrow> packet_key \<Rightarrow> kmod \<Rightarrow> kmod option" where
  "hook_packet stack p st =
     (if km_start st = KM_START \<and> ntohs (pk_eth_type p) = 0x0800 then
        Some (st\<lparr>km_cur := km_cur st + 1,
                 km_rb := snd (write_shm sizeof_RBAppro 26 (km_rb st) (tuple_bytes (hook_tuple stack p)))\<rparr>)
      else if km_start st = KM_TAIL then
        (case write_shm sizeof_RBAppro 26 (km_rb st) (tuple_bytes (zero_tuple\<lparr>flag := TUPLE_TERM\<rparr>)) of
           (r, rb') \<Rightarrow> if r < 0 then None
                       else Some (st\<lparr>km_start := KM_STOP, km_rb := flush_ringbuffer rb'\<rparr>))
      else Some st)"

text \<open>
  The two processes together: the switch processes a packet, or the process that has the region mapped
  reads a record into its buffer (\<open>read_shm 0\<close>: its slots begin at the data area).
\<close>

datatype hook_event = Packet tuple_t packet_key | Take "byte list"

fun hook_step :: "hook_event \<Rightarrow> kmod \<Rightarrow> kmod option" where
  "hook_step (Packet stack p) st = hook_packet stack p st"
| "hook_step (Take buf) st = Some (st\<lparr>km_rb := snd (snd (read_shm 0 26 (km_rb st) buf))\<rparr>)"

fun hook_run :: "hook_event list \<Rightarrow> kmod \<Rightarrow> kmod option" where
  "hook_run [] st = Some st"
| "hook_run (e # es) st = (case hook_step e st of None \<Rightarrow> None | Some st1 \<Rightarrow> hook_run es st1)"

section \<open>The hook of DPDK\<close>

text \<open>The record is a static variable that nothing assigns; \<open>None\<close> while the reader makes no room.\<close>

definition dpdk_hook :: "u16 \<Rightarrow> byte ringbuffer \<Rightarrow> byte ringbuffer option" where
  "dpdk_hook ether_type rb =
     (if ether_type = ntohs 0x0800 then
        (case write_shm 0 26 rb (tuple_bytes zero_tuple) of (r, rb') \<Rightarrow> if r < 0 then None else Some rb')
      else Some rb)"

section \<open>The two ends disagree\<close>

lemma sizeofs: "sizeof_RBMeta = 256" "sizeof_RBAppro = 104"
  by (simp_all add: sizeof_RBMeta_def sizeof_RBAppro_def)

lemma page_align_le: "0 < pg \<Longrightarrow> n \<le> page_align pg n"
  using div_mult_mod_eq [of "n + pg - 1" pg] mod_less_divisor [of pg "n + pg - 1"] unfolding page_align_def by linarith

text \<open>Four slots of 26 bytes are the 104 bytes of \<open>struct RBAppro\<close>.\<close>

lemma slot_shift: "slot 0 26 mem (i + 4) = slot sizeof_RBAppro 26 mem i"
  by (simp add: slot_def sizeofs algebra_simps)

text \<open>What the process reads as its record \<open>k\<close>.\<close>

definition late :: "byte list list \<Rightarrow> nat \<Rightarrow> byte list" where
  "late acc k = (if k < 4 then replicate 26 0 else acc ! (k - 4))"

definition kernel_view :: "byte ringbuffer \<Rightarrow> byte list list \<Rightarrow> byte list list \<Rightarrow> bool" where
  "kernel_view rb acc del \<longleftrightarrow> shm_ok sizeof_RBAppro 26 rb \<and> take sizeof_RBAppro (data rb) = replicate sizeof_RBAppro 0 \<and>
     (\<exists>lR pR lW pW. rb_rep (slots_of sizeof_RBAppro 26 rb) lR pR (int (length del)) lW pW (int (length acc))) \<and>
     (\<forall>i < length acc. slot sizeof_RBAppro 26 (data rb) i = acc ! i) \<and>
     (\<forall>k < length del. del ! k = late acc k)"

lemma slot_low: 
  assumes "take sizeof_RBAppro mem = replicate sizeof_RBAppro 0" "k < 4"
  shows "slot 0 26 mem k = replicate 26 0"
proof -
  have "slot 0 26 mem k = take 26 (drop (26 * k) (take 104 mem))"
    using assms(2) by (simp add: slot_def drop_take min_def)
  then show ?thesis using assms by (simp add: sizeofs)
qed

lemma late_append: "k < length acc \<Longrightarrow> late (acc @ [d]) k = late acc k"
  by (auto simp: late_def nth_append)

lemma kernel_view_send:
  assumes "kernel_view rb acc del" "length d = 26" "write_shm sizeof_RBAppro 26 rb d = (r, rb')"
    "length acc < 1999"
  shows "if r = 0 then kernel_view rb' (acc @ [d]) del else rb' = rb"
proof -
  let ?s = "slots_of sizeof_RBAppro 26"
  obtain lR pR lW pW where rep: "rb_rep (?s rb) lR pR (int (length del)) lW pW (int (length acc))"
    and v: "shm_ok sizeof_RBAppro 26 rb" "take sizeof_RBAppro (data rb) = replicate sizeof_RBAppro 0"
    "\<forall>i < length acc. slot sizeof_RBAppro 26 (data rb) i = acc ! i" "\<forall>k < length del. del ! k = late acc k"
    using assms(1) unfolding kernel_view_def by blast
  have "int (length acc) + 1 \<noteq> pR + 2000"
    using rb_rep_order [OF rep] assms(4) unfolding rb_order_def by linarith
  with rb_write_rep [OF rep, of d] obtain rb1 lR' pW' where
    w: "write_ringbuffer (?s rb) d = (0, rb1)" "rb_rep rb1 lR' pR (int (length del)) lW pW' (int (length acc) + 1)"
    "data rb1 = (data (?s rb))[nat (int (length acc) mod 2000) := d]" by auto
  have s: "r = 0" "rb1 = ?s rb'" "shm_ok sizeof_RBAppro 26 rb'"
    using write_shm_slots [OF v(1) assms(2)] assms(3) w(1) by simp_all
  have n: "nat (int (length acc) mod 2000) = length acc" using assms(4) by simp
  have m: "map (slot sizeof_RBAppro 26 (data rb')) [0..<2000] = (map (slot sizeof_RBAppro 26 (data rb)) [0..<2000])[length acc := d]"
    using w(3) s(2) n by simp
  have "slot sizeof_RBAppro 26 (data rb') i = (if i = length acc then d else slot sizeof_RBAppro 26 (data rb) i)"
    if "i < 2000" for i using arg_cong [OF m, of "\<lambda>xs. xs ! i"] that by (simp add: nth_list_update)
  then have "\<forall>i < length (acc @ [d]). slot sizeof_RBAppro 26 (data rb') i = (acc @ [d]) ! i"
    using v(3) assms(4) by (auto simp: nth_append less_Suc_eq)
  moreover have "take sizeof_RBAppro (data rb') = replicate sizeof_RBAppro 0"
    using assms(3) v(1,2) s(1) by (auto simp: write_shm_def Let_def store_def shm_ok_def min_def split: if_splits)
  moreover have "length del \<le> length acc" using rb_rep_order [OF rep] unfolding rb_order_def by linarith
  then have "\<forall>k < length del. del ! k = late (acc @ [d]) k" using v(4) by (simp add: late_append)
  ultimately show ?thesis using s w(2) unfolding kernel_view_def by (auto simp: add.commute)
qed

lemma kernel_view_recv:
  assumes "kernel_view rb acc del" "read_shm 0 26 rb b = (r, d, rb')" "length acc \<le> 1999"
  shows "if r = 0 then kernel_view rb' acc (del @ [d]) else rb' = rb"
proof -
  let ?s = "slots_of sizeof_RBAppro 26"
  obtain lR pR lW pW where rep: "rb_rep (?s rb) lR pR (int (length del)) lW pW (int (length acc))"
    and v: "shm_ok sizeof_RBAppro 26 rb" "take sizeof_RBAppro (data rb) = replicate sizeof_RBAppro 0"
    "\<forall>i < length acc. slot sizeof_RBAppro 26 (data rb) i = acc ! i" "\<forall>k < length del. del ! k = late acc k"
    using assms(1) unfolding kernel_view_def by blast
  note s = read_shm_slots [OF v(1) assms(2)]
  show ?thesis
  proof (cases "r = 0")
    case False
    then show ?thesis using assms(2) by (auto simp: read_shm_def Let_def split: if_splits)
  next
    case True
    with rb_read_rep [OF rep, of b] s(1) have ne: "int (length del) \<noteq> pW" by (auto split: if_splits)
    with rb_read_rep [OF rep, of b] s(2) obtain pR' lW' where
      rep': "rb_rep (?s rb') lR pR' (int (length del) + 1) lW' pW (int (length acc))" by auto
    have lt: "length del < length acc" using ne rb_rep_order [OF rep] unfolding rb_order_def by linarith
    have "nextReadIndex rb = int (length del) mod 2000" using rep by (simp add: rb_rep_def)
    then have "d = slot 0 26 (data rb) (length del)" using s(5) True lt assms(3) by simp
    also have "\<dots> = late acc (length del)"
    proof (cases "length del < 4")
      case True
      then show ?thesis using slot_low [OF v(2)] by (simp add: late_def)
    next
      case False
      then show ?thesis using slot_shift [of "data rb" "length del - 4"] v(3) lt by (simp add: late_def)
    qed
    finally have "\<forall>k < length (del @ [d]). (del @ [d]) ! k = late acc k"
      using v(4) by (auto simp: nth_append less_Suc_eq)
    then show ?thesis using True rep' s(3,4) v(2,3) unfolding kernel_view_def by (auto simp: add.commute)
  qed
qed

lemma kernel_view_flush: "kernel_view rb acc del \<Longrightarrow> kernel_view (flush_ringbuffer rb) acc del"
  using rb_flush_rep [of "slots_of sizeof_RBAppro 26 rb"] unfolding kernel_view_def
  by (auto simp: flush_shm_slots) (simp_all add: flush_ringbuffer_def, blast)

lemma run_accepts: "chan_run send recv flush b ops (s, acc, del) = (s', acc', del') \<Longrightarrow> length acc \<le> length acc'"
proof (induction ops arbitrary: s acc del)
  case (Cons op ops)
  obtain s1 acc1 del1 where c: "chan_step send recv flush op (s, acc, del) b = (s1, acc1, del1)" by (metis prod_cases3)
  then have "length acc \<le> length acc1" by (cases op) (auto split: prod.splits if_splits)
  then show ?case using Cons.IH [of s1 acc1 del1] Cons.prems c by simp
qed simp

lemma kernel_view_run:
  "kernel_view rb acc del \<Longrightarrow> whole_slots 26 ops \<Longrightarrow>
    chan_run (write_shm sizeof_RBAppro 26) (read_shm 0 26) flush_ringbuffer b ops (rb, acc, del) = (rb', acc', del') \<Longrightarrow>
    length acc' \<le> 1999 \<Longrightarrow> kernel_view rb' acc' del'"
proof (induction ops arbitrary: rb acc del)
  case (Cons op ops)
  obtain rb1 acc1 del1 where
    c: "chan_step (write_shm sizeof_RBAppro 26) (read_shm 0 26) flush_ringbuffer op (rb, acc, del) b = (rb1, acc1, del1)"
    by (metis prod_cases3)
  have run: "chan_run (write_shm sizeof_RBAppro 26) (read_shm 0 26) flush_ringbuffer b ops (rb1, acc1, del1) = (rb', acc', del')"
    using Cons.prems(3) c by simp
  have l: "length acc1 \<le> 1999" "length acc \<le> 1999"
    using run_accepts [OF run] run_accepts [OF Cons.prems(3)] Cons.prems(4) by linarith+
  have "kernel_view rb1 acc1 del1"
  proof (cases op)
    case (Send d)
    obtain r rb2 where w: "write_shm sizeof_RBAppro 26 rb d = (r, rb2)" by fastforce
    have d: "length d = 26" using Send Cons.prems(2) by (simp add: whole_slots_Cons)
    show ?thesis
    proof (cases "r = 0")
      case True
      then have "length acc < 1999" using c Send w l(1) by auto
      then show ?thesis using kernel_view_send [OF Cons.prems(1) d w] c Send w True by auto
    next
      case False
      then have "rb2 = rb" using w by (auto simp: write_shm_def Let_def split: if_splits)
      then show ?thesis using c Send w False Cons.prems(1) by auto
    qed
  next
    case Recv
    obtain r d rb2 where "read_shm 0 26 rb b = (r, d, rb2)" by (metis prod_cases3)
    then show ?thesis using kernel_view_recv [OF Cons.prems(1) _ l(2), of b] c Recv Cons.prems(1) by (auto split: if_splits)
  next
    case Flush
    then show ?thesis using c kernel_view_flush [OF Cons.prems(1)] by auto
  qed
  then show ?case using Cons.IH [OF _ _ run Cons.prems(4)] Cons.prems(2) by (simp add: whole_slots_Cons)
qed simp

lemma kernel_ring_view: "0 < pg \<Longrightarrow> kernel_view (kernel_ring pg) [] []"
proof -
  assume "0 < pg"
  then have a: "52360 \<le> page_align pg 52360" by (rule page_align_le)
  define n where "n = page_align pg 52360"
  have "kernel_ring pg = create_ringbuffer_kshm (replicate n 0) 26"
    by (simp add: kernel_ring_def mmap_alloc_def sizeofs RB_SIZE_def n_def)
  moreover have "store (replicate (n - 256) 0) 104 (replicate 52000 0) = (replicate (n - 256) (0 :: byte))"
    using a unfolding n_def [symmetric]
    by (simp add: store_def min_def flip: replicate_add)
  ultimately have d: "data (kernel_ring pg) = replicate (n - 256) 0"
    by (simp add: create_ringbuffer_kshm_def sizeofs RB_SIZE_def)
  have z: "nextWriteIndex (kernel_ring pg) = 0" "nextReadIndex (kernel_ring pg) = 0" "localReadIndex (kernel_ring pg) = 0"
    "readIndex (kernel_ring pg) = 0" "writeIndex (kernel_ring pg) = 0" "localWriteIndex (kernel_ring pg) = 0"
    "wBatchCount (kernel_ring pg) = 0" "rBatchCount (kernel_ring pg) = 0"
    by (simp_all add: kernel_ring_def create_ringbuffer_kshm_def)
  have "rb_rep (slots_of sizeof_RBAppro 26 (kernel_ring pg)) 0 0 0 0 0 0" by (simp add: rb_rep_def rb_order_def z)
  then show ?thesis using a z unfolding kernel_view_def n_def [symmetric] by (auto simp: shm_ok_def d sizeofs min_def)
qed

text \<open>C16: the process reads four records late. Kernel and process compute the address of the slots
  differently, by the size of \<open>struct RBAppro\<close>, which is that of four records. For every order of
  kernel writes and process reads, up to the first 1999 records: as its first four records the
  process gets zero bytes, and as record \<open>k\<close> after them the one the kernel wrote as number \<open>k - 4\<close>;
  so the last four written are never delivered in time. (\<open>device_mmap\<close> accepts the mapping.)\<close>

theorem kshm_reads_late:
  assumes "chan_run (write_shm sizeof_RBAppro 26) (read_shm 0 26) flush_ringbuffer b ops (kernel_ring pg, [], []) =
      (rb, accepted, delivered)"
    and "0 < pg" "\<forall>d. Send d \<in> set ops \<longrightarrow> length d = 26" "length accepted \<le> 1999"
  shows "length delivered \<le> length accepted \<and>
    (\<forall>k < length delivered. delivered ! k = (if k < 4 then replicate 26 0 else accepted ! (k - 4))) \<and>
    device_mmap pg (page_align pg (sizeof_RBMeta + sizeof_RBAppro + 26 * nat RB_SIZE)) (sizeof_RBMeta + 26 * nat RB_SIZE) = 0"
proof -
  have v: "kernel_view rb accepted delivered"
    by (rule kernel_view_run [OF kernel_ring_view [OF assms(2)] _ assms(1,4)]) (use assms(3) in \<open>simp add: whole_slots_def\<close>)
  then have "length delivered \<le> length accepted"
    unfolding kernel_view_def using rb_rep_order by (fastforce simp: rb_order_def)
  moreover have "page_align pg (sizeof_RBMeta + 26 * nat RB_SIZE) \<le> page_align pg (sizeof_RBMeta + sizeof_RBAppro + 26 * nat RB_SIZE)"
    unfolding page_align_def by (intro mult_le_mono1 div_le_mono) simp
  ultimately show ?thesis using v by (auto simp: kernel_view_def late_def device_mmap_def)
qed

lemma kshm_reads_late_witness:
  "\<exists>rb. chan_run (write_shm sizeof_RBAppro 26) (read_shm 0 26) flush_ringbuffer [] [Send (replicate 26 7), Flush, Recv]
      (kernel_ring 4096, [], []) = (rb, [replicate 26 7], [replicate 26 0])"
proof -
  let ?ops = "[Send (replicate 26 7), Flush, Recv] :: byte list chan_op list"
  obtain rb acc del where run: "chan_run (write_shm sizeof_RBAppro 26) (read_shm 0 26) flush_ringbuffer []
      ?ops (kernel_ring 4096, [], []) = (rb, acc, del)" by (metis prod_cases3)
  have z: "nextWriteIndex (kernel_ring 4096) = 0" "nextReadIndex (kernel_ring 4096) = 0" "localReadIndex (kernel_ring 4096) = 0"
    "wBatchCount (kernel_ring 4096) = 0" "rBatchCount (kernel_ring 4096) = 0" "localWriteIndex (kernel_ring 4096) = 0"
    by (simp_all add: kernel_ring_def create_ringbuffer_kshm_def)
  have ad: "acc = [replicate 26 7]" "length del = 1"
    using run by (auto simp: write_shm_def read_shm_def flush_ringbuffer_def nextVal_def RB_SIZE_def RB_BATCH_def Let_def z)
  have "\<forall>d. Send d \<in> set ?ops \<longrightarrow> length d = 26" by auto
  from kshm_reads_late [OF run _ this] ad have "del ! 0 = replicate 26 0" by simp
  with ad(2) have "del = [replicate 26 0]" by (cases del) auto
  with run ad(1) show ?thesis by blast
qed

section \<open>The protocol of the hook\<close>

definition kmod_ok :: "kmod \<Rightarrow> bool" where
  "kmod_ok st \<longleftrightarrow> shm_ok sizeof_RBAppro 26 (km_rb st) \<and> rb_inv (slots_of sizeof_RBAppro 26 (km_rb st))"

definition km_contents :: "kmod \<Rightarrow> byte list list" where
  "km_contents st = rb_contents (slots_of sizeof_RBAppro 26 (km_rb st))"

text \<open>Whether a write fails does not depend on what is written.\<close>

definition ring_full :: "kmod \<Rightarrow> bool" where
  "ring_full st \<longleftrightarrow> nextVal (nextWriteIndex (km_rb st)) = localReadIndex (km_rb st) \<and>
     nextVal (nextWriteIndex (km_rb st)) = readIndex (km_rb st)"

lemma write_full: "ring_full st \<Longrightarrow> write_shm off sz (km_rb st) d = (- 1, km_rb st)"
  by (simp add: write_shm_def ring_full_def Let_def)

lemma write_not_full:
  assumes "kmod_ok st" "\<not> ring_full st" "length d = 26"
  obtains rb' where "write_shm sizeof_RBAppro 26 (km_rb st) d = (0, rb')"
    "kmod_ok (st\<lparr>km_rb := rb'\<rparr>)" "km_contents (st\<lparr>km_rb := rb'\<rparr>) = km_contents st @ [d]"
proof -
  obtain r rb' where w: "write_shm sizeof_RBAppro 26 (km_rb st) d = (r, rb')" by fastforce
  have r: "r = 0" using w assms(2) by (auto simp: write_shm_def ring_full_def Let_def split: if_splits)
  have ok: "shm_ok sizeof_RBAppro 26 (km_rb st)" using assms(1) by (simp add: kmod_ok_def)
  from write_shm_slots [OF ok assms(3)] w r have
    "write_ringbuffer (slots_of sizeof_RBAppro 26 (km_rb st)) d = (0, slots_of sizeof_RBAppro 26 rb')"
    "shm_ok sizeof_RBAppro 26 rb'" by simp_all
  then show ?thesis using ring.send_ok [of "slots_of sizeof_RBAppro 26 (km_rb st)" d] assms(1) that [of rb'] w r
    by (simp add: kmod_ok_def km_contents_def)
qed

text \<open>
  What happens along a run: the number of IPv4 packets, the records of those that find room in the
  ring when they are processed, and the number of records that the process takes.
\<close>

fun is_ip4 :: "hook_event \<Rightarrow> bool" where
  "is_ip4 (Packet stack p) = (ntohs (pk_eth_type p) = 0x0800)"
| "is_ip4 (Take buf) = False"

fun found_room :: "hook_event \<Rightarrow> kmod \<Rightarrow> byte list list" where
  "found_room (Packet stack p) st =
     (if is_ip4 (Packet stack p) \<and> \<not> ring_full st then [tuple_bytes (hook_tuple stack p)] else [])"
| "found_room (Take buf) st = []"

fun takes :: "hook_event \<Rightarrow> kmod \<Rightarrow> nat" where
  "takes (Packet stack p) st = 0"
| "takes (Take buf) st = (if fst (read_shm 0 26 (km_rb st) buf) = 0 then 1 else 0)"

primrec accepted :: "hook_event list \<Rightarrow> kmod \<Rightarrow> byte list list" where
  "accepted [] st = []"
| "accepted (e # es) st =
     found_room e st @ (case hook_step e st of None \<Rightarrow> [] | Some st1 \<Rightarrow> accepted es st1)"

primrec taken :: "hook_event list \<Rightarrow> kmod \<Rightarrow> nat" where
  "taken [] st = 0"
| "taken (e # es) st = takes e st + (case hook_step e st of None \<Rightarrow> 0 | Some st1 \<Rightarrow> taken es st1)"

lemma km_upd_sel [simp]:
  "kmod_ok (st\<lparr>km_cur := c\<rparr>) = kmod_ok st" "km_contents (st\<lparr>km_cur := c\<rparr>) = km_contents st"
  "ring_full (st\<lparr>km_cur := c\<rparr>) = ring_full st" "kmod_ok (st\<lparr>km_start := k\<rparr>) = kmod_ok st"
  "km_contents (st\<lparr>km_start := k\<rparr>) = km_contents st" "ring_full (st\<lparr>km_start := k\<rparr>) = ring_full st"
  "ring_full (st\<lparr>km_cur := c, km_rb := rb\<rparr>) = ring_full (st\<lparr>km_rb := rb\<rparr>)"
  "kmod_ok (st\<lparr>km_cur := c, km_rb := rb\<rparr>) = kmod_ok (st\<lparr>km_rb := rb\<rparr>)"
  "km_contents (st\<lparr>km_cur := c, km_rb := rb\<rparr>) = km_contents (st\<lparr>km_rb := rb\<rparr>)"
  by (simp_all add: kmod_ok_def km_contents_def ring_full_def)

text \<open>A read takes the oldest record, or finds nothing published and changes nothing.\<close>

lemma take_step:
  assumes "kmod_ok st" "hook_step (Take buf) st = Some st1"
  shows "kmod_ok st1 \<and> km_start st1 = km_start st \<and> km_cur st1 = km_cur st \<and>
    takes (Take buf) st \<le> length (km_contents st) \<and>
    km_contents st1 = drop (takes (Take buf) st) (km_contents st)"
proof -
  let ?s = "slots_of sizeof_RBAppro 26"
  obtain r d rb' where r: "read_shm 0 26 (km_rb st) buf = (r, d, rb')" by (metis prod_cases3)
  have st1: "st1 = st\<lparr>km_rb := rb'\<rparr>" using assms(2) r by auto
  have ok: "shm_ok sizeof_RBAppro 26 (km_rb st)" and inv: "rb_inv (?s (km_rb st))"
    using assms(1) by (simp_all add: kmod_ok_def)
  note s = read_shm_slots [OF ok r]
  obtain y where y: "read_ringbuffer (?s (km_rb st)) buf = (r, y, ?s rb')"
    using s(1,2) by (metis prod.collapse)
  show ?thesis
  proof (cases "r = 0")
    case True
    then show ?thesis using ring.recv_ok [OF inv, of buf y "?s rb'"] y r s(3)
      by (simp add: st1 kmod_ok_def km_contents_def)
  next
    case False
    then have "?s rb' = ?s (km_rb st)" using ring.recv_status [OF inv y] by auto
    then show ?thesis using r s(3) inv False by (simp add: st1 kmod_ok_def km_contents_def)
  qed
qed

text \<open>A packet while the measurement runs: counted when it is IPv4, appended when there is room.\<close>

lemma packet_step:
  assumes ok: "kmod_ok st" and st: "km_start st = KM_START"
  shows "\<exists>st1. hook_step (Packet stack p) st = Some st1 \<and> kmod_ok st1 \<and> km_start st1 = KM_START \<and>
    km_cur st1 = km_cur st + (if is_ip4 (Packet stack p) then 1 else 0) \<and>
    km_contents st1 = km_contents st @ found_room (Packet stack p) st"
proof (cases "is_ip4 (Packet stack p)")
  case False
  then show ?thesis using assms by (simp add: hook_packet_def KM_START_def KM_TAIL_def)
next
  case True
  let ?d = "tuple_bytes (hook_tuple stack p)" and ?c = "km_cur st + 1"
  show ?thesis
  proof (cases "ring_full st")
    case full: True
    then show ?thesis using assms True write_full [OF full] by (simp add: hook_packet_def)
  next
    case False
    obtain rb' where "write_shm sizeof_RBAppro 26 (km_rb st) ?d = (0, rb')" "kmod_ok (st\<lparr>km_rb := rb'\<rparr>)"
      "km_contents (st\<lparr>km_rb := rb'\<rparr>) = km_contents st @ [?d]"
      by (rule write_not_full [OF ok False, of ?d]) simp
    then show ?thesis using assms True False by (simp add: hook_packet_def)
  qed
qed

lemma hook_run_started:
  assumes "kmod_ok st" "km_start st = KM_START"
  shows "\<exists>st1. hook_run es st = Some st1 \<and> kmod_ok st1 \<and> km_start st1 = KM_START \<and>
    km_cur st1 = km_cur st + of_nat (length (filter is_ip4 es)) \<and>
    taken es st \<le> length (km_contents st @ accepted es st) \<and>
    km_contents st1 = drop (taken es st) (km_contents st @ accepted es st)"
  using assms
proof (induction es arbitrary: st)
  case (Cons e es)
  show ?case
  proof (cases e)
    case (Packet stack p)
    obtain st1 where st1: "hook_step e st = Some st1" "kmod_ok st1" "km_start st1 = KM_START"
      "km_cur st1 = km_cur st + (if is_ip4 e then 1 else 0)" "km_contents st1 = km_contents st @ found_room e st"
      using packet_step [OF Cons.prems] Packet by blast
    have "takes e st = 0" by (simp add: Packet)
    with st1 Cons.IH [OF st1(2,3)] show ?thesis by auto
  next
    case (Take buf)
    then obtain st1 where st1: "hook_step e st = Some st1" by simp
    note h = take_step [OF Cons.prems(1) st1 [unfolded Take]]
    have "\<not> is_ip4 e" "found_room e st = []" by (simp_all add: Take)
    then show ?thesis using h st1 Cons.IH [of st1] Cons.prems(2) unfolding Take by (auto simp: add.commute)
  qed
qed simp

text \<open>Once the measurement has ended only the process changes the state.\<close>

lemma hook_run_stopped:
  assumes "kmod_ok st" "km_start st = KM_STOP"
  shows "\<exists>st1. hook_run es st = Some st1 \<and> kmod_ok st1 \<and> km_start st1 = KM_STOP \<and> km_cur st1 = km_cur st \<and>
    taken es st \<le> length (km_contents st) \<and> km_contents st1 = drop (taken es st) (km_contents st)"
  using assms
proof (induction es arbitrary: st)
  case (Cons e es)
  show ?case
  proof (cases e)
    case (Packet stack p)
    then show ?thesis using Cons
      by (auto simp: hook_packet_def KM_START_def KM_STOP_def KM_TAIL_def)
  next
    case (Take buf)
    then obtain st1 where st1: "hook_step e st = Some st1" by simp
    note h = take_step [OF Cons.prems(1) st1 [unfolded Take]]
    then show ?thesis using st1 Cons.IH [of st1] Cons.prems(2) unfolding Take by (auto simp: add.commute)
  qed
qed simp

text \<open>
  A full ring holds all its slots but those that the process has read and not yet given back, and
  \<open>RB_BATCH\<close> reads give some back.
\<close>

lemma ring_full_rep:
  assumes rep: "rb_rep (slots_of sizeof_RBAppro 26 (km_rb st)) lR pR R lW pW W"
  shows "ring_full st \<longleftrightarrow> W + 1 = pR + 2000"
  using rb_rep_write_tests [OF rep] rb_rep_order [OF rep] unfolding rb_order_def ring_full_def by auto

lemma takes_rep:
  assumes rep: "rb_rep (slots_of sizeof_RBAppro 26 (km_rb st)) lR pR R lW pW W" and ok: "kmod_ok st"
    and R: "R + int n \<le> pW"
  shows "\<exists>st1 pR' lW'. hook_run (replicate n (Take buf)) st = Some st1 \<and> taken (replicate n (Take buf)) st = n \<and>
    rb_rep (slots_of sizeof_RBAppro 26 (km_rb st1)) lR pR' (R + int n) lW' pW W"
  using assms
proof (induction n arbitrary: st pR R lW)
  case (Suc n)
  let ?s = "slots_of sizeof_RBAppro 26"
  obtain r d rb' where r: "read_shm 0 26 (km_rb st) buf = (r, d, rb')" by (metis prod_cases3)
  define st1 where "st1 = st\<lparr>km_rb := rb'\<rparr>"
  have h: "hook_step (Take buf) st = Some st1" using r by (simp add: st1_def)
  have "shm_ok sizeof_RBAppro 26 (km_rb st)" using Suc.prems(2) by (simp add: kmod_ok_def)
  note s = read_shm_slots(1,2) [OF this r]
  have "R \<noteq> pW" using Suc.prems(3) by simp
  with rb_read_rep [OF Suc.prems(1), of buf] s obtain pR' lW' where
    "r = 0" "rb_rep (?s rb') lR pR' (R + 1) lW' pW W" by auto
  moreover have "kmod_ok st1" using take_step [OF Suc.prems(2) h] by simp
  ultimately show ?case using Suc.IH [of st1 pR' "R + 1" lW'] Suc.prems(3) h r
    by (auto simp: st1_def algebra_simps)
qed auto

lemma ring_full_takes:
  assumes ok: "kmod_ok st" and full: "ring_full st"
  shows "1950 \<le> length (km_contents st)"
    and "\<exists>st1. hook_run (replicate 50 (Take buf)) st = Some st1 \<and> \<not> ring_full st1"
proof -
  let ?s = "slots_of sizeof_RBAppro 26"
  obtain lR pR R lW pW W where rep: "rb_rep (?s (km_rb st)) lR pR R lW pW W"
    using ok by (auto simp: kmod_ok_def rb_inv_def)
  note o = rb_rep_order [OF rep, unfolded rb_order_def]
  have w: "W + 1 = pR + 2000" using full ring_full_rep [OF rep] by simp
  then have "1950 \<le> W - R" using o by linarith
  then show "1950 \<le> length (km_contents st)"
    unfolding km_contents_def rb_contents_rep [OF rep] by simp
  have "R + int 50 \<le> pW" using o w by linarith
  from takes_rep [OF rep ok this, of buf] obtain st1 pR' lW' where
    st1: "hook_run (replicate 50 (Take buf)) st = Some st1" "rb_rep (?s (km_rb st1)) lR pR' (R + 50) lW' pW W" by auto
  note o' = rb_rep_order [OF st1(2), unfolded rb_order_def]
  have "W + 1 \<noteq> pR' + 2000" using o o' w by linarith
  then show "\<exists>st1. hook_run (replicate 50 (Take buf)) st = Some st1 \<and> \<not> ring_full st1"
    using st1(1) ring_full_rep [OF st1(2)] by blast
qed

text \<open>C17: the protocol of the kernel hook, for every interleaving of the packets of the switch with the
  reads of the process. After the START command the switch never waits: all IPv4 packets are
  counted, the records of exactly those that find the ring not full are appended, in order (the
  record of a packet that finds it full is lost, and there are then at least 1950 records waiting),
  and the process takes records from the front only.
  After the STOP command the next packet, whatever it is, waits exactly while the ring is full, which
  50 reads end; otherwise it appends the record that ends the measurement and publishes
  everything, and from then on packets change nothing and the process takes what is left, in order.\<close>

theorem hook_protocol:
  assumes "kmod_ok st"
  shows "(let st0 = device_ioctl KM_START st in
      \<exists>st1. hook_run es st0 = Some st1 \<and> kmod_ok st1 \<and> km_cur st1 = of_nat (length (filter is_ip4 es)) \<and>
        taken es st0 \<le> length (km_contents st @ accepted es st0) \<and>
        km_contents st1 = drop (taken es st0) (km_contents st @ accepted es st0)) \<and>
    (if ring_full st
     then 1950 \<le> length (km_contents st) \<and> hook_packet stack p (device_ioctl KM_STOP st) = None \<and>
       (\<exists>st1. hook_run (replicate 50 (Take buf)) (device_ioctl KM_STOP st) = Some st1 \<and> \<not> ring_full st1)
     else \<exists>st2. hook_packet stack p (device_ioctl KM_STOP st) = Some st2 \<and>
       km_contents st2 = km_contents st @ [tuple_bytes (zero_tuple\<lparr>flag := TUPLE_TERM\<rparr>)] \<and>
       rb_visible (slots_of sizeof_RBAppro 26 (km_rb st2)) = length (km_contents st2) \<and>
       (\<forall>qs. \<exists>st3. hook_run qs st2 = Some st3 \<and> kmod_ok st3 \<and> km_cur st3 = km_cur st \<and>
         taken qs st2 \<le> length (km_contents st2) \<and> km_contents st3 = drop (taken qs st2) (km_contents st2)))"
    (is "?start \<and> ?stop")
proof
  have "kmod_ok (device_ioctl KM_START st)" "km_start (device_ioctl KM_START st) = KM_START"
    using assms by (simp_all add: device_ioctl_def)
  from hook_run_started [OF this, of es] show ?start
    by (auto simp: device_ioctl_def)
  let ?t = "tuple_bytes (zero_tuple\<lparr>flag := TUPLE_TERM\<rparr>)"
  have ok: "kmod_ok (device_ioctl KM_STOP st)" using assms
    by (simp add: device_ioctl_def KM_START_def KM_STOP_def)
  show ?stop
  proof (cases "ring_full st")
    case True
    then have "ring_full (device_ioctl KM_STOP st)" by (simp add: device_ioctl_def KM_START_def KM_STOP_def)
    with True show ?thesis using write_full [OF True] ring_full_takes(1) [OF assms True] ring_full_takes(2) [OF ok, of buf]
      by (simp add: hook_packet_def) (simp add: device_ioctl_def KM_START_def KM_STOP_def KM_TAIL_def)
  next
    case False
    obtain rb' where w: "write_shm sizeof_RBAppro 26 (km_rb st) ?t = (0, rb')" "kmod_ok (st\<lparr>km_rb := rb'\<rparr>)"
      "km_contents (st\<lparr>km_rb := rb'\<rparr>) = km_contents st @ [?t]"
      by (rule write_not_full [OF assms False, of ?t]) simp
    define st2 where "st2 = st\<lparr>km_start := KM_STOP, km_rb := flush_ringbuffer rb'\<rparr>"
    have "hook_packet stack p (device_ioctl KM_STOP st) = Some st2"
      using w(1) by (simp add: hook_packet_def device_ioctl_def KM_START_def KM_STOP_def KM_TAIL_def st2_def)
    moreover have st2: "kmod_ok st2 \<and> km_contents st2 = km_contents st @ [?t] \<and>
        rb_visible (slots_of sizeof_RBAppro 26 (km_rb st2)) = length (km_contents st2)"
      using ring.flush_ok [of "slots_of sizeof_RBAppro 26 rb'"] w(2,3)
      by (simp add: kmod_ok_def km_contents_def st2_def flush_shm_slots)
    moreover have "km_start st2 = KM_STOP" "km_cur st2 = km_cur st" by (simp_all add: st2_def)
    ultimately show ?thesis using False hook_run_stopped [of st2] by auto
  qed
qed

lemma kernel_ring_ok: "0 < pg \<Longrightarrow> kmod_ok \<lparr>km_start = k, km_cur = c, km_rb = kernel_ring pg\<rparr>"
  using kernel_ring_view [of pg] by (auto simp: kmod_ok_def kernel_view_def intro: rb_invI)

lemma hook_protocol_witness:
  "\<exists>st2. hook_packet zero_tuple \<lparr>pk_eth_type = 0, pk_src = 0, pk_dst = 0, pk_tp_src = 0, pk_tp_dst = 0, pk_proto = 0, pk_len = 0\<rparr>
      (device_ioctl KM_STOP \<lparr>km_start = 0, km_cur = 0, km_rb = kernel_ring 4096\<rparr>) = Some st2 \<and>
    km_contents st2 = [tuple_bytes (zero_tuple\<lparr>flag := TUPLE_TERM\<rparr>)]"
proof -
  let ?st = "\<lparr>km_start = 0, km_cur = 0, km_rb = kernel_ring 4096\<rparr>"
  have "\<not> ring_full ?st" "km_contents ?st = []"
    by (simp_all add: ring_full_def km_contents_def rb_contents_def kernel_ring_def create_ringbuffer_kshm_def
        nextVal_def RB_SIZE_def)
  then show ?thesis using hook_protocol [OF kernel_ring_ok [of 4096 0 0]] by fastforce
qed

end
