(* ===== verification/Result_Files.thy ===== *)
theory Result_Files
  imports Key_Table Config
begin

text \<open>
  The readers of \<^verbatim>\<open>alg_keytbl.c\<close> for the result files \<open>rb_<alg>_<interval>_opt\<close> and
  \<open>stat_<alg>_<interval>\<close>, which another program writes: a line with a total, then one line per flow
  with a lower and an upper bound of its size. The file system is the function \<open>fopen\<close> from paths to
  contents; a file that cannot be opened is a null stream for the next call, \<open>OutOfBounds\<close>.
\<close>

section \<open>A line of a flow\<close>

definition fmt_opt :: "fitem list" where
  "fmt_opt = parse_fmt ''%u.%u.%u.%u(%hu) <-> %u.%u.%u.%u(%hu) %hhu low %lld max %lld''"

definition read_opt_tuple :: "u32 \<Rightarrow> string \<Rightarrow> key_tbl_entry \<Rightarrow> key_tbl_entry" where
  "read_opt_tuple junk line p =
     (let vs = sscanf fmt_opt line; k = tkey (tuple p)
      in p\<lparr>tuple := (tuple p)\<lparr>tkey :=
             \<lparr>src_ip = join_ip vs 0 junk, dst_ip = join_ip vs 5 junk,
              src_port = scanned vs 4 (src_port k), dst_port = scanned vs 9 (dst_port k),
              proto = scanned vs 10 (proto k)\<rparr>\<rparr>,
           low := scanned vs 11 (low p), high := scanned vs 12 (high p)\<rparr>)"

text \<open>\<open>record->tuple.size += entry.low\<close> keeps the lower 32 bits.\<close>

definition add_bounds :: "u64 \<times> u64 \<Rightarrow> key_tbl_entry \<Rightarrow> key_tbl_entry" where
  "add_bounds = (\<lambda>(lo, hi) e. e\<lparr>tuple := (tuple e)\<lparr>tsize := tsize (tuple e) + ucast lo\<rparr>,
     low := low e + lo, high := high e + hi\<rparr>)"

text \<open>The lines after the first; the entry on the stack keeps what a line does not set.\<close>

fun opt_lines :: "u32 \<Rightarrow> string list \<Rightarrow> key_tbl_entry \<Rightarrow> key_tbl \<Rightarrow> (key_tbl_entry \<times> key_tbl) res" where
  "opt_lines junk [] e tbl = Inr (e, tbl)"
| "opt_lines junk (l # ls) e tbl =
     (let e' = read_opt_tuple junk l e
      in rbind (key_tbl_upd tbl (tkey (tuple e')) (add_bounds (low e', high e'))) (\<lambda>tbl'.
           opt_lines junk ls e' tbl'))"

text \<open>A number that is the \<open>n\<close>-th word of a line; without such a word a null pointer is read.\<close>

definition word_number :: "(string \<Rightarrow> 'a res) \<Rightarrow> nat \<Rightarrow> string \<Rightarrow> 'a res" where
  "word_number conv n line =
     (case nth_token (CHR '' '') n line of None \<Rightarrow> Inl OutOfBounds | Some t \<Rightarrow> conv t)"

text \<open>The first line of the second file that mentions the number of flows, if there is one.\<close>

fun appro_keys :: "string list \<Rightarrow> i32 option res" where
  "appro_keys [] = Inr None"
| "appro_keys (l # ls) =
     (case strstr l ''appro keys'' of
        None \<Rightarrow> appro_keys ls
      | Some s \<Rightarrow> rbind (word_number atoi 2 s) (\<lambda>n. Inr (Some n)))"

section \<open>One pair of files\<close>

type_synonym file_system = "string \<Rightarrow> string option"

definition fopen_lines :: "file_system \<Rightarrow> string \<Rightarrow> string list res" where
  "fopen_lines fs path = (case fs path of None \<Rightarrow> Inl OutOfBounds | Some f \<Rightarrow> Inr (lines_100 f))"

text \<open>\<open>read_rb\<close>: the table, \<open>*rb_tot\<close> and \<open>*rb_card\<close>, which keeps its value when no line tells it.\<close>

definition read_rb ::
    "file_system \<Rightarrow> u32 \<Rightarrow> key_tbl_entry \<Rightarrow> string \<Rightarrow> string \<Rightarrow> i32 \<Rightarrow> key_tbl \<Rightarrow> i32 \<Rightarrow> (key_tbl \<times> u64 \<times> i32) res" where
  "read_rb fs junk entry dir alg interval tbl rb_card =
     rbind (sprintf_100 (parse_fmt ''%srb_%s_%d_opt'') [StrArg dir, StrArg alg, IntArg (sint interval)]) (\<lambda>tmp.
     rbind (fopen_lines fs tmp) (\<lambda>ls.
     rbind (case ls of
              [] \<Rightarrow> Inr (0, tbl)
            | l # ls' \<Rightarrow> rbind (word_number atoll 1 l) (\<lambda>ret.
                rbind (opt_lines junk ls' entry tbl) (\<lambda>(e, tbl'). Inr (ret, tbl')))) (\<lambda>(ret, tbl').
     rbind (sprintf_100 (parse_fmt ''%sstat_%s_%d'') [StrArg dir, StrArg alg, IntArg (sint interval)]) (\<lambda>tmp2.
     rbind (fopen_lines fs tmp2) (\<lambda>ls2.
     rbind (appro_keys ls2) (\<lambda>c.
       Inr (tbl', ret, case c of None \<Rightarrow> rb_card | Some n \<Rightarrow> n)))))))"

section \<open>The files of several pieces\<close>

record rb_multi =
  m_tbl :: key_tbl
  m_tot :: u64
  m_card :: i32
  m_dec :: i32

text \<open>
  One pass of the loop over the pieces: \<open>*rb_tot\<close> and \<open>*rb_card\<close> add up, \<open>num_dec\<close> is the number
  the last piece gives. The entry on the stack is the same memory in every pass.
\<close>

definition read_rb_piece ::
    "file_system \<Rightarrow> u32 \<Rightarrow> string \<Rightarrow> string \<Rightarrow> i32 \<Rightarrow> nat \<Rightarrow> key_tbl_entry \<times> rb_multi \<Rightarrow> (key_tbl_entry \<times> rb_multi) res" where
  "read_rb_piece fs junk dir alg interval k = (\<lambda>(entry, st).
     rbind (sprintf_100 (parse_fmt ''%srb_%s_%d_%d_opt'')
       [StrArg dir, StrArg alg, IntArg (sint interval), IntArg (int k)]) (\<lambda>tmp.
     rbind (fopen_lines fs tmp) (\<lambda>ls.
     rbind (case ls of
              [] \<Rightarrow> Inr (0, m_dec st, entry, m_tbl st)
            | l # ls' \<Rightarrow> rbind (word_number atoll 1 l) (\<lambda>tot_dec. rbind (word_number atoi 3 l) (\<lambda>num_dec.
                rbind (opt_lines junk ls' entry (m_tbl st)) (\<lambda>(e, tbl').
                  Inr (tot_dec, num_dec, e, tbl'))))) (\<lambda>(tot_dec, num_dec, e, tbl').
     rbind (sprintf_100 (parse_fmt ''%sstat_%s_%d_%d'')
       [StrArg dir, StrArg alg, IntArg (sint interval), IntArg (int k)]) (\<lambda>tmp2.
     rbind (fopen_lines fs tmp2) (\<lambda>ls2.
     rbind (appro_keys ls2) (\<lambda>c.
       Inr (e, \<lparr>m_tbl = tbl', m_tot = m_tot st + tot_dec,
                m_card = m_card st + (case c of None \<Rightarrow> 0 | Some n \<Rightarrow> n), m_dec = num_dec\<rparr>))))))))"

definition read_rb_multi ::
    "file_system \<Rightarrow> u32 \<Rightarrow> key_tbl_entry \<Rightarrow> string \<Rightarrow> string \<Rightarrow> i32 \<Rightarrow> key_tbl \<Rightarrow> u64 \<Rightarrow> i32 \<Rightarrow> nat \<Rightarrow>
     (key_tbl \<times> u64 \<times> i32 \<times> i32) res" where
  "read_rb_multi fs junk entry dir alg interval tbl rb_tot rb_card n_piece =
     rbind (for_res n_piece (\<lambda>k. read_rb_piece fs junk dir alg interval k)
       (entry, \<lparr>m_tbl = tbl, m_tot = rb_tot, m_card = rb_card, m_dec = 0\<rparr>)) (\<lambda>(e, st).
       Inr (m_tbl st, m_tot st, m_card st, m_dec st))"

interpretation opt_sizes: entry_total add_bounds "\<lambda>x. ucast (fst x)" "\<lambda>e. tsize (tuple e)"
  by unfold_locales (auto simp: add_bounds_def tsize_touch zero_entry_def zero_tuple_def split: prod.split)

interpretation opt_lows: entry_total add_bounds fst low
  by unfold_locales (auto simp: add_bounds_def touch_def zero_entry_def Let_def split: prod.split)

interpretation opt_highs: entry_total add_bounds snd high
  by unfold_locales (auto simp: add_bounds_def touch_def zero_entry_def Let_def split: prod.split)

section \<open>Lines read back\<close>

definition opt_ints :: "key_tbl_entry \<Rightarrow> int list" where
  "opt_ints e = take 11 (tuple_ints (tuple e)) @ [sint (low e), sint (high e)]"

definition opt_text :: "key_tbl_entry \<Rightarrow> string" where
  "opt_text e = printf fmt_opt (map IntArg (opt_ints e))"

lemma fmt_opt_eq: "fmt_opt =
   [UNum, Ch (CHR ''.''), UNum, Ch (CHR ''.''), UNum, Ch (CHR ''.''), UNum, Ch (CHR ''(''), UNum,
    Ch (CHR '')''), Ch (CHR '' ''), Ch (CHR ''<''), Ch (CHR ''-''), Ch (CHR ''>''), Ch (CHR '' ''),
    UNum, Ch (CHR ''.''), UNum, Ch (CHR ''.''), UNum, Ch (CHR ''.''), UNum, Ch (CHR ''(''), UNum,
    Ch (CHR '')''), Ch (CHR '' ''), UNum, Ch (CHR '' ''), Ch (CHR ''l''), Ch (CHR ''o''), Ch (CHR ''w''),
    Ch (CHR '' ''), DNum, Ch (CHR '' ''), Ch (CHR ''m''), Ch (CHR ''a''), Ch (CHR ''x''), Ch (CHR '' ''), DNum]"
  by code_simp

lemma sint_u64_range: "- 9223372036854775808 \<le> sint (w :: u64)" "sint (w :: u64) < 9223372036854775808"
  using sint_range_size [of w] by (simp_all add: word_size)

lemma fits_opt: "fits fmt_opt (opt_ints e)"
proof -
  have u: "uint (octet n w) < 18446744073709551616" for n w
    using uint_octet [of n w] by linarith
  have v: "uint (x :: u16) < 18446744073709551616" "uint (y :: byte) < 18446744073709551616" for x y
    using uint_lt2p [of x] uint_lt2p [of y] by simp_all
  show ?thesis by (simp add: fmt_opt_eq opt_ints_def tuple_ints_def ip_parts_def u v sint_u64_range)
qed

lemma read_opt_text:
  "read_opt_tuple junk (opt_text e @ [CHR 0x0A]) p =
    p\<lparr>tuple := (tuple p)\<lparr>tkey := tkey (tuple e)\<rparr>, low := low e, high := high e\<rparr>"
proof -
  have "separated fmt_opt" "ends_number [CHR 0x0A]" by code_simp+
  then have "sscanf fmt_opt (opt_text e @ [CHR 0x0A]) = opt_ints e"
    using fits_opt by (simp add: opt_text_def sscanf_printf)
  then show ?thesis
    by (simp add: read_opt_tuple_def Let_def join_ip_def scanned_def opt_ints_def tuple_ints_def ip_parts_def octets_join)
qed

text \<open>Bounds of at most 17 digits keep a line within the buffer of 100 characters.\<close>

definition short_bounds :: "key_tbl_entry \<Rightarrow> bool" where
  "short_bounds e \<longleftrightarrow> low e < 10 ^ 17 \<and> high e < 10 ^ 17"

lemma length_show_u64: "length (show_int (sint (w :: u64))) \<le> 17" if "w < 10 ^ 17"
proof -
  have w: "uint w < 10 ^ 17" using that by (simp add: word_less_def)
  have "- 9223372036854775808 \<le> uint w" using uint_ge_0 [of w] by linarith
  with w have "sint w = uint w" by (simp add: sint_uint signed_take_bit_int_eq_self_iff)
  then show ?thesis using w by (intro length_show_int_nonneg) simp_all
qed

lemma opt_text_line:
  assumes "short_bounds e"
  shows "CHR 0x0A \<notin> set (opt_text e)" "length (opt_text e) < 99"
proof -
  show "CHR 0x0A \<notin> set (opt_text e)" by (simp add: opt_text_def fmt_opt_eq opt_ints_def tuple_ints_def ip_parts_def)
  have b: "length (show_int (uint (octet n w))) \<le> 3" for n w
    using uint_octet [of n w] by (intro length_show_int_nonneg) simp_all
  have p: "length (show_int (uint (x :: u16))) \<le> 5" for x
    using uint_lt2p [of x] by (intro length_show_int_nonneg) simp_all
  have q: "length (show_int (uint (y :: byte))) \<le> 3" for y
    using uint_lt2p [of y] by (intro length_show_int_nonneg) simp_all
  define k where "k = tkey (tuple e)"
  note bs = b [of 0 "src_ip k"] b [of 8 "src_ip k"] b [of 16 "src_ip k"] b [of 24 "src_ip k"]
    b [of 0 "dst_ip k"] b [of 8 "dst_ip k"] b [of 16 "dst_ip k"] b [of 24 "dst_ip k"]
    p [of "src_port k"] p [of "dst_port k"] q [of "proto k"]
    length_show_u64 [of "low e"] length_show_u64 [of "high e"]
  show "length (opt_text e) < 99" using bs assms
    by (simp add: opt_text_def fmt_opt_eq opt_ints_def tuple_ints_def ip_parts_def short_bounds_def flip: k_def)
qed

lemma lines_opt:
  assumes "CHR 0x0A \<notin> set l" "length l < 99" "\<forall>e \<in> set es. short_bounds e"
  shows "lines_100 (l @ [CHR 0x0A] @ concat (map (\<lambda>e. opt_text e @ [CHR 0x0A]) es)) =
    (l @ [CHR 0x0A]) # map (\<lambda>e. opt_text e @ [CHR 0x0A]) es"
proof -
  have "lines_100 (concat (map (\<lambda>l. l @ [CHR 0x0A]) (l # map opt_text es)) @ []) =
      map (\<lambda>l. l @ [CHR 0x0A]) (l # map opt_text es) @ lines_100 []"
    by (rule lines_100_concat) (use assms opt_text_line in auto)
  then show ?thesis by (simp add: comp_def)
qed

lemma opt_lines_run:
  "opt_lines junk (map (\<lambda>e. opt_text e @ [CHR 0x0A]) es) p tbl = Inr (p', tbl') \<Longrightarrow>
    run_adds (\<lambda>tbl k x. key_tbl_upd tbl k (add_bounds x)) tbl
      (map (\<lambda>e. (tkey (tuple e), (low e, high e))) es) = Inr tbl'"
proof (induction es arbitrary: p tbl)
  case (Cons e es)
  then obtain tbl1 where t: "key_tbl_upd tbl (tkey (tuple e)) (add_bounds (low e, high e)) = Inr tbl1"
    by (cases "key_tbl_upd tbl (tkey (tuple e)) (add_bounds (low e, high e))") (auto simp: read_opt_text Let_def)
  with Cons.prems have "\<exists>p1. opt_lines junk (map (\<lambda>e. opt_text e @ [CHR 0x0A]) es) p1 tbl1 = Inr (p', tbl')"
    by (auto simp: read_opt_text Let_def)
  with Cons.IH t show ?case by auto
qed simp

text \<open>The bounds of one flow in a list of entries, and a sum that leaves an absent flow alone.\<close>

definition flow_bounds :: "key_tbl_entry list \<Rightarrow> flow_key \<Rightarrow> key_tbl_entry list" where
  "flow_bounds es k = filter (\<lambda>e. tkey (tuple e) = k) es"

definition add_to :: "'v::comm_monoid_add option \<Rightarrow> 'v list \<Rightarrow> 'v option" where
  "add_to old vs = (if vs = [] then old else Some ((case old of None \<Rightarrow> 0 | Some w \<Rightarrow> w) + sum_list vs))"

lemma opt_lines_totals:
  assumes "opt_lines junk (map (\<lambda>e. opt_text e @ [CHR 0x0A]) es) p tbl = Inr (p', tbl')" "kt_flows tbl"
  shows "kt_flows tbl'"
    and "kt_proj low tbl' k = add_to (kt_proj low tbl k) (map low (flow_bounds es k))"
    and "kt_proj high tbl' k = add_to (kt_proj high tbl k) (map high (flow_bounds es k))"
    and "kt_total tbl' k = add_to (kt_total tbl k) (map (\<lambda>e. ucast (low e)) (flow_bounds es k))"
proof -
  note r = opt_lines_run [OF assms(1)]
  have i: "kt_acc tbl \<and> kbits tbl div 8 = 13" using assms(2) by (simp add: kt_flows_def)
  note l = opt_lows.look_run [OF r i, of k] and h = opt_highs.look_run [OF r i, of k]
    and z = opt_sizes.look_run [OF r i, of k]
  show "kt_flows tbl'" using opt_lows.run_inv [OF r i] by (simp add: kt_flows_def)
  show "kt_proj low tbl' k = add_to (kt_proj low tbl k) (map low (flow_bounds es k))"
    using l by (simp add: add_to_def flow_bounds_def filter_map comp_def Let_def)
  show "kt_proj high tbl' k = add_to (kt_proj high tbl k) (map high (flow_bounds es k))"
    using h by (simp add: add_to_def flow_bounds_def filter_map comp_def Let_def)
  show "kt_total tbl' k = add_to (kt_total tbl k) (map (\<lambda>e. ucast (low e)) (flow_bounds es k))"
    using z by (simp add: kt_total_proj add_to_def flow_bounds_def filter_map comp_def Let_def)
qed

section \<open>What the readers return\<close>

text \<open>The path and the contents of the \<open>k\<close>-th file, with its first line and its flows.\<close>

definition opt_path :: "string \<Rightarrow> string \<Rightarrow> i32 \<Rightarrow> nat \<Rightarrow> string res" where
  "opt_path dir alg interval k = sprintf_100 (parse_fmt ''%srb_%s_%d_%d_opt'')
     [StrArg dir, StrArg alg, IntArg (sint interval), IntArg (int k)]"

definition opt_file :: "string \<times> key_tbl_entry list \<Rightarrow> string" where
  "opt_file = (\<lambda>(l, es). l @ [CHR 0x0A] @ concat (map (\<lambda>e. opt_text e @ [CHR 0x0A]) es))"

definition has_opt_file :: "file_system \<Rightarrow> string \<Rightarrow> string \<Rightarrow> i32 \<Rightarrow> nat \<Rightarrow> string \<times> key_tbl_entry list \<Rightarrow> bool" where
  "has_opt_file fs dir alg interval k = (\<lambda>(l, es).
     (\<exists>path. opt_path dir alg interval k = Inr path \<and> fs path = Some (opt_file (l, es))) \<and>
     CHR 0x0A \<notin> set l \<and> length l < 99 \<and> (\<forall>e \<in> set es. short_bounds e))"

lemma read_rb_piece_totals:
  assumes "read_rb_piece fs junk dir alg interval n (e, st) = Inr (e', st')"
    and "has_opt_file fs dir alg interval n (l, es)" "kt_flows (m_tbl st)"
  shows "kt_flows (m_tbl st') \<and>
    kt_proj low (m_tbl st') k = add_to (kt_proj low (m_tbl st) k) (map low (flow_bounds es k)) \<and>
    kt_proj high (m_tbl st') k = add_to (kt_proj high (m_tbl st) k) (map high (flow_bounds es k)) \<and>
    kt_total (m_tbl st') k = add_to (kt_total (m_tbl st) k) (map (\<lambda>e. ucast (low e)) (flow_bounds es k)) \<and>
    (\<exists>d. word_number atoll 1 (l @ [CHR 0x0A]) = Inr d \<and> m_tot st' = m_tot st + d) \<and>
    word_number atoi 3 (l @ [CHR 0x0A]) = Inr (m_dec st')"
proof -
  obtain path where p: "opt_path dir alg interval n = Inr path" "fs path = Some (opt_file (l, es))"
    and l: "CHR 0x0A \<notin> set l" "length l < 99" "\<forall>e \<in> set es. short_bounds e"
    using assms(2) by (auto simp: has_opt_file_def)
  have "fopen_lines fs path = Inr ((l @ [CHR 0x0A]) # map (\<lambda>e. opt_text e @ [CHR 0x0A]) es)"
    using lines_opt [OF l] p(2) by (simp add: fopen_lines_def opt_file_def)
  with assms(1) p(1) obtain tot dec e1 tbl' where
    "word_number atoll 1 (l @ [CHR 0x0A]) = Inr tot" "word_number atoi 3 (l @ [CHR 0x0A]) = Inr dec"
    "opt_lines junk (map (\<lambda>e. opt_text e @ [CHR 0x0A]) es) e (m_tbl st) = Inr (e1, tbl')"
    "m_tbl st' = tbl'" "m_tot st' = m_tot st + tot" "m_dec st' = dec"
    by (auto simp: read_rb_piece_def opt_path_def rbind_Inr_iff)
  then show ?thesis using opt_lines_totals [OF _ assms(3)] by auto
qed

lemma add_to_append: "add_to (add_to old xs) ys = add_to old (xs @ ys)"
  by (simp add: add_to_def add.assoc split: option.split)

lemma flow_bounds_append: "flow_bounds (xs @ ys) k = flow_bounds xs k @ flow_bounds ys k"
  by (simp add: flow_bounds_def)

text \<open>The state after \<open>n\<close> pieces.\<close>

lemma read_rb_pieces_totals:
  assumes "for_res n (\<lambda>i. read_rb_piece fs junk dir alg interval i) (entry, st) = Inr (e', st')"
    and "\<forall>i < n. has_opt_file fs dir alg interval i (ps ! i)" "kt_flows (m_tbl st)" "n \<le> length ps"
  defines "es \<equiv> concat (map snd (take n ps))"
  shows "kt_flows (m_tbl st') \<and>
    kt_proj low (m_tbl st') k = add_to (kt_proj low (m_tbl st) k) (map low (flow_bounds es k)) \<and>
    kt_proj high (m_tbl st') k = add_to (kt_proj high (m_tbl st) k) (map high (flow_bounds es k)) \<and>
    kt_total (m_tbl st') k = add_to (kt_total (m_tbl st) k) (map (\<lambda>e. ucast (low e)) (flow_bounds es k)) \<and>
    (\<exists>ds. map (\<lambda>p. word_number atoll 1 (fst p @ [CHR 0x0A])) (take n ps) = map Inr ds \<and>
      m_tot st' = m_tot st + sum_list ds) \<and>
    (0 < n \<longrightarrow> word_number atoi 3 (fst (ps ! (n - 1)) @ [CHR 0x0A]) = Inr (m_dec st'))"
  using assms(1,2,4) unfolding es_def
proof (induction n arbitrary: e' st')
  case 0
  then show ?case using assms(3) by (simp add: add_to_def flow_bounds_def)
next
  case (Suc n)
  then obtain e1 st1 where f: "for_res n (\<lambda>i. read_rb_piece fs junk dir alg interval i) (entry, st) = Inr (e1, st1)"
    and p: "read_rb_piece fs junk dir alg interval n (e1, st1) = Inr (e', st')"
    by (auto simp: rbind_Inr_iff)
  obtain l es where pn: "ps ! n = (l, es)" by fastforce
  have t: "take (Suc n) ps = take n ps @ [(l, es)]" using Suc.prems(3) pn by (simp add: take_Suc_conv_app_nth)
  note ih = Suc.IH [OF f]
  have kf: "kt_flows (m_tbl st1)" using ih Suc.prems by simp
  have "has_opt_file fs dir alg interval n (l, es)" using Suc.prems(2) pn by (metis lessI)
  from read_rb_piece_totals [OF p this kf, of k] ih Suc.prems obtain ds d where
    "map (\<lambda>p. word_number atoll 1 (fst p @ [CHR 0x0A])) (take n ps) = map Inr ds"
    "m_tot st1 = m_tot st + sum_list ds" "word_number atoll 1 (l @ [CHR 0x0A]) = Inr d" "m_tot st' = m_tot st1 + d"
    by auto
  then have tot: "\<exists>ds. map (\<lambda>p. word_number atoll 1 (fst p @ [CHR 0x0A])) (take (Suc n) ps) = map Inr ds \<and>
      m_tot st' = m_tot st + sum_list ds" by (intro exI [of _ "ds @ [d]"]) (simp add: t add.assoc)
  note q = read_rb_piece_totals [OF p \<open>has_opt_file fs dir alg interval n (l, es)\<close> kf, of k]
  have totals: "kt_proj low (m_tbl st') k = add_to (kt_proj low (m_tbl st) k) (map low (flow_bounds (concat (map snd (take (Suc n) ps))) k))"
    "kt_proj high (m_tbl st') k = add_to (kt_proj high (m_tbl st) k) (map high (flow_bounds (concat (map snd (take (Suc n) ps))) k))"
    "kt_total (m_tbl st') k = add_to (kt_total (m_tbl st) k)
      (map (\<lambda>e. ucast (low e)) (flow_bounds (concat (map snd (take (Suc n) ps))) k))"
    using q ih Suc.prems by (simp_all add: t add_to_append flow_bounds_append)
  show ?case using q totals tot pn by simp
qed

text \<open>C38: \<open>read_rb_multi\<close> adds up what the files say. When the pieces are files of a first line and one
  line per flow with its two bounds (of at most 17 digits, longer lines are cut by the buffer of 100
  characters), the table has for every flow the sum of its lower and of its upper bounds over all
  pieces beside what it had, and its size has grown by the lower bounds modulo \<open>2^32\<close>; the total has grown by
  the second words of the first lines, and the number returned is the fourth word of the last one.\<close>

theorem read_rb_multi_totals:
  assumes "read_rb_multi fs junk entry dir alg interval tbl rb_tot rb_card (length ps) = Inr (tbl', tot, num, dec)"
    and "\<forall>i < length ps. has_opt_file fs dir alg interval i (ps ! i)" "kt_flows tbl" "ps \<noteq> []"
  shows "(\<forall>k. let es = flow_bounds (concat (map snd ps)) k
      in kt_proj low tbl' k = add_to (kt_proj low tbl k) (map low es) \<and>
         kt_proj high tbl' k = add_to (kt_proj high tbl k) (map high es) \<and>
         kt_total tbl' k = add_to (kt_total tbl k) (map (\<lambda>e. ucast (low e)) es)) \<and>
    (\<exists>ds. map (\<lambda>p. word_number atoll 1 (fst p @ [CHR 0x0A])) ps = map Inr ds \<and> tot = rb_tot + sum_list ds) \<and>
    word_number atoi 3 (fst (last ps) @ [CHR 0x0A]) = Inr dec"
proof -
  obtain e' st' where f: "for_res (length ps) (\<lambda>i. read_rb_piece fs junk dir alg interval i)
      (entry, \<lparr>m_tbl = tbl, m_tot = rb_tot, m_card = rb_card, m_dec = 0\<rparr>) = Inr (e', st')"
    and "m_tbl st' = tbl'" "m_tot st' = tot" "m_dec st' = dec"
    using assms(1) by (auto simp: read_rb_multi_def rbind_Inr_iff)
  then show ?thesis using read_rb_pieces_totals [OF f assms(2)] assms(3,4)
    by (simp add: Let_def last_conv_nth)
qed

lemma key_tbl_upd_empty:
  assumes "kt_empty tbl" "kt_acc tbl" "0 < tbl_list_len tbl"
  shows "\<exists>tbl'. key_tbl_upd tbl k f = Inr tbl'"
proof -
  have b: "bucket_no tbl k < tbl_list_size tbl"
    using assms(2) by (simp add: kt_acc_def kt_inv_bucket_no)
  then have "live tbl (bucket_no tbl k) = []" "list_len tbl ! bucket_no tbl k = 0"
    using assms(1) by (simp_all add: kt_empty_live) (simp add: kt_empty_def)
  then show ?thesis using assms(3) by (simp add: key_tbl_upd_cases [OF assms(2)] key_tbl_find_index Let_def)
qed

definition demo_entry :: key_tbl_entry where
  "demo_entry = zero_entry\<lparr>low := 3, high := 7\<rparr>"

definition demo_fs :: file_system where
  "demo_fs = [''/rb_a_1_0_opt'' \<mapsto> opt_file (''total 9 keys 1'', [demo_entry]),
     ''/stat_a_1_0'' \<mapsto> ''appro keys 1'' @ [CHR 0x0A]]"

lemma read_rb_multi_totals_witness:
  "\<exists>tbl tbl' num. read_rb_multi demo_fs 0 zero_entry ''/'' ''a'' 1 tbl 0 0 1 = Inr (tbl', 9, num, 1) \<and>
    kt_proj low tbl' zero_key = Some 3 \<and> kt_proj high tbl' zero_key = Some 7"
proof -
  obtain tbl s where i: "key_tbl_init 7 0 104 2 3 (- 1) = Inr (tbl, s)" using demo_init by blast
  note f = init_flows [OF i demo_size]
  have "0 < tbl_list_len tbl" using key_tbl_init_fresh [OF i demo_size] by auto
  then obtain tbl' where u: "key_tbl_upd tbl zero_key (add_bounds (3, 7)) = Inr tbl'"
    using key_tbl_upd_empty [OF f(1), of zero_key "add_bounds (3, 7)"] f(2) by (auto simp: kt_flows_def)
  have paths: "opt_path ''/'' ''a'' 1 0 = Inr ''/rb_a_1_0_opt''"
    "sprintf_100 (parse_fmt ''%sstat_%s_%d_%d'') [StrArg ''/'', StrArg ''a'', IntArg 1, IntArg 0] = Inr ''/stat_a_1_0''"
    "word_number atoll 1 (''total 9 keys 1'' @ [CHR 0x0A]) = Inr 9" "word_number atoi 3 (''total 9 keys 1'' @ [CHR 0x0A]) = Inr 1"
    "appro_keys [''appro keys 1'' @ [CHR 0x0A]] = Inr (Some 1)" by code_simp+
  have stat: "lines_100 (''appro keys 1'' @ [CHR 0x0A]) = [''appro keys 1'' @ [CHR 0x0A]]"
    using lines_100_line [of "''appro keys 1''" "[]"] by simp
  have sb: "short_bounds demo_entry" by code_simp
  have h: "\<forall>i < length [(''total 9 keys 1'', [demo_entry])].
      has_opt_file demo_fs ''/'' ''a'' 1 i ([(''total 9 keys 1'', [demo_entry])] ! i)"
    using paths(1) sb by (simp add: has_opt_file_def demo_fs_def)
  have "lines_100 (opt_file (''total 9 keys 1'', [demo_entry])) =
      [''total 9 keys 1'' @ [CHR 0x0A], opt_text demo_entry @ [CHR 0x0A]]"
    using lines_opt [of "''total 9 keys 1''" "[demo_entry]"] sb by (simp add: opt_file_def)
  moreover have "tkey (tuple demo_entry) = zero_key" "low demo_entry = 3" "high demo_entry = 7"
    by (simp_all add: demo_entry_def zero_entry_def zero_tuple_def)
  ultimately have r: "\<exists>num. read_rb_multi demo_fs 0 zero_entry ''/'' ''a'' 1 tbl 0 0 1 = Inr (tbl', 9, num, 1)"
    using paths stat u by (simp add: read_rb_multi_def read_rb_piece_def opt_path_def fopen_lines_def demo_fs_def
        read_opt_text Let_def)
  then obtain num where r: "read_rb_multi demo_fs 0 zero_entry ''/'' ''a'' 1 tbl 0 0 1 = Inr (tbl', 9, num, 1)" by blast
  have "length [(''total 9 keys 1'', [demo_entry])] = 1" by simp
  with read_rb_multi_totals [where ps = "[(''total 9 keys 1'', [demo_entry])]", OF _ h f(2)] r
  have "kt_proj low tbl' zero_key = add_to (kt_proj low tbl zero_key) [3]" "kt_proj high tbl' zero_key = add_to (kt_proj high tbl zero_key) [7]"
    by (auto simp: Let_def flow_bounds_def demo_entry_def zero_entry_def zero_tuple_def)
  moreover have "kt_proj low tbl zero_key = None" "kt_proj high tbl zero_key = None"
    using f(3) by (simp_all add: kt_total_proj kt_proj_def)
  ultimately show ?thesis using r by (auto simp: add_to_def)
qed

end
