(* ===== verification/Sketch_Api.thy ===== *)
theory Sketch_Api
  imports Sketch_Recovery Sketch_Text
begin

text \<open>
  The operations of \<^verbatim>\<open>alg_sketchlearn.c\<close> as one interface. \<open>sketch_op s u\<close> holds when some operation
  that returns leaves the sketch \<open>s\<close> as \<open>u\<close>. No sequence of operations, whatever their arguments,
  files and buffers, takes a sketch out of its well-formed shape, and from there the operations on
  two sketches return or end the process exactly as their guards say.
\<close>

section \<open>The step relation\<close>

inductive sketch_op :: "skl_t \<Rightarrow> skl_t \<Rightarrow> bool" where
  update: "sketch_op s (SKL_Update s key d)"
| update_fast: "sketch_op s (SKL_Update_Fast s key d)"
| update_select: "0 < depth s \<Longrightarrow> sketch_op s (SKL_Update_Select s key d select h sc harder)"
| complete: "SKL_CompleteZeroes s = Inr u \<Longrightarrow> sketch_op s u"
| reset: "sketch_op s (SKL_Reset s)"
| merge: "SKL_Merge s t = Inr u \<Longrightarrow> sketch_op s u"
| diff: "SKL_Diff s t = Inr u \<Longrightarrow> sketch_op s u"
| copy: "SKL_Copy s t = Inr u \<Longrightarrow> sketch_op s u"
| copy_row: "SKL_Copy_OneRow s t r = Inr u \<Longrightarrow> sketch_op s u"
| deserialize: "SKL_Deserialize s buf = Inr (u, n) \<Longrightarrow> sketch_op s u"
| read_file: "SKL_ReadFile junk64 junk f s = Inr u \<Longrightarrow> sketch_op s u"
| read_row: "SKL_ReadFile_Onerow junk64 junk f row s = Inr u \<Longrightarrow> sketch_op s u"
| identify: "SKL_Identify_Thresh erf s ratio max_ret template = Inr (u, fs) \<Longrightarrow> sketch_op s u"

section \<open>What every operation keeps\<close>

text \<open>Counters may change, the shape of the table may not.\<close>

definition same_rows :: "i32 list list \<Rightarrow> i32 list list \<Rightarrow> bool" where
  "same_rows cs ds \<longleftrightarrow> map length cs = map length ds"

definition keeps_shape :: "skl_t \<Rightarrow> skl_t \<Rightarrow> bool" where
  "keeps_shape s u \<longleftrightarrow> width u = width s \<and> depth u = depth s \<and> lgn u = lgn s \<and> sk_size u = sk_size s \<and>
     same_rows (counts u) (counts s) \<and> length (bit_mean u) = length (bit_mean s) \<and>
     length (bit_std u) = length (bit_std s)"

lemma same_rows_refl [simp]: "same_rows cs cs" by (simp add: same_rows_def)

lemma same_rows_trans: "same_rows a b \<Longrightarrow> same_rows b c \<Longrightarrow> same_rows a c" by (simp add: same_rows_def)

lemma same_rows_upd: "length row = length (cs ! i) \<Longrightarrow> same_rows (cs[i := row]) cs"
  by (simp add: same_rows_def map_update) (metis length_map list_update_beyond list_update_id not_le nth_map)

lemma keeps_shape_refl [simp]: "keeps_shape s s" by (simp add: keeps_shape_def)

lemma keeps_shape_trans: "keeps_shape s t \<Longrightarrow> keeps_shape t u \<Longrightarrow> keeps_shape s u"
  by (auto simp: keeps_shape_def intro: same_rows_trans)

lemma keeps_shape_row:
  "length row = length (counts s ! i) \<Longrightarrow> keeps_shape s (s\<lparr>counts := (counts s)[i := row]\<rparr>)"
  by (simp add: keeps_shape_def same_rows_upd)

lemma same_rows_all:
  assumes "same_rows cs ds"
  shows "(\<forall>row \<in> set cs. length row = n) \<longleftrightarrow> (\<forall>row \<in> set ds. length row = n)" "length cs = length ds"
proof -
  have "(\<forall>row \<in> set xs. length row = n) \<longleftrightarrow> (\<forall>l \<in> set (map length xs). l = n)" for xs :: "i32 list list" by simp
  with assms show "(\<forall>row \<in> set cs. length row = n) \<longleftrightarrow> (\<forall>row \<in> set ds. length row = n)"
    by (simp only: same_rows_def)
  show "length cs = length ds" using assms by (metis same_rows_def length_map)
qed

lemma keeps_shape_ok: "keeps_shape s u \<Longrightarrow> skl_ok s \<Longrightarrow> skl_ok u"
  using same_rows_all(1) [of "counts u" "counts s" "1 + lgn s * 2"] same_rows_all(2) [of "counts u" "counts s"]
  by (simp add: keeps_shape_def skl_ok_def)

lemma ok_shape:
  "skl_ok s \<Longrightarrow> skl_ok u \<Longrightarrow> width u = width s \<Longrightarrow> depth u = depth s \<Longrightarrow> lgn u = lgn s \<Longrightarrow> keeps_shape s u"
  by (auto simp: keeps_shape_def skl_ok_def same_rows_def intro!: nth_equalityI)

text \<open>Loops over the buckets keep the shape when their body does.\<close>

lemma for_res_shape:
  assumes "for_res n body s = Inr u" "\<And>i t v. body i t = Inr v \<Longrightarrow> keeps_shape t v"
  shows "keeps_shape s u"
  using assms(1) by (rule for_res_rule [where I = "\<lambda>_ t. keeps_shape s t"]) (auto intro: assms(2) keeps_shape_trans)

lemma length_row_op: "row_op f n drow srow = Inr row \<Longrightarrow> length row = length drow"
  unfolding row_op_def
  by (rule for_res_rule [where I = "\<lambda>_ r. length r = length drow"])
    (auto simp: arr_set_def arr_get_def split: if_splits)

lemma length_copy_row: "copy_row n drow srow = Inr row \<Longrightarrow> length row = length drow"
  by (auto simp: copy_row_def split: if_splits)

lemma arr_get_Inr: "arr_get xs i = Inr x \<longleftrightarrow> i < length xs \<and> x = xs ! i"
  by (auto simp: arr_get_def)

lemma cells_op_shape: "cells_op f s t = Inr u \<Longrightarrow> keeps_shape s u"
  unfolding cells_op_def
  by (erule for_res_shape) (auto simp: arr_get_Inr length_row_op intro!: keeps_shape_row)

lemma SKL_Copy_shape: "SKL_Copy s t = Inr u \<Longrightarrow> keeps_shape s u"
  unfolding SKL_Copy_def
  by (auto split: if_splits elim!: for_res_shape) (auto simp: arr_get_Inr length_copy_row intro!: keeps_shape_row)

lemma SKL_Copy_OneRow_shape: "SKL_Copy_OneRow s t r = Inr u \<Longrightarrow> keeps_shape s u"
proof -
  assume "SKL_Copy_OneRow s t r = Inr u"
  then obtain v where v: "for_res (width t) (\<lambda>c d. rbind (arr_get (counts d) c) (\<lambda>drow.
        rbind (arr_get (counts t) (r * width t + c)) (\<lambda>srow. rbind (copy_row (1 + lgn t * 2) drow srow) (\<lambda>row.
          Inr (d\<lparr>counts := (counts d)[c := row]\<rparr>))))) s = Inr v"
    and u: "counts u = counts v" "width u = width v" "depth u = depth v" "lgn u = lgn v" "sk_size u = sk_size v"
      "bit_mean u = bit_mean v" "bit_std u = bit_std v"
    by (auto simp: SKL_Copy_OneRow_def split: if_splits)
  from v have "keeps_shape s v"
    by (rule for_res_shape) (auto simp: arr_get_Inr length_copy_row intro!: keeps_shape_row)
  then show ?thesis using u by (simp add: keeps_shape_def)
qed

lemma deser_loop_rows: "deser_loop buf tot pos cs = Inr ds \<Longrightarrow> same_rows ds cs"
proof (induction buf tot pos cs rule: deser_loop.induct)
  case (1 buf tot pos cs)
  show ?case
  proof (cases "tot \<le> pos")
    case False
    then have "\<exists>i j v. same_rows ds (cs[i := (cs ! i)[j := v]])" using 1
      by (simp add: deser_loop.simps [of buf tot pos cs] Let_def split: if_splits) blast
    then show ?thesis by (auto elim!: same_rows_trans intro!: same_rows_upd)
  qed (use 1 in \<open>simp add: deser_loop.simps [of buf tot pos cs]\<close>)
qed

lemma put_counter_shape: "put_counter idx p v s = Inr u \<Longrightarrow> keeps_shape s u"
  by (auto simp: put_counter_def split: if_splits intro: keeps_shape_row)

lemma read_body_shape: "read_body row_of junk ls st = Inr st' \<Longrightarrow> keeps_shape (rd_skl st) (rd_skl st')"
proof (induction ls arbitrary: st)
  case (Cons l ls)
  then obtain st1 where s: "(if l \<noteq> [] \<and> is_digit (hd l) then read_total row_of junk l st else read_bit junk l st) = Inr st1"
    and r: "read_body row_of junk ls st1 = Inr st'" by (auto simp: rbind_Inr_iff)
  have "keeps_shape (rd_skl st) (rd_skl st1)"
    using s put_counter_shape keeps_shape_trans
    by (fastforce simp: read_total_def read_bit_def Let_def split: if_splits)
  then show ?case using Cons.IH [OF r] by (rule keeps_shape_trans)
qed simp

lemma read_sketch_shape:
  "read_sketch fits_dims row_of junk64 junk ls st = Inr st' \<Longrightarrow> keeps_shape (rd_skl st) (rd_skl st')"
  by (auto simp: read_sketch_def Let_def read_body_shape split: list.splits if_splits)

section \<open>Well-formedness\<close>

lemma sketch_op_shape: "sketch_op s u \<Longrightarrow> skl_ok s \<Longrightarrow> keeps_shape s u"
proof (induction rule: sketch_op.induct)
  case (update s key d)
  then show ?case using skl_ok_Update [OF update] by (intro ok_shape) simp_all
next
  case (update_fast s key d)
  show ?case by (simp add: SKL_Update_Fast_nothing)
next
  case (update_select s key d select h sc harder)
  then show ?case using upd_rows_shape(1) [OF _ select_rows_ok] by (intro ok_shape) (simp_all add: SKL_Update_Select_rows)
next
  case (complete s u)
  then show ?case using completed_same [of s "[]" u] by (intro ok_shape) (simp_all add: same_sketch_def)
next
  case (reset s)
  then show ?case using SKL_Reset_fresh(1) [OF reset]
    by (intro ok_shape) (simp_all add: SKL_Reset_counts fresh_sketch_def)
next
  case (merge s t u)
  then show ?case by (auto simp: SKL_Merge_def cells_op_shape split: if_splits)
next
  case (diff s t u)
  then show ?case by (auto simp: SKL_Diff_def cells_op_shape split: if_splits)
next
  case (copy s t u)
  then show ?case by (simp add: SKL_Copy_shape)
next
  case (copy_row s t r u)
  then show ?case by (simp add: SKL_Copy_OneRow_shape)
next
  case (deserialize s buf u n)
  then show ?case by (auto simp: SKL_Deserialize_def Let_def keeps_shape_def deser_loop_rows split: if_splits)
next
  case (read_file junk64 junk f s u)
  then show ?case by (auto simp: SKL_ReadFile_def dest!: read_sketch_shape split: option.splits)
next
  case (read_row junk64 junk f row s u)
  then show ?case by (auto simp: SKL_ReadFile_Onerow_def dest!: read_sketch_shape split: option.splits)
next
  case (identify erf s ratio max_ret template u fs)
  then show ?case using compute_bit_dists_ok [of s u] by (intro ok_shape) (auto simp: same_sketch_def SKL_Identify_Thresh_def)
qed

section \<open>Two sketches: the guards\<close>

text \<open>
  A row of the destination shorter than the \<open>n\<close> counters that the loop writes is left with an error,
  a longer one is not.
\<close>

lemma for_res_Inl: "for_res m body s = Inl e \<Longrightarrow> m \<le> n \<Longrightarrow> for_res n body s = Inl e"
  by (induction n) (auto simp: le_Suc_eq)

lemma row_op_cases:
  assumes "length srow = n"
  shows "if n \<le> length drow then \<exists>row. row_op f n drow srow = Inr row \<and> length row = length drow
    else row_op f n drow srow = Inl OutOfBounds"
proof -
  let ?body = "\<lambda>j row. rbind (arr_get row j) (\<lambda>a. rbind (arr_get srow j) (\<lambda>b. arr_set row j (f a b)))"
  have run: "\<exists>row. for_res m ?body drow = Inr row \<and> length row = length drow"
    if "m \<le> length drow" "m \<le> n" for m
    using that assms
    by (intro for_res_total [where I = "\<lambda>_ row. length row = length drow"]) (auto simp: arr_get_def arr_set_def)
  show ?thesis
  proof (cases "n \<le> length drow")
    case True
    then show ?thesis using run [of n] by (simp add: row_op_def)
  next
    case False
    then obtain row where "for_res (length drow) ?body drow = Inr row" "length row = length drow"
      using run [of "length drow"] by auto
    then have "for_res (Suc (length drow)) ?body drow = Inl OutOfBounds" by (simp add: arr_get_def)
    then show ?thesis using False for_res_Inl [of "Suc (length drow)" ?body drow OutOfBounds n]
      by (simp add: row_op_def)
  qed
qed

text \<open>The loop over the buckets, for a row operation \<open>g\<close> of either kind.\<close>

lemma rows_cases:
  assumes ok: "skl_ok s" "skl_ok t" and k: "k \<le> sk_size s" "off + k \<le> sk_size t"
    and g: "\<And>drow srow. length srow = 1 + lgn t * 2 \<Longrightarrow>
      if 1 + lgn t * 2 \<le> length drow then \<exists>row. g drow srow = Inr row \<and> length row = length drow
      else g drow srow = Inl OutOfBounds"
  shows "if lgn t \<le> lgn s \<or> k = 0
    then \<exists>u. for_res k (\<lambda>i d. rbind (arr_get (counts d) i) (\<lambda>drow. rbind (arr_get (counts t) (off + i)) (\<lambda>srow.
      rbind (g drow srow) (\<lambda>row. Inr (d\<lparr>counts := (counts d)[i := row]\<rparr>))))) s = Inr u
    else for_res k (\<lambda>i d. rbind (arr_get (counts d) i) (\<lambda>drow. rbind (arr_get (counts t) (off + i)) (\<lambda>srow.
      rbind (g drow srow) (\<lambda>row. Inr (d\<lparr>counts := (counts d)[i := row]\<rparr>))))) s = Inl OutOfBounds"
    (is "if _ then \<exists>u. for_res k ?body s = Inr u else _")
proof -
  have srow: "arr_get (counts t) (off + i) = Inr (counts t ! (off + i)) \<and> length (counts t ! (off + i)) = 1 + lgn t * 2"
    if "i < k" for i
    using that k counts_length [OF ok(2)] rows_length [OF ok(2), of "off + i"] by (simp add: arr_get_def)
  show ?thesis
  proof (cases "lgn t \<le> lgn s")
    case True
    let ?I = "\<lambda>_ (d :: skl_t). length (counts d) = sk_size s \<and> (\<forall>row \<in> set (counts d). length row = 1 + lgn s * 2)"
    have "\<exists>u. for_res k ?body s = Inr u \<and> ?I k u"
    proof (rule for_res_total)
      show "?I 0 s" using ok(1) by (simp add: skl_ok_def)
    next
      fix i d
      assume i: "i < k" and d: "?I i d"
      then have l: "i < length (counts d)" "length (counts d ! i) = 1 + lgn s * 2" using k(1) by simp_all
      with g [of "counts t ! (off + i)" "counts d ! i"] srow [OF i] True obtain row where
        "g (counts d ! i) (counts t ! (off + i)) = Inr row" "length row = 1 + lgn s * 2" by auto
      then show "\<exists>t. ?body i d = Inr t \<and> ?I (Suc i) t"
        using l srow [OF i] d by (auto simp: arr_get_def dest!: subsetD [OF set_update_subset_insert])
    qed
    then show ?thesis using True by auto
  next
    case False
    show ?thesis
    proof (cases k)
      case (Suc m)
      have "length (counts s ! 0) = 1 + lgn s * 2" "0 < length (counts s)"
        using Suc k(1) rows_length [OF ok(1), of 0] counts_length [OF ok(1)] by simp_all
      then have "for_res 1 ?body s = Inl OutOfBounds"
        using g [of "counts t ! off" "counts s ! 0"] srow [of 0] Suc False by (simp add: arr_get_def)
      then show ?thesis using for_res_Inl [of 1 ?body s OutOfBounds k] Suc False by simp
    qed simp
  qed
qed

lemma copy_row_cases:
  "length srow = n \<Longrightarrow> if n \<le> length drow then \<exists>row. copy_row n drow srow = Inr row \<and> length row = length drow
    else copy_row n drow srow = Inl OutOfBounds"
  by (simp add: copy_row_def)

lemma two_sketches_cases:
  assumes ok: "skl_ok s" "skl_ok t" and op: "op \<in> {SKL_Merge, SKL_Diff, SKL_Copy}"
  shows "if width s \<noteq> width t \<or> depth s \<noteq> depth t then op s t = Inl ExitError
    else if lgn t \<le> lgn s \<or> depth t = 0 then \<exists>u. op s t = Inr u
    else op s t = Inl OutOfBounds"
proof (cases "width s \<noteq> width t \<or> depth s \<noteq> depth t")
  case True
  then show ?thesis using op by (auto simp: SKL_Merge_def SKL_Diff_def SKL_Copy_def)
next
  case False
  then have z: "sk_size t = sk_size s" "sk_size s = 0 \<longleftrightarrow> depth t = 0" using ok by (auto simp: skl_ok_def)
  then have "0 + sk_size s \<le> sk_size t" by simp
  note r = rows_cases [OF ok order_refl this]
  show ?thesis
    using op False z r [OF row_op_cases [of _ _ _ "(+)"]]
      r [OF row_op_cases [of _ _ _ "(-)"]] r [OF copy_row_cases]
    by (auto simp: SKL_Merge_def SKL_Diff_def SKL_Copy_def cells_op_def split: if_splits)
qed

lemma copy_one_row_cases:
  assumes ok: "skl_ok s" "skl_ok t"
  shows "if width s \<noteq> width t \<or> depth s \<noteq> 1 \<or> depth t \<le> r then SKL_Copy_OneRow s t r = Inl ExitError
    else if lgn t \<le> lgn s then \<exists>u. SKL_Copy_OneRow s t r = Inr u
    else SKL_Copy_OneRow s t r = Inl OutOfBounds"
proof (cases "width s \<noteq> width t \<or> depth s \<noteq> 1 \<or> depth t \<le> r")
  case True
  then show ?thesis by (auto simp: SKL_Copy_OneRow_def)
next
  case False
  then have k: "width t \<le> sk_size s" "0 < width t" using ok by (auto simp: skl_ok_def)
  have "Suc r * width t \<le> depth t * width t" using False by (intro mult_right_mono) simp_all
  then have o: "r * width t + width t \<le> sk_size t" using ok(2) by (simp add: skl_ok_def algebra_simps)
  show ?thesis using rows_cases [where g = "copy_row (1 + lgn t * 2)", OF ok k(1) o copy_row_cases] False k(2)
    by (auto simp: SKL_Copy_OneRow_def split: if_splits)
qed

text \<open>The reader ends the process when the first line of the file has other dimensions.\<close>

lemma read_other_dims:
  assumes ok: "skl_ok s" "skl_ok t" "sk_size s < 2 ^ 31" "sk_size t < 2 ^ 31"
    and ne: "width s \<noteq> width t \<or> depth s \<noteq> depth t"
  shows "SKL_ReadFile junk64 junk (Some (SKL_Print t)) s = Inl ExitError"
proof -
  have t: "small_sketch t" "small_sketch s" using ok by (simp_all add: small_sketch_def)
  have e: "ends_number [CHR 0x0A]" by code_simp
  have d: "sscanf fmt_dims (dims_line t @ [CHR 0x0A]) = [int (depth t), int (width t)]"
    unfolding dims_line_def by (rule sscanf_printf [OF fmt_eqs(3) dims_fit [OF t(1)] e])
  have b: "depth t < 2 ^ 31" "depth s < 2 ^ 31" "width s < 2 ^ 31" "width t < 2 ^ 31"
    using depth_bound [OF t(1)] depth_bound [OF t(2)] ok by (simp_all add: skl_ok_def)
  have "unat (of_nat a :: u64) = a" if "a < 2 ^ 31" for a using that by (simp add: unat_of_nat)
  then have "(of_nat a :: u64) = of_nat c \<longleftrightarrow> a = c" if "a < 2 ^ 31" "c < 2 ^ 31" for a c
    using that by metis
  with b have "\<not> ((of_nat (depth t) :: u64) = of_nat (depth s) \<and> (of_nat (width t) :: u64) = of_nat (width s))"
    using ne by auto
  then show ?thesis using d by (auto simp: SKL_ReadFile_def lines_SKL_Print [OF t(1)] read_sketch_def scanned_def)
qed

text \<open>A sketch that was set up and then worked on.\<close>

lemma sketch_ops_ok:
  assumes "SKL_Init rand glob w d n = Inr (s, glob')" "w \<le> INT_MAX" "8 dvd n" "n \<le> 104"
    and "sketch_op\<^sup>*\<^sup>* s u"
  shows "skl_ok u \<and> depth u = d \<and> width u = width s \<and> lgn u = n \<and> sk_size u < 2 ^ 31 \<and> 2 \<le> width u"
proof -
  have s: "skl_ok s" "depth s = d" "lgn s = n"
    using SKL_Init_fresh [OF assms(1-4)] fresh_sketch_ok by auto
  obtain w' where w': "calc_next_prime w = Inr w'" using assms(1) by (auto simp: SKL_Init_def)
  then have b: "2 \<le> w'" using calc_next_prime_bounds assms(2) by blast
  have i: "width s = nat w'" "w' * int d \<le> INT_MAX" "sk_size s = nat w' * d"
    using assms(1) w' by (auto simp: SKL_Init_def Let_def split: if_splits prod.splits)
  then have "int (sk_size s) \<le> INT_MAX" using b by simp
  then have z: "sk_size s < 2 ^ 31" "2 \<le> width s" using i(1) b by (simp_all add: INT_MAX_def)
  from assms(5) have "skl_ok u \<and> keeps_shape s u"
  proof (induction rule: rtranclp_induct)
    case (step t u)
    then have "keeps_shape t u" using sketch_op_shape by blast
    then show ?case using step.IH keeps_shape_ok keeps_shape_trans by blast
  qed (simp add: s)
  then show ?thesis using s z by (simp add: keeps_shape_def)
qed

text \<open>C15: the operations on sketches return or end the process as their guards say, and leave the arrays only
  where the guards have a gap. Take two sketches that \<open>SKL_Init\<close> returned (key lengths of whole bytes, up
  to 104 bits) after any sequence of operations on each. Completion returns. Merging, subtracting
  and copying end the process exactly when the numbers of rows or buckets differ, copying a row
  exactly when the widths differ, the destination has not one row or the row is not there; reading the
  other's printed form ends the process when the dimensions differ. Otherwise the operation returns
  when the source has no more key bits than the destination, and leaves the destination's arrays when it has
  more (and there is a row), which no guard checks. A copy between equal key lengths has the
  counters of the source.\<close>

theorem sketch_ops_typed:
  assumes "SKL_Init rand glob w d n = Inr (s, glob1)" "w \<le> INT_MAX" "8 dvd n" "n \<le> 104" "sketch_op\<^sup>*\<^sup>* s u"
    and "SKL_Init rand' glob' w' d' n' = Inr (t, glob2)" "w' \<le> INT_MAX" "8 dvd n'" "n' \<le> 104" "sketch_op\<^sup>*\<^sup>* t v"
    and "op \<in> {SKL_Merge, SKL_Diff, SKL_Copy}"
  shows "(\<exists>u'. SKL_CompleteZeroes u = Inr u') \<and>
    (if width s \<noteq> width t \<or> d \<noteq> d'
     then op u v = Inl ExitError \<and> SKL_ReadFile junk64 junk (Some (SKL_Print v)) u = Inl ExitError
     else if n' \<le> n \<or> d = 0 then \<exists>u'. op u v = Inr u' else op u v = Inl OutOfBounds) \<and>
    (if width s \<noteq> width t \<or> d \<noteq> 1 \<or> d' \<le> r then SKL_Copy_OneRow u v r = Inl ExitError
     else if n' \<le> n then \<exists>u'. SKL_Copy_OneRow u v r = Inr u' else SKL_Copy_OneRow u v r = Inl OutOfBounds) \<and>
    (width s = width t \<and> d = d' \<and> n = n' \<longrightarrow> SKL_Copy u v = Inr (u\<lparr>counts := counts v\<rparr>))"
proof -
  note u = sketch_ops_ok [OF assms(1-5)] and v = sketch_ops_ok [OF assms(6-10)]
  have "lgn (complete_counts u) \<le> 104 \<and> depth (complete_counts u) * width (complete_counts u) \<noteq> 1"
    using u complete_counts_eq [of u] by (auto simp: skl_ok_def)
  then have "\<exists>u'. SKL_CompleteZeroes u = Inr u'"
    by (auto simp: SKL_CompleteZeroes_def compute_bit_dists_def Let_def)
  then show ?thesis
    using u v two_sketches_cases [of u v, OF _ _ assms(11)] copy_one_row_cases [of u v r]
      read_other_dims [of u v junk64 junk] SKL_Copy_cells [of u v]
    by (auto simp: same_shape_def split: if_splits)
qed

lemma sketch_ops_typed_witness:
  "\<exists>s g u. SKL_Init 7 0 2 1 8 = Inr (s, g) \<and> SKL_Copy (SKL_Update s [5] 3) s = Inr u \<and> counts u = counts s \<and>
    SKL_Copy_OneRow (SKL_Update s [5] 3) s 1 = Inl ExitError"
proof -
  have "calc_next_prime 2 = Inr 2" by code_simp
  then have "\<exists>s g. SKL_Init 7 0 2 1 8 = Inr (s, g)"
    by (simp add: SKL_Init_def INT_MAX_def Let_def split: prod.split)
  then obtain s g where i: "SKL_Init 7 0 2 1 8 = Inr (s, g)" by blast
  have "sketch_op\<^sup>*\<^sup>* s (SKL_Update s [5] 3)" by (rule r_into_rtranclp) (rule sketch_op.intros)
  from sketch_ops_typed [OF i _ _ _ this i _ _ _ rtranclp.rtrancl_refl, of SKL_Copy 1] i
  show ?thesis by (auto simp: INT_MAX_def)
qed

end
