(* ===== verification/Sketch_Dist.thy ===== *)
theory Sketch_Dist
  imports Key_Table Sketch Text
begin

text \<open>
  The exact tables that \<^verbatim>\<open>alg_sketchlearn.c\<close> can keep beside a sketch (the \<open>SKL_Dist\<close> functions): one
  flow table per bucket, or one per row. The global arrays \<open>bucket_tbl\<close> and \<open>bucket_tbl_select\<close>
  are passed explicitly. The main result is that every bucket table accounts for exactly the
  packets that the sketch counts in that bucket.
\<close>

section \<open>Operations\<close>

definition SKL_DistInit :: "u64 \<Rightarrow> u64 \<Rightarrow> nat \<Rightarrow> nat \<Rightarrow> nat \<Rightarrow> (key_tbl list \<times> u64) res" where
  "SKL_DistInit rand glob w d key_len =
     for_res d (\<lambda>i. for_res w (\<lambda>j (tbls, glob).
       rbind (key_tbl_init rand glob key_len 1000 20 (- 1)) (\<lambda>(tbl, glob').
       Inr (tbls @ [tbl], glob')))) ([], glob)"

definition SKL_DistInit_Select :: "u64 \<Rightarrow> u64 \<Rightarrow> nat \<Rightarrow> nat \<Rightarrow> nat \<Rightarrow> (key_tbl list \<times> u64) res" where
  "SKL_DistInit_Select rand glob w d key_len =
     for_res d (\<lambda>i (tbls, glob).
       rbind (key_tbl_init rand glob key_len 10000 30 (- 1)) (\<lambda>(tbl, glob').
       Inr (tbls @ [tbl], glob'))) ([], glob)"

text \<open>\<open>record = key_tbl_record(bucket_tbl[idx], key, -1); record->tuple.size += diff\<close>.\<close>

definition dist_add :: "nat \<Rightarrow> flow_key \<Rightarrow> i32 \<Rightarrow> key_tbl list \<Rightarrow> key_tbl list res" where
  "dist_add idx k diff tbls =
     rbind (arr_get tbls idx) (\<lambda>tbl. rbind (key_tbl_add tbl k diff) (\<lambda>tbl'. arr_set tbls idx tbl'))"

definition SKL_DistCount :: "skl_t \<Rightarrow> key_tbl list \<Rightarrow> flow_key \<Rightarrow> i32 \<Rightarrow> key_tbl list res" where
  "SKL_DistCount skl tbls k diff =
     for_res (depth skl) (\<lambda>i. dist_add (i * width skl + bucket_of skl i (key_bytes k)) k diff) tbls"

definition SKL_DistCount_Select ::
    "skl_t \<Rightarrow> key_tbl list \<Rightarrow> flow_key \<Rightarrow> i32 \<Rightarrow> nat \<Rightarrow> u64 \<Rightarrow> u64 \<Rightarrow> u64 \<Rightarrow> key_tbl list res" where
  "SKL_DistCount_Select skl tbls k diff select h s harder =
     (let select_hash = unat (AwareHash (key_bytes k) (lgn skl div 8) h s harder mod of_nat (depth skl))
      in for_res select (\<lambda>i. dist_add ((select_hash + i) mod depth skl) k diff) tbls)"

definition fmt_dist :: "fitem list" where
  "fmt_dist = parse_fmt (''%lu %lu keys %d total %d'' @ [CHR 0x0A])"

definition fmt_dist_select :: "fitem list" where
  "fmt_dist_select = parse_fmt (''%lu keys %d'' @ [CHR 0x0A])"

text \<open>The file written and the tables, which are reset on the way.\<close>

definition SKL_DistPrint :: "skl_t \<Rightarrow> key_tbl list \<Rightarrow> (string \<times> key_tbl list) res" where
  "SKL_DistPrint skl tbls =
     for_res (depth skl) (\<lambda>i. for_res (width skl) (\<lambda>j (out, tbls).
       let index = i * width skl + j in
       rbind (arr_get tbls index) (\<lambda>tbl.
       rbind (arr_set tbls index (key_tbl_reset tbl)) (\<lambda>tbls'.
         Inr (out @ printf fmt_dist [IntArg (int i), IntArg (int j), IntArg (sint (num_key tbl)),
                IntArg (sint (counts skl ! index ! 0))] @ key_tbl_print tbl, tbls'))))) ([], tbls)"

definition SKL_DistPrint_Select :: "skl_t \<Rightarrow> key_tbl list \<Rightarrow> (string \<times> key_tbl list) res" where
  "SKL_DistPrint_Select skl tbls =
     for_res (depth skl) (\<lambda>i (out, tbls).
       rbind (arr_get tbls i) (\<lambda>tbl.
       rbind (arr_set tbls i (key_tbl_reset tbl)) (\<lambda>tbls'.
         Inr (out @ printf fmt_dist_select [IntArg (int i), IntArg (sint (num_key tbl))] @
           key_tbl_print tbl, tbls')))) ([], tbls)"

section \<open>Each bucket table sees its own packets\<close>

fun dist_run :: "skl_t \<Rightarrow> key_tbl list \<Rightarrow> tuple_t list \<Rightarrow> key_tbl list res" where
  "dist_run skl tbls [] = Inr tbls"
| "dist_run skl tbls (t # ts) =
     rbind (SKL_DistCount skl tbls (tkey t) (tsize t)) (\<lambda>tbls'. dist_run skl tbls' ts)"

definition in_bucket :: "skl_t \<Rightarrow> nat \<Rightarrow> nat \<Rightarrow> tuple_t \<Rightarrow> bool" where
  "in_bucket skl i j t \<longleftrightarrow> bucket_of skl i (key_bytes (tkey t)) = j"

lemma dist_add_at:
  assumes "dist_add idx k diff tbls = Inr tbls'"
  shows "idx < length tbls" "length tbls' = length tbls"
    "key_tbl_add (tbls ! idx) k diff = Inr (tbls' ! idx)" "q \<noteq> idx \<Longrightarrow> tbls' ! q = tbls ! q"
  using assms by (auto simp: dist_add_def arr_get_def arr_set_def split: if_splits)

lemma SKL_DistCount_at:
  assumes "SKL_DistCount skl tbls k diff = Inr tbls'" "i < depth skl" "j < width skl"
    and w: "0 < width skl" "width skl < 2 ^ 31"
  shows "if bucket_of skl i (key_bytes k) = j
    then key_tbl_add (tbls ! (i * width skl + j)) k diff = Inr (tbls' ! (i * width skl + j))
    else tbls' ! (i * width skl + j) = tbls ! (i * width skl + j)"
proof -
  let ?b = "\<lambda>r. bucket_of skl r (key_bytes k)" and ?x = "i * width skl + j"
  have b: "?b r < width skl" for r using bucket_of_less [OF w] .
  have eq: "r * width skl + ?b r = ?x \<longleftrightarrow> r = i \<and> ?b i = j" for r
    using row_index_eq [OF b [of r], of r ?x] assms(3) by auto
  define I where "I r us \<longleftrightarrow> (if i < r \<and> ?b i = j then key_tbl_add (tbls ! ?x) k diff = Inr (us ! ?x)
      else us ! ?x = tbls ! ?x)" for r and us :: "key_tbl list"
  have "I (depth skl) tbls'"
  proof (rule for_res_rule [OF assms(1) [unfolded SKL_DistCount_def]])
    show "I 0 tbls" by (simp add: I_def)
    fix r us vs assume r: "r < depth skl" "I r us"
      and s: "dist_add (r * width skl + ?b r) k diff us = Inr vs"
    show "I (Suc r) vs"
    proof (cases "r = i \<and> ?b i = j")
      case True
      then show ?thesis using dist_add_at(3) [OF s] r(2) eq [of r] by (auto simp: I_def)
    next
      case False
      then have "vs ! ?x = us ! ?x" using dist_add_at(4) [OF s, of ?x] eq [of r] by auto
      then show ?thesis using r(2) False by (auto simp: I_def less_Suc_eq)
    qed
  qed
  then show ?thesis using assms(2) by (simp add: I_def)
qed

lemma dist_run_at:
  assumes "dist_run skl tbls ts = Inr tbls'" "i < depth skl" "j < width skl"
    and w: "0 < width skl" "width skl < 2 ^ 31"
  shows "add_all (tbls ! (i * width skl + j)) (filter (in_bucket skl i j) ts) = Inr (tbls' ! (i * width skl + j))"
  using assms(1)
proof (induction ts arbitrary: tbls)
  case (Cons t ts)
  then obtain us where us: "SKL_DistCount skl tbls (tkey t) (tsize t) = Inr us" "dist_run skl us ts = Inr tbls'"
    by auto
  then show ?case
    using Cons.IH [OF us(2)] SKL_DistCount_at [OF us(1) assms(2-5)] by (simp add: in_bucket_def split: if_splits)
qed simp

lemma SKL_DistInit_tables:
  assumes "SKL_DistInit rand glob w d n = Inr (tbls, glob')"
  shows "length tbls = d * w \<and> (\<forall>t \<in> set tbls. \<exists>g g'. key_tbl_init rand g n 1000 20 (- 1) = Inr (t, g'))"
proof -
  define I where "I m st \<longleftrightarrow> length (fst st) = m \<and>
      (\<forall>t \<in> set (fst st). \<exists>g g'. key_tbl_init rand g n 1000 20 (- 1) = Inr (t, g'))"
    for m and st :: "key_tbl list \<times> u64"
  have "I (d * w) (tbls, glob')"
  proof (rule for_res_rule [OF assms [unfolded SKL_DistInit_def], where I = "\<lambda>i. I (i * w)"])
    show "I (0 * w) ([], glob)" by (simp add: I_def)
    fix i st st' assume i: "i < d" "I (i * w) st" and r: "for_res w (\<lambda>j (tbls, glob).
       rbind (key_tbl_init rand glob n 1000 20 (- 1)) (\<lambda>(tbl, glob'). Inr (tbls @ [tbl], glob'))) st = Inr st'"
    have "I (i * w + w) st'"
    proof (rule for_res_rule [OF r, where I = "\<lambda>j. I (i * w + j)"])
      show "I (i * w + 0) st" using i(2) by simp
      fix j sta stb assume "j < w" "I (i * w + j) sta"
        and "(case sta of (tbls, glob) \<Rightarrow> rbind (key_tbl_init rand glob n 1000 20 (- 1))
          (\<lambda>(tbl, glob'). Inr (tbls @ [tbl], glob'))) = Inr stb"
      then show "I (i * w + Suc j) stb" by (auto simp: I_def split: prod.splits) blast
    qed
    then show "I (Suc i * w) st'" by (simp add: add.commute)
  qed
  then show ?thesis by (simp add: I_def)
qed

lemma thousand_le: "(1000 :: int) \<le> INT_MAX"
  by (simp add: INT_MAX_def)

text \<open>C29: The debug tables agree with the sketch. When both are fed the same packets, the table of
  bucket \<open>j\<close> in row \<open>i\<close> holds exactly the flows that hash to that bucket, each once, and the sizes
  it holds add up to the total counter of that bucket.\<close>

theorem SKL_DistCount_agrees:
  assumes "fresh_sketch s" "lgn s = 104" "SKL_DistInit rand glob (width s) (depth s) 104 = Inr (tbls, glob')"
    and "dist_run s tbls ts = Inr tbls'" "i < depth s" "j < width s"
  shows "distinct (map tkey (key_tbl_get_all (tbls' ! (i * width s + j)))) \<and>
    tkey ` set (key_tbl_get_all (tbls' ! (i * width s + j))) = {tkey t | t. t \<in> set ts \<and> in_bucket s i j t} \<and>
    sum_list (map tsize (key_tbl_get_all (tbls' ! (i * width s + j)))) =
      cell (run_sketch SKL_Update (map (\<lambda>t. (key_bytes (tkey t), tsize t)) ts) s) (i * width s + j, 0)"
proof -
  note ok = fresh_sketch_ok [OF assms(1)]
  let ?x = "i * width s + j"
  have w: "0 < width s" "width s < 2 ^ 31" "sk_size s = width s * depth s" using ok by (simp_all add: skl_ok_def)
  have x: "?x < sk_size s" using row_index_less [OF assms(5,6)] w(3) by simp
  then have "tbls ! ?x \<in> set tbls" using SKL_DistInit_tables [OF assms(3)] w(3) by (simp add: mult.commute)
  then obtain g g' where init: "key_tbl_init rand g 104 1000 20 (- 1) = Inr (tbls ! ?x, g')"
    using SKL_DistInit_tables [OF assms(3)] by blast
  note run = dist_run_at [OF assms(4-6) w(1,2)]
  note all = get_all_stream_gen [OF run init_flows(2,3) [OF init thousand_le]]
    and ks = get_all_keys_stream [OF run init_flows(2,3) [OF init thousand_le]]
  have v: "cell_valid s (?x, 0)" using x by (simp add: cell_valid_def)
  have dm: "?x div width s = i" "?x mod width s = j" using assms(6) by simp_all
  have "selects s (key_bytes (tkey t)) (?x, 0) \<longleftrightarrow> in_bucket s i j t" for t
    using dm by (auto simp: selects_def bit_selected_def in_bucket_def)
  then have "cell (run_sketch SKL_Update (map (\<lambda>t. (key_bytes (tkey t), tsize t)) ts) s) (?x, 0) =
      sum_list (map tsize (filter (in_bucket s i j) ts))"
    using skl.cell_run [OF ok v, of "map (\<lambda>t. (key_bytes (tkey t), tsize t)) ts"] fresh_sketch_cell [OF assms(1) v]
    by (simp add: filter_map comp_def)
  then show ?thesis using all ks by auto
qed

lemma dist_count_total:
  assumes "\<forall>i < depth skl. i * width skl + bucket_of skl i (key_bytes k) < length tbls"
    and "\<forall>t \<in> set tbls. \<exists>t'. key_tbl_add t k diff = Inr t'" "0 < width skl" "width skl < 2 ^ 31"
  shows "\<exists>us. SKL_DistCount skl tbls k diff = Inr us"
proof -
  let ?x = "\<lambda>r. r * width skl + bucket_of skl r (key_bytes k)"
  define I where "I r us \<longleftrightarrow> length us = length tbls \<and> (\<forall>q. r * width skl \<le> q \<longrightarrow> us ! q = tbls ! q)"
    for r and us :: "key_tbl list"
  have "\<exists>us. SKL_DistCount skl tbls k diff = Inr us \<and> I (depth skl) us"
    unfolding SKL_DistCount_def
  proof (rule for_res_total)
    show "I 0 tbls" by (simp add: I_def)
    fix r us assume r: "r < depth skl" "I r us"
    have x: "?x r < length us" "us ! ?x r = tbls ! ?x r" using assms(1) r by (auto simp: I_def)
    then have "tbls ! ?x r \<in> set tbls" using r(2) by (simp add: I_def)
    then obtain t' where t': "key_tbl_add (us ! ?x r) k diff = Inr t'" using assms(2) x(2) by metis
    have "?x r < Suc r * width skl" using bucket_of_less [OF assms(3,4), of r "key_bytes k"] by simp
    then have "I (Suc r) (us[?x r := t'])" using r(2) by (auto simp: I_def)
    then show "\<exists>vs. dist_add (?x r) k diff us = Inr vs \<and> I (Suc r) vs"
      using t' x(1) by (simp add: dist_add_def)
  qed
  then show ?thesis by blast
qed

lemma DistInit_exists: "\<exists>tbls g. SKL_DistInit 7 1 w d 104 = Inr (tbls, g)"
proof -
  have "calc_next_prime 1000 = Inr 1009" by code_simp
  then have i: "\<exists>t g'. key_tbl_init 7 g 104 1000 20 (- 1) = Inr (t, g')" for g
    by (simp add: key_tbl_init_def Let_def split: prod.split)
  have inner: "\<exists>st'. for_res w (\<lambda>j (tbls, glob). rbind (key_tbl_init 7 glob 104 1000 20 (- 1))
      (\<lambda>(tbl, glob'). Inr (tbls @ [tbl], glob'))) st = Inr st' \<and> True" for st
  proof (rule for_res_total [where I = "\<lambda>_ _. True"])
    fix j and st :: "key_tbl list \<times> u64"
    obtain tbls glob where "st = (tbls, glob)" by fastforce
    then show "\<exists>t. (case st of (tbls, glob) \<Rightarrow> rbind (key_tbl_init 7 glob 104 1000 20 (- 1))
        (\<lambda>(tbl, glob'). Inr (tbls @ [tbl], glob'))) = Inr t \<and> True"
      using i [of glob] by auto
  qed simp
  have "\<exists>st. SKL_DistInit 7 1 w d 104 = Inr st \<and> True"
    unfolding SKL_DistInit_def by (rule for_res_total [where I = "\<lambda>_ _. True"]) (use inner in auto)
  then show ?thesis by auto
qed

lemma SKL_DistCount_agrees_witness:
  "\<exists>s tbls g us. fresh_sketch s \<and> SKL_DistInit 7 1 (width s) (depth s) 104 = Inr (tbls, g) \<and>
     dist_run s tbls [tuple_of zero_key 3] = Inr us \<and>
     sum_list (map tsize (key_tbl_get_all (us ! (1 * width s + bucket_of s 1 (key_bytes zero_key))))) =
       cell (run_sketch SKL_Update [(key_bytes zero_key, 3)] s) (1 * width s + bucket_of s 1 (key_bytes zero_key), 0)"
proof -
  have p: "calc_next_prime 3 = Inr 3" by code_simp
  then have "\<exists>s g0. SKL_Init 7 1 3 2 104 = Inr (s, g0)"
    by (simp add: SKL_Init_def Let_def INT_MAX_def split: prod.split)
  then obtain s g0 where "SKL_Init 7 1 3 2 104 = Inr (s, g0)" by blast
  then have s: "fresh_sketch s" "depth s = 2" "lgn s = 104"
    using SKL_Init_fresh [of 7 1 3 2 104 s g0] by (simp_all add: INT_MAX_def)
  have ok: "0 < width s" "width s < 2 ^ 31" using fresh_sketch_ok [OF s(1)] by (simp_all add: skl_ok_def)
  obtain tbls g where t: "SKL_DistInit 7 1 (width s) (depth s) 104 = Inr (tbls, g)" using DistInit_exists by blast
  have len: "\<forall>i < depth s. i * width s + bucket_of s i (key_bytes zero_key) < length tbls"
  proof (intro allI impI)
    fix i assume "i < depth s"
    then show "i * width s + bucket_of s i (key_bytes zero_key) < length tbls"
      using row_index_less [of i "depth s" "bucket_of s i (key_bytes zero_key)" "width s"]
        bucket_of_less [OF ok] SKL_DistInit_tables [OF t] by (simp add: mult.commute)
  qed
  have "\<forall>u \<in> set tbls. \<exists>u'. key_tbl_add u zero_key 3 = Inr u'"
  proof
    fix u assume "u \<in> set tbls"
    then obtain g1 g2 where u: "key_tbl_init 7 g1 104 1000 20 (- 1) = Inr (u, g2)"
      using SKL_DistInit_tables [OF t] by blast
    have acc: "kt_acc u" using init_flows(2) [OF u thousand_le] by (simp add: kt_flows_def)
    then have "bucket_no u zero_key < tbl_list_size u" using kt_inv_bucket_no by (simp add: kt_acc_def)
    then show "\<exists>u'. key_tbl_add u zero_key 3 = Inr u'"
      using key_tbl_add_room [OF acc, of zero_key 3] key_tbl_init_fresh [OF u thousand_le] by auto
  qed
  then obtain us where "SKL_DistCount s tbls zero_key 3 = Inr us"
    using dist_count_total [OF len _ ok, of 3] by blast
  then have us: "dist_run s tbls [tuple_of zero_key 3] = Inr us" by (simp add: tuple_of_def)
  have "(1::nat) < depth s" using s(2) by simp
  from SKL_DistCount_agrees [OF s(1,3) t us this bucket_of_less [OF ok]] s t us show ?thesis
    by (intro exI [of _ s] exI [of _ tbls] exI [of _ g] exI [of _ us]) (simp add: tuple_of_def)
qed

end
