(* ===== verification/Spec2Isabelle.thy ===== *)
theory Spec2Isabelle
  imports End_To_End True_Flows Hash_Table Ovs_System Ovs_Hook Result_Files Sketch_Api Sketch_Dist Sketch_Size
begin

text \<open>
  A verification library for SketchLearn: a network measurement that records the packets of a link
  in a sketch (counters per hash bucket and key bit) and takes the large flows out of it
  afterwards. The library translates the C programs under \<^verbatim>\<open>src/\<close> into functions and step
  relations and proves what they compute, alone and together.

  \<^bold>\<open>The programs and how they interact.\<close>

  \<^enum> \<^verbatim>\<open>trace_preprocess\<close> decodes packet captures into a file of fixed-size records.
  \<^enum> \<^verbatim>\<open>dp_simulate\<close> replays the records. Its main thread cuts the trace into intervals and writes the
    records to a ring; its worker thread reads them, updates a sketch, and at the end of each
    interval completes the sketch, prints it to a file of its own, resets it and posts a semaphore.
  \<^enum> \<^verbatim>\<open>controller\<close> reads the sketch of each interval, identifies large flows with falling thresholds,
    takes them out of the sketch, and writes the detected flows and the residual sketch.
  \<^enum> \<^verbatim>\<open>true_flows\<close> has the structure of \<^verbatim>\<open>dp_simulate\<close> but keeps exact totals per flow.
  \<^enum> \<^verbatim>\<open>dp_ovs\<close> is the data plane behind a modified Open vSwitch, whose hooks write the records to a
    ring in shared memory.

  \<^bold>\<open>Which theory models which code.\<close>

  \<^item> \<^theory_text>\<open>Prelude\<close>, \<^theory_text>\<open>Bytes\<close>, \<^theory_text>\<open>Text\<close>, \<^theory_text>\<open>Binary64\<close>: machine types and the result type of C calls, words
    as bytes in memory, the conversions of \<^verbatim>\<open>stdio\<close> the files are written and read with, and
    \<^verbatim>\<open>double\<close> arithmetic.
  \<^item> \<^theory_text>\<open>Hash\<close>: \<^verbatim>\<open>hash.c\<close> (hash functions, seeds, masks, primes, the key shuffle).
  \<^item> \<^theory_text>\<open>Tuple\<close>, \<^theory_text>\<open>Packet\<close>: \<^verbatim>\<open>tuple.h\<close>, \<^verbatim>\<open>util.c\<close> and \<^verbatim>\<open>packet.c\<close> (records, comparison functions, decoding of
    frames, statistics, the text form of a record).
  \<^item> \<^theory_text>\<open>Ring_Buffer\<close>, \<^theory_text>\<open>Shared_Ring\<close>: \<^verbatim>\<open>ringbuffer.c\<close>, first with slots as elements of a list, with the
    local copies of the indices and their batched publication; then the shared region byte by byte.
  \<^item> \<^theory_text>\<open>Ovs_Hook\<close>: what the program adds to Open vSwitch, that is the device in
    \<^verbatim>\<open>openvswitch/datapath/datapath.c\<close> with its \<open>mmap\<close> and \<open>ioctl\<close>, the hook at the end of packet
    processing, the kernel's side of the ring, and the hook of the user-space data path.
  \<^item> \<^theory_text>\<open>Sketch\<close>, \<^theory_text>\<open>Sketch_Ops\<close>, \<^theory_text>\<open>Sketch_Infer\<close>, \<^theory_text>\<open>Sketch_Size\<close>, \<^theory_text>\<open>Sketch_Text\<close>, \<^theory_text>\<open>Sketch_Dist\<close>: \<^verbatim>\<open>alg_sketchlearn.c\<close>
    in the order updates; completion, merge, difference, serial form; template keys,
    identification; size queries; text files; the exact tables kept beside a sketch.
    \<^theory_text>\<open>Sketch_Recovery\<close> holds the recovery theorems and \<^theory_text>\<open>Sketch_Api\<close> the operations as one relation,
    with the errors of the operations on two sketches.
  \<^item> \<^theory_text>\<open>Key_Table\<close>, \<^theory_text>\<open>Result_Files\<close>: \<^verbatim>\<open>alg_keytbl.c\<close> (the exact flow table, and the readers of result
    files). \<^theory_text>\<open>Hash_Table\<close>: \<^verbatim>\<open>hash_table.c\<close> (a chained table over a pool of entries).
  \<^item> \<^theory_text>\<open>Config\<close>, \<^theory_text>\<open>Adapter\<close>: \<^verbatim>\<open>config.c\<close>, the two adapters and \<^verbatim>\<open>trace_preprocess.c\<close>.
  \<^item> \<^theory_text>\<open>Pipeline\<close>: two threads over a ring and a semaphore, as an inductive step relation. \<^theory_text>\<open>Driver\<close>: the
    main loop that \<^verbatim>\<open>dp_simulate.c\<close> and \<^verbatim>\<open>true_flows.c\<close> share. \<^theory_text>\<open>Dp_Simulate\<close>, \<^theory_text>\<open>True_Flows\<close>, \<^theory_text>\<open>Dp_Ovs\<close>,
    \<^theory_text>\<open>Controller\<close>: the programs. \<^theory_text>\<open>Worker_Pool\<close>: one main thread with several workers, \<^theory_text>\<open>Ovs_System\<close>:
    \<^verbatim>\<open>dp_ovs.c\<close> as such a pool. \<^theory_text>\<open>Interval_Sketch\<close>: the sketch of one interval, as written and read.
    \<^theory_text>\<open>End_To_End\<close>: data plane and controller together.

  \<^bold>\<open>How state and operations correspond.\<close> A C structure is a record with its fields; an array is a
  list and a two-dimensional block a list of lists; a pointer into a pool is the index, a pointer
  to a structure owned by one place is the structure. Integers keep their width: \<open>unsigned int\<close> and
  the like are words and wrap. A C call that may not return is a function to \<open>'a res\<close>, whose left
  values are \<open>ExitError\<close> (a message and \<^verbatim>\<open>exit\<close>) and \<open>OutOfBounds\<close> (what C leaves undefined: an access
  outside an array, a null pointer, a division by zero). Loops over a counter are \<open>for_upto\<close> and
  \<open>for_res\<close> of \<^theory_text>\<open>Prelude\<close>. Loops that may run forever, the walks along the linked
  lists of \<^theory_text>\<open>Hash_Table\<close>, the loop of \<^theory_text>\<open>Adapter\<close> over captures, and the two loops of \<^theory_text>\<open>Controller\<close>, are
  partial functions with value \<open>None\<close> for not returning; for each there is a theorem that it returns
  (on well-formed tables, and when libpcap delivers finitely many packets).
  No function takes fuel. \<^theory_text>\<open>detect_loop\<close> ends because every further round has seen a new key.

  \<^bold>\<open>Concurrency.\<close> A step of \<open>sys_step\<close> in \<^theory_text>\<open>Pipeline\<close> is one whole call of the ring buffer, or one
  action of the main thread on the semaphore, or one record handled by the worker. The local copies
  of the ring's indices are part of the state, so each end works with the stale index of the other
  as it does in the code. \<open>pool_step\<close> in \<^theory_text>\<open>Worker_Pool\<close> interleaves one main thread with several workers,
  each with a ring of its own; what one worker sees of it is a run of \<open>sys_step\<close>. Reordering of single memory accesses is not modelled.

  \<^bold>\<open>Interfaces.\<close> Each is a locale with an interpretation on the code's model:
  \<open>fifo_channel\<close> and \<open>pipeline\<close> (what two threads need of a ring; interpreted by the ring buffer),
  \<open>interval_worker\<close>, \<open>group_worker\<close> and \<open>data_plane\<close> (what a worker does with records and ends of
  intervals; interpreted by the three data planes), \<open>linear_sketch\<close> and \<open>mergeable_sketch\<close>
  (counters that are sums over a stream), \<open>flow_counter\<close> and \<open>entry_total\<close> (tables whose content is a
  sum per flow; interpreted by the flow table and by the sums of the result files).

  \<^bold>\<open>What the lemmas show.\<close>

  \<^item> Counting: after a stream of updates every counter of the sketch is the sum of the sizes that
    belong to it; completion, merge, difference, copies, text and serial form follow this meaning.
    The exact tables hold the exact totals.
  \<^item> Identification: no flow is reported below its size, a flow alone in a bucket is reported exactly,
    no key is reported twice, and identification returns when the counters settle every bit.
  \<^item> The ring is a queue in every interleaving, as a list and as memory; the two ends are never both
    stuck; the pipeline always comes to its end within a bounded number of steps; what it has
    written then depends on the trace alone. The same bound and the absence of deadlock hold for
    the main thread and the workers behind Open vSwitch, as long as no record carries the flag of
    the end.
  \<^item> The controller ends on every input; its residual sketch is the interval's stream without exactly
    the flows that the two rounds of detection found, which are the ones it reports. With the same
    configuration and value of \<open>rand()\<close>, the controller opens the file the data plane wrote for an
    interval, reads it without an error, and identifies flows on that interval's counters with the
    same hash functions.
  \<^item> Operations on two sketches return or end the process as their guards say; the one gap, a source
    with longer keys, is stated. Additions to the flow table stay inside its arrays.
  \<^item> Decoding leaves a frame exactly when a header it goes on to read does not fit, and preprocessing
    followed by replay gives the valid packets.
  \<^item> The kernel hook, interleaved with the process that reads: what is appended, lost and taken from
    the ring, and the end of a measurement.
  \<^item> Where the code does not do what it means to (the vectorised update, the intervals behind Open
    vSwitch, the four slots between the kernel's and the process's view of the shared ring), the
    theorem states what it does.

  \<^bold>\<open>Bounds.\<close> Totals of an interval are assumed to fit in 31 bits where a size is compared as
  \<open>int\<close>; streams are assumed shorter than the range of the counters that index them; the capacity
  of the ring is the 1999 elements the code can use. Theorems on tables take the settings the
  programs use: 104-bit keys, no expiry, buckets of at most 100 flows.

  \<^bold>\<open>Parameters.\<close> \<open>rand\<close>, \<open>erf\<close>, the iniparser library, libpcap, the contents of files and the addresses
  the kernel returns are arguments; hypotheses on them state their documented behaviour.

  \<^bold>\<open>Not modelled.\<close> The third-party parts of Open vSwitch (nearly all lines under
  \<^verbatim>\<open>openvswitch/\<close>) and the P4 program, which is not C. The copies \<^verbatim>\<open>openvswitch/lib/packet.c\<close> and
  \<^verbatim>\<open>openvswitch/lib/ringbuffer.c\<close>: they repeat the originals up to log messages, format directives and a
  counter. System calls without effect on the computed values: opening and mapping files and shared
  memory, setting the affinity of a thread, clocks. Freeing memory. Messages printed to the
  terminal. For \<^verbatim>\<open>dp_ovs\<close> the speed at which the kernel delivers records: its main thread is given the
  sequence of the records it reads.
\<close>

end
